(* ===== verification/Co_Prelude.thy ===== *)
theory Co_Prelude
  imports Main "HOL-Library.Word"
begin

text \<open>
  Prelude of the development: the machine types of the C++ sources, addresses,
  the result type of operations that may abort, and the generic lemmas on
  lists, options and words that several components share.
  \<^item> \<open>u8\<close>, \<open>u16\<close>, \<open>u32\<close>, \<open>u64\<close> are the unsigned types of \<open>stdint.h\<close>; \<open>size_t\<close> is \<open>u64\<close>.
  \<^item> An address is a natural number; a pointer is an \<open>addr option\<close>, \<open>None\<close> for \<open>nullptr\<close>.
  \<^item> An operation guarded by \<open>assert\<close> returns an option, \<open>None\<close> when an assertion fails
    or a null pointer is followed.
\<close>

type_synonym u8 = "8 word"
type_synonym u16 = "16 word"
type_synonym u32 = "32 word"
type_synonym u64 = "64 word"
type_synonym i64 = int
type_synonym addr = nat
type_synonym ptr = "addr option"

named_theorems co_heap \<open>reads and writes of the hook heap\<close>
named_theorems co_frame \<open>what an operation leaves unchanged\<close>

text \<open>\<open>assert(b)\<close>: the value is only reached when the condition holds.\<close>

abbreviation guarded :: "bool \<Rightarrow> 'a option \<Rightarrow> 'a option" where
  "guarded b v \<equiv> (if b then v else None)"

subsection \<open>Lists\<close>

lemma last_Cons_append [simp]: "last (a # xs @ y # ys) = last (y # ys)"
  by simp

lemma remove1_append_notin: "x \<notin> set xs \<Longrightarrow> remove1 x (xs @ x # ys) = xs @ ys"
  by (simp add: remove1_append)

lemma distinct_split_unique:
  "distinct (xs @ x # ys) \<Longrightarrow> xs @ x # ys = xs' @ x # ys' \<Longrightarrow> xs = xs' \<and> ys = ys'"
  by (metis append_Cons_eq_iff distinct.simps(2) distinct_append not_distinct_conv_prefix)

lemma take_Suc_snoc_nth: "i < length xs \<Longrightarrow> take (Suc i) xs = take i xs @ [xs ! i]"
  by (simp add: take_Suc_conv_app_nth)

text \<open>The element after \<open>x\<close> in a list, \<open>None\<close> at the end: what a \<open>next\<close> pointer holds.\<close>

fun next_in :: "'a list \<Rightarrow> 'a \<Rightarrow> 'a option" where
  "next_in [] x = None"
| "next_in [y] x = None"
| "next_in (y # z # zs) x = (if y = x then Some z else next_in (z # zs) x)"

lemma next_in_append:
  "x \<notin> set xs \<Longrightarrow> next_in (xs @ x # ys) x = (case ys of [] \<Rightarrow> None | y # _ \<Rightarrow> Some y)"
proof (induction xs)
  case Nil
  then show ?case by (cases ys) auto
next
  case (Cons a xs)
  then show ?case by (cases xs) auto
qed

lemma next_in_set: "next_in xs x = Some y \<Longrightarrow> x \<in> set xs \<and> y \<in> set xs"
  by (induction xs x rule: next_in.induct) (auto split: if_splits)

lemma next_in_notin: "x \<notin> set xs \<Longrightarrow> next_in xs x = None"
  by (induction xs x rule: next_in.induct) auto

lemma next_in_neq: "distinct xs \<Longrightarrow> next_in xs x = Some y \<Longrightarrow> y \<noteq> x"
  by (induction xs x rule: next_in.induct) (auto split: if_splits)

text \<open>A sum over the parties of a protocol when one of them moves.\<close>

lemma sum_list_moved:
  fixes f :: "'a \<Rightarrow> 'b :: comm_monoid_add"
  assumes "t < length xs"
  shows "sum_list (map f (xs[t := x])) + f (xs ! t) = sum_list (map f xs) + f x"
proof -
  have "xs = take t xs @ xs ! t # drop (Suc t) xs" using assms by (rule id_take_nth_drop)
  then have "sum_list (map f xs) = sum_list (map f (take t xs)) + (f (xs ! t) + sum_list (map f (drop (Suc t) xs)))"
    by (metis list.simps(9) map_append sum_list.Cons sum_list_append)
  then show ?thesis using assms by (simp add: upd_conv_take_nth_drop ac_simps)
qed

subsection \<open>Words\<close>

lemma of_nat_Suc_minus_one [simp]: "(of_nat (Suc n) :: 'a::len word) - 1 = of_nat n"
  by simp

lemma unat_of_nat_u64: "n < 2 ^ 64 \<Longrightarrow> unat (of_nat n :: u64) = n"
  by (simp add: unat_of_nat take_bit_nat_eq_self)

lemma unat_Suc_u64: "unat (w :: u64) + 1 < 2 ^ 64 \<Longrightarrow> unat (w + 1) = unat w + 1"
  using unat_of_nat_u64 [of "unat w + 1"] by (simp add: add.commute)

end
