(* ===== verification/Ref_Count.thy ===== *)
theory Ref_Count
  imports Co_Prelude
begin

text \<open>
  The half-intrusive reference counting of \<open>src/common/inc/LangSupport.h\<close>:
  \<open>RefObject\<close>, its shared variant with a control block (\<open>RefObjectImpl\<close>), the strong
  pointer \<open>IncursivePtr\<close> and the weak pointer \<open>WeakPtr\<close>. The store maps addresses to
  objects and to control blocks; an object remembers how often its deleter ran and a
  block how often it was freed, so that a double delete is visible. \<open>long\<close> counters are
  \<open>int\<close>: a wrap would need \<open>2 ^ 63\<close> live references.
  The main result follows a client that owns strong and weak handles through any
  sequence of operations: the deleter runs exactly when the last strong handle goes, and
  the control block is freed exactly when the last handle of either kind goes.
\<close>

subsection \<open>Objects and control blocks\<close>

record ref_object =
  referenceImpl :: int
  impl :: ptr                    \<comment> \<open>\<open>Some\<close> for a \<open>SharedRefObject\<close>\<close>
  deleted :: nat                  \<comment> \<open>runs of \<open>deleter\<close>\<close>

record ref_impl =
  reference :: int
  weak :: int
  freed :: nat                    \<comment> \<open>runs of \<open>delete this\<close>\<close>

record ref_store =
  objs :: "addr \<Rightarrow> ref_object"
  impls :: "addr \<Rightarrow> ref_impl"

definition new_RefObject :: ref_object where
  "new_RefObject = \<lparr>referenceImpl = 1, impl = None, deleted = 0\<rparr>"

definition new_RefObjectImpl :: ref_impl where
  "new_RefObjectImpl = \<lparr>reference = 1, weak = 1, freed = 0\<rparr>"

definition new_SharedRefObject :: "addr \<Rightarrow> addr \<Rightarrow> 'a ref_store_scheme \<Rightarrow> 'a ref_store_scheme" where
  "new_SharedRefObject p i s =
     s\<lparr>objs := (objs s)(p := new_RefObject\<lparr>impl := Some i\<rparr>),
       impls := (impls s)(i := new_RefObjectImpl)\<rparr>"

definition IsShared :: "'a ref_store_scheme \<Rightarrow> addr \<Rightarrow> bool" where
  "IsShared s p \<longleftrightarrow> impl (objs s p) \<noteq> None"

text \<open>\<open>*reference\<close>: the counter the object points at, its own or the block's.\<close>

definition use_count :: "'a ref_store_scheme \<Rightarrow> addr \<Rightarrow> int" where
  "use_count s p = (case impl (objs s p) of
      None \<Rightarrow> referenceImpl (objs s p) | Some i \<Rightarrow> reference (impls s i))"

definition set_count :: "addr \<Rightarrow> int \<Rightarrow> 'a ref_store_scheme \<Rightarrow> 'a ref_store_scheme" where
  "set_count p v s = (case impl (objs s p) of
      None \<Rightarrow> s\<lparr>objs := (objs s)(p := (objs s p)\<lparr>referenceImpl := v\<rparr>)\<rparr>
    | Some i \<Rightarrow> s\<lparr>impls := (impls s)(i := (impls s i)\<lparr>reference := v\<rparr>)\<rparr>)"

definition run_deleter :: "addr \<Rightarrow> 'a ref_store_scheme \<Rightarrow> 'a ref_store_scheme" where
  "run_deleter p s = s\<lparr>objs := (objs s)(p := (objs s p)\<lparr>deleted := Suc (deleted (objs s p))\<rparr>)\<rparr>"

definition IncrementRef :: "addr \<Rightarrow> 'a ref_store_scheme \<Rightarrow> 'a ref_store_scheme" where
  "IncrementRef p s = set_count p (use_count s p + 1) s"

definition RefObject_DecrementRef :: "addr \<Rightarrow> 'a ref_store_scheme \<Rightarrow> bool \<times> 'a ref_store_scheme" where
  "RefObject_DecrementRef p s =
     (let s1 = set_count p (use_count s p - 1) s
      in if use_count s p - 1 = 0 then (True, run_deleter p s1) else (False, s1))"

subsection \<open>The control block\<close>

definition IncrementWeak :: "addr \<Rightarrow> 'a ref_store_scheme \<Rightarrow> 'a ref_store_scheme" where
  "IncrementWeak i s = s\<lparr>impls := (impls s)(i := (impls s i)\<lparr>weak := weak (impls s i) + 1\<rparr>)\<rparr>"

definition DecrementWeak :: "addr \<Rightarrow> 'a ref_store_scheme \<Rightarrow> 'a ref_store_scheme" where
  "DecrementWeak i s =
     (let b = (impls s i)\<lparr>weak := weak (impls s i) - 1\<rparr>;
          b' = (if weak b = 0 then b\<lparr>freed := Suc (freed b)\<rparr> else b)
      in s\<lparr>impls := (impls s)(i := b')\<rparr>)"

text \<open>\<open>RefObjectImpl::Lock\<close>: the compare-and-swap loop, executed without interference,
  fails on a zero count and adds one otherwise.\<close>

definition Lock :: "addr \<Rightarrow> 'a ref_store_scheme \<Rightarrow> bool \<times> 'a ref_store_scheme" where
  "Lock i s =
     (let count = reference (impls s i)
      in if count = 0 then (False, s)
         else (True, s\<lparr>impls := (impls s)(i := (impls s i)\<lparr>reference := count + 1\<rparr>)\<rparr>))"

text \<open>\<open>SharedRefObject::DecrementRef\<close> overrides the base method; \<open>DecrementRef\<close> is the
  virtual call.\<close>

definition SharedRefObject_DecrementRef :: "addr \<Rightarrow> addr \<Rightarrow> 'a ref_store_scheme \<Rightarrow> bool \<times> 'a ref_store_scheme" where
  "SharedRefObject_DecrementRef p i s =
     (case RefObject_DecrementRef p s of
        (True, s1) \<Rightarrow> (True, DecrementWeak i s1)
      | (False, s1) \<Rightarrow> (False, s1))"

definition DecrementRef :: "addr \<Rightarrow> 'a ref_store_scheme \<Rightarrow> bool \<times> 'a ref_store_scheme" where
  "DecrementRef p s = (case impl (objs s p) of
      None \<Rightarrow> RefObject_DecrementRef p s
    | Some i \<Rightarrow> SharedRefObject_DecrementRef p i s)"

subsection \<open>Strong pointers\<close>

text \<open>An \<open>IncursivePtr\<close> is its \<open>ptr_\<close>; \<open>ip_drop\<close> is the destructor and \<open>reset\<close>.\<close>

definition ip_new :: "ptr \<Rightarrow> 'a ref_store_scheme \<Rightarrow> ptr \<times> 'a ref_store_scheme" where
  "ip_new p s = (p, case p of None \<Rightarrow> s | Some a \<Rightarrow> IncrementRef a s)"

definition ip_drop :: "ptr \<Rightarrow> 'a ref_store_scheme \<Rightarrow> ptr \<times> 'a ref_store_scheme" where
  "ip_drop p s = (None, case p of None \<Rightarrow> s | Some a \<Rightarrow> snd (DecrementRef a s))"

definition ip_assign :: "ptr \<Rightarrow> ptr \<Rightarrow> 'a ref_store_scheme \<Rightarrow> ptr \<times> 'a ref_store_scheme" where
  "ip_assign self other s =
     (let s1 = snd (ip_drop self s)
      in (other, case other of None \<Rightarrow> s1 | Some a \<Rightarrow> IncrementRef a s1))"

text \<open>Move assignment: \<open>reset\<close>, then the two pointers are swapped; the result is the pair.\<close>

definition ip_move :: "ptr \<Rightarrow> ptr \<Rightarrow> 'a ref_store_scheme \<Rightarrow> (ptr \<times> ptr) \<times> 'a ref_store_scheme" where
  "ip_move self other s = (let (e, s1) = ip_drop self s in ((other, e), s1))"

definition ip_use_count :: "ptr \<Rightarrow> 'a ref_store_scheme \<Rightarrow> int" where
  "ip_use_count p s = (case p of None \<Rightarrow> 0 | Some a \<Rightarrow> use_count s a)"

subsection \<open>Weak pointers\<close>

record weak_ptr =
  wimpl :: ptr
  wptr :: ptr

definition wp_null :: weak_ptr where
  "wp_null = \<lparr>wimpl = None, wptr = None\<rparr>"

definition wp_reset :: "weak_ptr \<Rightarrow> 'a ref_store_scheme \<Rightarrow> weak_ptr \<times> 'a ref_store_scheme" where
  "wp_reset w s = (case wimpl w of None \<Rightarrow> (w, s) | Some i \<Rightarrow> (wp_null, DecrementWeak i s))"

definition wp_reset_to :: "weak_ptr \<Rightarrow> ptr \<Rightarrow> 'a ref_store_scheme \<Rightarrow> weak_ptr \<times> 'a ref_store_scheme" where
  "wp_reset_to w p s =
     (let (w1, s1) = wp_reset w s
      in case p of None \<Rightarrow> (w1, s1)
       | Some a \<Rightarrow> (case impl (objs s1 a) of
            None \<Rightarrow> (w1, s1)
          | Some i \<Rightarrow> (\<lparr>wimpl = Some i, wptr = Some a\<rparr>, IncrementWeak i s1)))"

definition wp_new :: "ptr \<Rightarrow> 'a ref_store_scheme \<Rightarrow> weak_ptr \<times> 'a ref_store_scheme" where
  "wp_new p s = wp_reset_to wp_null p s"

definition wp_copy :: "weak_ptr \<Rightarrow> 'a ref_store_scheme \<Rightarrow> weak_ptr \<times> 'a ref_store_scheme" where
  "wp_copy w s = (w, case wimpl w of None \<Rightarrow> s | Some i \<Rightarrow> IncrementWeak i s)"

definition wp_assign :: "weak_ptr \<Rightarrow> weak_ptr \<Rightarrow> 'a ref_store_scheme \<Rightarrow> weak_ptr \<times> 'a ref_store_scheme" where
  "wp_assign self other s =
     (let (w1, s1) = wp_reset self s
      in case wimpl other of None \<Rightarrow> (w1, s1) | Some i \<Rightarrow> (other, IncrementWeak i s1))"

text \<open>\<open>WeakPtr::lock\<close>: lock the block, build a strong pointer (which counts once more) and
  give the first count back.\<close>

definition wp_lock :: "weak_ptr \<Rightarrow> 'a ref_store_scheme \<Rightarrow> ptr \<times> 'a ref_store_scheme" where
  "wp_lock w s = (case wimpl w of
      None \<Rightarrow> (None, s)
    | Some i \<Rightarrow> (case Lock i s of
          (False, s1) \<Rightarrow> (None, s1)
        | (True, s1) \<Rightarrow> (case wptr w of
              None \<Rightarrow> (None, s1)
            | Some a \<Rightarrow> (let (p, s2) = ip_new (Some a) s1 in (p, snd (DecrementRef a s2))))))"

lemmas rc_defs = new_RefObject_def new_RefObjectImpl_def new_SharedRefObject_def IsShared_def
  use_count_def set_count_def run_deleter_def IncrementRef_def RefObject_DecrementRef_def
  IncrementWeak_def DecrementWeak_def Lock_def SharedRefObject_DecrementRef_def DecrementRef_def
  ip_new_def ip_drop_def ip_assign_def ip_move_def ip_use_count_def
  wp_null_def wp_reset_def wp_reset_to_def wp_new_def wp_copy_def wp_assign_def wp_lock_def

subsection \<open>Ownership of one shared object\<close>

text \<open>
  \<open>owned p i n m s\<close>: the clients hold \<open>n\<close> strong and \<open>m\<close> weak handles on the shared object
  \<open>p\<close> with block \<open>i\<close>. The strong handles together own one weak count.
\<close>

definition owned :: "addr \<Rightarrow> addr \<Rightarrow> nat \<Rightarrow> nat \<Rightarrow> 'a ref_store_scheme \<Rightarrow> bool" where
  "owned p i n m s \<longleftrightarrow>
     impl (objs s p) = Some i \<and>
     reference (impls s i) = int n \<and>
     weak (impls s i) = int m + (if 0 < n then 1 else 0) \<and>
     deleted (objs s p) = (if n = 0 then 1 else 0) \<and>
     freed (impls s i) = (if n = 0 \<and> m = 0 then 1 else 0)"

abbreviation weak_to :: "addr \<Rightarrow> addr \<Rightarrow> weak_ptr" where
  "weak_to p i \<equiv> \<lparr>wimpl = Some i, wptr = Some p\<rparr>"

text \<open>What a client that owns the handles may do with them. Each step is one call.\<close>

inductive rc_step :: "addr \<Rightarrow> addr \<Rightarrow> nat \<times> nat \<times> 'a ref_store_scheme \<Rightarrow> nat \<times> nat \<times> 'a ref_store_scheme \<Rightarrow> bool"
  for p i where
  strong_copy: "0 < n \<Longrightarrow> rc_step p i (n, m, s) (Suc n, m, snd (ip_new (Some p) s))"
| strong_drop: "0 < n \<Longrightarrow> rc_step p i (n, m, s) (n - 1, m, snd (ip_drop (Some p) s))"
| weak_new: "0 < n \<Longrightarrow> rc_step p i (n, m, s) (n, Suc m, snd (wp_new (Some p) s))"
| weak_copy: "0 < m \<Longrightarrow> rc_step p i (n, m, s) (n, Suc m, snd (wp_copy (weak_to p i) s))"
| weak_drop: "0 < m \<Longrightarrow> rc_step p i (n, m, s) (n, m - 1, snd (wp_reset (weak_to p i) s))"
| weak_lock_ok: "0 < m \<Longrightarrow> wp_lock (weak_to p i) s = (Some p, s') \<Longrightarrow> rc_step p i (n, m, s) (Suc n, m, s')"
| weak_lock_fail: "0 < m \<Longrightarrow> wp_lock (weak_to p i) s = (None, s') \<Longrightarrow> rc_step p i (n, m, s) (n, m, s')"

lemma owned_new: "owned p i 1 0 (new_SharedRefObject p i s)"
  by (simp add: owned_def rc_defs)

lemma owned_strong_copy:
  "owned p i n m s \<Longrightarrow> 0 < n \<Longrightarrow> owned p i (Suc n) m (snd (ip_new (Some p) s))"
  by (simp add: owned_def rc_defs)

lemma owned_strong_drop:
  "owned p i (Suc n) m s \<Longrightarrow> owned p i n m (snd (ip_drop (Some p) s))"
  by (auto simp: owned_def rc_defs Let_def)

lemma owned_weak_new:
  "owned p i n m s \<Longrightarrow> 0 < n \<Longrightarrow> owned p i n (Suc m) (snd (wp_new (Some p) s))"
  by (simp add: owned_def rc_defs)

lemma owned_weak_copy:
  "owned p i n m s \<Longrightarrow> 0 < m \<Longrightarrow> owned p i n (Suc m) (snd (wp_copy (weak_to p i) s))"
  by (simp add: owned_def rc_defs)

lemma owned_weak_drop:
  "owned p i n (Suc m) s \<Longrightarrow> owned p i n m (snd (wp_reset (weak_to p i) s))"
  by (auto simp: owned_def rc_defs Let_def)

lemma owned_weak_lock:
  assumes "owned p i n m s"
  shows "if n = 0 then wp_lock (weak_to p i) s = (None, s)
    else \<exists>s'. wp_lock (weak_to p i) s = (Some p, s') \<and> owned p i (Suc n) m s'"
  using assms by (auto simp: owned_def rc_defs Let_def)

definition owned_by :: "addr \<Rightarrow> addr \<Rightarrow> nat \<times> nat \<times> 'a ref_store_scheme \<Rightarrow> bool" where
  "owned_by p i c = (case c of (n, m, s) \<Rightarrow> owned p i n m s)"

lemma rc_step_owned: "rc_step p i c c' \<Longrightarrow> owned_by p i c \<Longrightarrow> owned_by p i c'"
proof (induction rule: rc_step.induct)
  case (strong_drop n m s)
  then show ?case using owned_strong_drop [of p i "n - 1" m s] by (simp add: owned_by_def)
next
  case (weak_drop m n s)
  then show ?case using owned_weak_drop [of p i n "m - 1" s] by (simp add: owned_by_def)
next
  case (weak_lock_ok m s s' n)
  then show ?case using owned_weak_lock [of p i n m s] by (auto simp: owned_by_def split: if_splits)
next
  case (weak_lock_fail m s s' n)
  then show ?case using owned_weak_lock [of p i n m s] by (auto simp: owned_by_def split: if_splits)
qed (simp_all add: owned_by_def owned_strong_copy owned_weak_new owned_weak_copy)

lemma rc_steps_owned: "(rc_step p i)\<^sup>*\<^sup>* c c' \<Longrightarrow> owned_by p i c \<Longrightarrow> owned_by p i c'"
  by (induction rule: rtranclp_induct) (auto intro: rc_step_owned)

text \<open>C26: For a new shared object, after any sequence of copies, drops and locks of strong and
  weak handles by clients that only use handles they own, the deleter has run exactly once if
  no strong handle is left and not at all otherwise, and the control block has been freed
  exactly once if no handle of either kind is left and not at all otherwise.\<close>

theorem shared_object_deleted_once:
  assumes "(rc_step p i)\<^sup>*\<^sup>* (1, 0, new_SharedRefObject p i s) (n, m, t)"
  shows "deleted (objs t p) = (if n = 0 then 1 else 0) \<and>
    freed (impls t i) = (if n = 0 \<and> m = 0 then 1 else 0)"
  using rc_steps_owned [OF assms] owned_new [of p i s] by (simp add: owned_by_def owned_def)

text \<open>Locking a weak pointer returns the object exactly when a strong handle is alive, and
  then adds exactly one strong reference and nothing else.\<close>

lemma weak_lock_exact:
  assumes "owned p i n m s"
  shows "fst (wp_lock (weak_to p i) s) = (if n = 0 then None else Some p) \<and>
    owned p i (if n = 0 then 0 else Suc n) m (snd (wp_lock (weak_to p i) s))"
  using owned_weak_lock [OF assms] assms by (auto split: if_splits)

theorem shared_object_deleted_once_witness:
  "\<exists>t. (rc_step 7 9)\<^sup>*\<^sup>* (1, 0, new_SharedRefObject 7 9 \<lparr>objs = \<lambda>_. new_RefObject, impls = \<lambda>_. new_RefObjectImpl\<rparr>) (0, 1, t)
     \<and> deleted (objs t 7) = 1 \<and> freed (impls t 9) = 0"
proof -
  let ?s = "new_SharedRefObject 7 9 \<lparr>objs = \<lambda>_. new_RefObject, impls = \<lambda>_. new_RefObjectImpl\<rparr>"
  let ?s1 = "snd (wp_new (Some 7) ?s)"
  have "(rc_step 7 9) (1, 0, ?s) (1, 1, ?s1)"
    using rc_step.weak_new [of 1 7 9 0 ?s] by simp
  moreover have "(rc_step 7 9) (1, 1, ?s1) (0, 1, snd (ip_drop (Some 7) ?s1))"
    using rc_step.strong_drop [of 1 7 9 1 ?s1] by simp
  ultimately have r: "(rc_step 7 9)\<^sup>*\<^sup>* (1, 0, ?s) (0, 1, snd (ip_drop (Some 7) ?s1))"
    by (meson converse_rtranclp_into_rtranclp rtranclp.rtrancl_refl)
  show ?thesis using r shared_object_deleted_once [OF r] by auto
qed

end
