(* ===== verification/Fifo_Spec.thy ===== *)
theory Fifo_Spec
  imports Co_Prelude
begin

text \<open>
  The contract every first-in first-out container of the program promises: the intrusive
  task queue, the ring buffer and the list buffer of a channel. \<open>rep s xs\<close> says that the
  state holds exactly \<open>xs\<close>, oldest first; \<open>ok s a\<close> is what a caller owes before it
  inserts \<open>a\<close>. \<open>enq\<close> returns \<open>None\<close> when the container refuses the element, \<open>deq\<close> when
  there is none. A client lemma proved once here: over any sequence of calls, what came
  out followed by what is left equals what was there followed by what was accepted.
\<close>

datatype 'a fifo_op = Enq 'a | Deq

locale fifo =
  fixes rep :: "'s \<Rightarrow> 'a list \<Rightarrow> bool"
    and ok :: "'s \<Rightarrow> 'a \<Rightarrow> bool"
    and enq :: "'a \<Rightarrow> 's \<Rightarrow> 's option"
    and deq :: "'s \<Rightarrow> ('a \<times> 's) option"
  assumes enq_rep: "rep s xs \<Longrightarrow> ok s a \<Longrightarrow> enq a s = Some s' \<Longrightarrow> rep s' (xs @ [a])"
    and deq_nil: "rep s [] \<Longrightarrow> deq s = None"
    and deq_cons: "rep s (x # xs) \<Longrightarrow> \<exists>s'. deq s = Some (x, s') \<and> rep s' xs"
begin

fun step :: "'a fifo_op \<Rightarrow> 's \<Rightarrow> 'a list \<times> 'a list \<times> 's" where
  "step (Enq a) s = (if ok s a then (case enq a s of None \<Rightarrow> ([], [], s) | Some s' \<Rightarrow> ([a], [], s')) else ([], [], s))"
| "step Deq s = (case deq s of None \<Rightarrow> ([], [], s) | Some (x, s') \<Rightarrow> ([], [x], s'))"

fun run :: "'a fifo_op list \<Rightarrow> 's \<Rightarrow> 'a list \<times> 'a list \<times> 's" where
  "run [] s = ([], [], s)"
| "run (c # cs) s = (let (i, d, s1) = step c s; (js, ds, s2) = run cs s1 in (i @ js, d @ ds, s2))"

lemma step_conserves:
  "rep s xs \<Longrightarrow> step c s = (i, d, s') \<Longrightarrow> \<exists>xs'. rep s' xs' \<and> xs @ i = d @ xs'"
proof (cases c)
  case (Enq a)
  assume "rep s xs" and "step c s = (i, d, s')"
  with Enq show ?thesis by (auto split: if_splits option.splits dest: enq_rep)
next
  case Deq
  assume a: "rep s xs" "step c s = (i, d, s')"
  show ?thesis
  proof (cases xs)
    case Nil
    with Deq a show ?thesis using deq_nil [of s] by auto
  next
    case (Cons x ys)
    with Deq a show ?thesis using deq_cons [of s x ys] by auto
  qed
qed

lemma run_conserves:
  "rep s xs \<Longrightarrow> run cs s = (ins, outs, s') \<Longrightarrow> \<exists>xs'. rep s' xs' \<and> xs @ ins = outs @ xs'"
proof (induction cs arbitrary: s xs ins outs s')
  case Nil
  then show ?case by auto
next
  case (Cons c cs)
  obtain i d s1 where 1: "step c s = (i, d, s1)" by (metis prod_cases3)
  obtain js ds s2 where 2: "run cs s1 = (js, ds, s2)" by (metis prod_cases3)
  from Cons.prems 1 2 have eq: "ins = i @ js" "outs = d @ ds" "s' = s2" by auto
  from step_conserves [OF Cons.prems(1) 1] obtain ys where ys: "rep s1 ys" "xs @ i = d @ ys" by blast
  from Cons.IH [OF ys(1) 2] obtain zs where zs: "rep s2 zs" "ys @ js = ds @ zs" by blast
  have "xs @ ins = outs @ zs" using ys(2) zs(2) eq by (metis append.assoc)
  then show ?case using zs(1) eq by blast
qed

end

end
