(* ===== verification/Ts_Queue.thy ===== *)
theory Ts_Queue
  imports Ref_Count Fifo_Spec
begin

text \<open>
  The intrusive doubly linked queue of \<open>src/common/inc/TsQueue.h\<close>, at pointer level:
  \<open>TSQueueHook\<close> is one map per field over the shared heap, \<open>SList\<close> and \<open>TSQueue\<close> are
  records of addresses. A queue owns a dummy hook that is never an element. Operations
  under \<open>LockGuard\<close> are one atomic step; a failed \<open>assert\<close> or a null dereference is \<open>None\<close>.
  The lemmas show that every operation terminates, never fails an assertion on a
  well-formed queue, keeps the links well-formed and has the expected effect on the
  list of elements (append, take, drop, delete).
\<close>

subsection \<open>Hooks\<close>

record hook_heap = ref_store +
  prev :: "addr \<Rightarrow> ptr"
  nxt :: "addr \<Rightarrow> ptr"
  check :: "addr \<Rightarrow> ptr"

definition set_next :: "addr \<Rightarrow> ptr \<Rightarrow> hook_heap \<Rightarrow> hook_heap" where
  [co_heap]: "set_next p v h = h\<lparr>nxt := (nxt h)(p := v)\<rparr>"

definition set_prev :: "addr \<Rightarrow> ptr \<Rightarrow> hook_heap \<Rightarrow> hook_heap" where
  [co_heap]: "set_prev p v h = h\<lparr>prev := (prev h)(p := v)\<rparr>"

definition set_check :: "addr \<Rightarrow> ptr \<Rightarrow> hook_heap \<Rightarrow> hook_heap" where
  [co_heap]: "set_check p v h = h\<lparr>check := (check h)(p := v)\<rparr>"

definition link :: "addr \<Rightarrow> addr \<Rightarrow> hook_heap \<Rightarrow> hook_heap option" where
  "link this theNext h =
     guarded (nxt h this = None \<and> prev h theNext = None)
       (Some (set_prev theNext (Some this) (set_next this (Some theNext) h)))"

definition unlink :: "addr \<Rightarrow> addr \<Rightarrow> hook_heap \<Rightarrow> hook_heap option" where
  "unlink this theNext h =
     guarded (nxt h this = Some theNext \<and> prev h theNext = Some this)
       (Some (set_prev theNext None (set_next this None h)))"

lemma IncrementRef_hooks [simp, co_frame]:
  "prev (IncrementRef p h) = prev h" "nxt (IncrementRef p h) = nxt h" "check (IncrementRef p h) = check h"
  by (simp_all add: IncrementRef_def set_count_def split: option.splits)

lemma DecrementRef_hooks [simp, co_frame]:
  "prev (snd (DecrementRef p h)) = prev h" "nxt (snd (DecrementRef p h)) = nxt h"
  "check (snd (DecrementRef p h)) = check h"
  by (simp_all add: DecrementRef_def RefObject_DecrementRef_def SharedRefObject_DecrementRef_def
      DecrementWeak_def run_deleter_def set_count_def Let_def split: option.splits)

subsection \<open>SList\<close>

record slist =
  shead :: ptr
  stail :: ptr
  scount :: u64

definition stealed :: slist where
  "stealed = \<lparr>shead = None, stail = None, scount = 0\<rparr>"

definition SList_empty :: "slist \<Rightarrow> bool" where
  "SList_empty l \<longleftrightarrow> shead l = None"

definition SList_size :: "slist \<Rightarrow> u64" where
  "SList_size l = scount l"

definition SList_erase :: "addr \<Rightarrow> hook_heap \<times> slist \<Rightarrow> (hook_heap \<times> slist) option" where
  "SList_erase p = (\<lambda>(h, l).
     case (case prev h p of
             Some a \<Rightarrow> Some (set_next a (nxt h p) h, l)
           | None \<Rightarrow> (case shead l of None \<Rightarrow> None | Some hdp \<Rightarrow> Some (h, l\<lparr>shead := nxt h hdp\<rparr>)))
     of None \<Rightarrow> None
      | Some (h1, l1) \<Rightarrow>
     (case (case nxt h1 p of
             Some b \<Rightarrow> Some (set_prev b (prev h1 p) h1, l1)
           | None \<Rightarrow> (case stail l1 of None \<Rightarrow> None | Some tlp \<Rightarrow> Some (h1, l1\<lparr>stail := prev h1 tlp\<rparr>)))
      of None \<Rightarrow> None
       | Some (h2, l2) \<Rightarrow>
           Some (snd (DecrementRef p (set_next p None (set_prev p None h2))), l2\<lparr>scount := scount l2 - 1\<rparr>)))"

definition SList_erase_checked :: "addr \<Rightarrow> ptr \<Rightarrow> hook_heap \<times> slist \<Rightarrow> (bool \<times> hook_heap \<times> slist) option" where
  "SList_erase_checked p c = (\<lambda>(h, l).
     if check h p \<noteq> c then Some (False, h, l)
     else map_option (\<lambda>r. (True, r)) (SList_erase p (h, l)))"

text \<open>The iterator reads the next pointer when it is set, so the element it stands on may be
  erased; \<open>clear\<close> walks the list with it. The fuel bounds the walk.\<close>

type_synonym iter = "ptr \<times> ptr"

definition iter_reset :: "hook_heap \<Rightarrow> ptr \<Rightarrow> iter" where
  "iter_reset h p = (p, case p of None \<Rightarrow> None | Some a \<Rightarrow> nxt h a)"

fun SList_clear_loop :: "nat \<Rightarrow> iter \<Rightarrow> hook_heap \<times> slist \<Rightarrow> (hook_heap \<times> slist) option" where
  "SList_clear_loop 0 it s = None"
| "SList_clear_loop (Suc f) it s = (case fst it of
      None \<Rightarrow> Some (fst s, stealed)
    | Some p \<Rightarrow> (let it' = iter_reset (fst s) (snd it)
        in case SList_erase p s of None \<Rightarrow> None | Some s' \<Rightarrow> SList_clear_loop f it' s'))"

definition SList_clear :: "nat \<Rightarrow> hook_heap \<times> slist \<Rightarrow> (hook_heap \<times> slist) option" where
  "SList_clear f s = SList_clear_loop f (iter_reset (fst s) (shead (snd s))) s"

text \<open>\<open>append\<close>: the result is the heap and this list; \<open>other\<close> is left stealed. On an empty
  target the source's move assignment first clears this list, which has no element.\<close>

definition SList_append :: "hook_heap \<times> slist \<Rightarrow> slist \<Rightarrow> (hook_heap \<times> slist) option" where
  "SList_append = (\<lambda>(h, l) other.
     if SList_empty other then Some (h, l)
     else if SList_empty l then Some (h, other)
     else (case (stail l, shead other) of
        (Some t, Some oh) \<Rightarrow> (case link t oh h of
            None \<Rightarrow> None
          | Some h' \<Rightarrow> Some (h', l\<lparr>stail := stail other, scount := scount l + scount other\<rparr>))
      | _ \<Rightarrow> None))"

fun advance :: "nat \<Rightarrow> addr \<Rightarrow> hook_heap \<Rightarrow> addr option" where
  "advance 0 p h = Some p"
| "advance (Suc k) p h = (case nxt h p of None \<Rightarrow> None | Some q \<Rightarrow> advance k q h)"

text \<open>\<open>cut\<close>: the first component of the result is the part cut off, the second what is left.\<close>

definition SList_cut :: "u64 \<Rightarrow> hook_heap \<times> slist \<Rightarrow> (hook_heap \<times> slist \<times> slist) option" where
  "SList_cut n = (\<lambda>(h, l).
     if SList_empty l then Some (h, stealed, l)
     else if SList_size l \<le> n then Some (h, l, stealed)
     else if n = 0 then Some (h, stealed, l)
     else (case shead l of None \<Rightarrow> None | Some hdp \<Rightarrow>
       (case advance (unat n - 1) hdp h of None \<Rightarrow> None | Some pos \<Rightarrow>
         (case nxt h pos of None \<Rightarrow> None | Some nh \<Rightarrow>
           (case unlink pos nh h of None \<Rightarrow> None | Some h' \<Rightarrow>
             Some (h', \<lparr>shead = shead l, stail = Some pos, scount = n\<rparr>,
                   l\<lparr>scount := scount l - n, shead := Some nh\<rparr>))))))"

subsection \<open>TSQueue\<close>

record ts_queue =
  head :: addr                    \<comment> \<open>the dummy hook\<close>
  tail :: addr
  count :: u64
  qcheck :: ptr

definition TSQueue_new :: "addr \<Rightarrow> addr \<Rightarrow> hook_heap \<Rightarrow> hook_heap \<times> ts_queue" where
  "TSQueue_new d this h =
     (set_check d None (set_next d None (set_prev d None h)),
      \<lparr>head = d, tail = d, count = 0, qcheck = Some this\<rparr>)"

definition TSQueue_front :: "hook_heap \<times> ts_queue \<Rightarrow> ptr \<times> hook_heap \<times> ts_queue" where
  "TSQueue_front = (\<lambda>(h, q). case nxt h (head q) of
      None \<Rightarrow> (None, h, q) | Some p \<Rightarrow> (Some p, set_check p (qcheck q) h, q))"

definition TSQueue_next :: "addr \<Rightarrow> hook_heap \<times> ts_queue \<Rightarrow> ptr \<times> hook_heap \<times> ts_queue" where
  "TSQueue_next p = (\<lambda>(h, q). case nxt h p of
      None \<Rightarrow> (None, h, q) | Some r \<Rightarrow> (Some r, set_check r (qcheck q) h, q))"

definition TSQueue_empty :: "ts_queue \<Rightarrow> bool" where
  "TSQueue_empty q \<longleftrightarrow> count q = 0"

definition TSQueue_size :: "ts_queue \<Rightarrow> u64" where
  "TSQueue_size q = count q"

definition TSQueue_pop :: "hook_heap \<times> ts_queue \<Rightarrow> (ptr \<times> hook_heap \<times> ts_queue) option" where
  "TSQueue_pop = (\<lambda>(h, q).
     if head q = tail q then Some (None, h, q)
     else (case nxt h (head q) of None \<Rightarrow> None | Some p \<Rightarrow>
       (let q1 = (if p = tail q then q\<lparr>tail := head q\<rparr> else q);
            h1 = set_next (head q) (nxt h p) h;
            h2 = (case nxt h1 p of None \<Rightarrow> h1 | Some r \<Rightarrow> set_prev r (Some (head q)) h1);
            h3 = set_check p None (set_next p None (set_prev p None h2))
        in Some (Some p, snd (DecrementRef p h3), q1\<lparr>count := count q1 - 1\<rparr>))))"

definition TSQueue_push :: "addr \<Rightarrow> bool \<Rightarrow> hook_heap \<times> ts_queue \<Rightarrow> (u64 \<times> hook_heap \<times> ts_queue) option" where
  "TSQueue_push e refCount = (\<lambda>(h, q).
     guarded (nxt h e = None \<and> prev h e = None)
       (case link (tail q) e h of None \<Rightarrow> None | Some h1 \<Rightarrow>
         (let h2 = set_check e (qcheck q) (set_next e None h1);
              q' = q\<lparr>tail := e, count := count q + 1\<rparr>
          in Some (count q', if refCount then IncrementRef e h2 else h2, q'))))"

definition TSQueue_push_list :: "slist \<Rightarrow> hook_heap \<times> ts_queue \<Rightarrow> (hook_heap \<times> ts_queue) option" where
  "TSQueue_push_list l = (\<lambda>(h, q).
     if SList_empty l then Some (h, q)
     else (case (shead l, stail l) of
        (Some lh, Some lt) \<Rightarrow>
          guarded (prev h lh = None \<and> nxt h lt = None)
            (case link (tail q) lh h of None \<Rightarrow> None | Some h' \<Rightarrow>
              Some (h', q\<lparr>count := count q + SList_size l, tail := lt\<rparr>))
      | _ \<Rightarrow> None))"

text \<open>The loops of \<open>pop_front\<close> and \<open>pop_back\<close>: at most \<open>k\<close> further elements; the result is
  the address reached and how many elements were taken.\<close>

fun walk_next :: "nat \<Rightarrow> addr \<Rightarrow> nat \<Rightarrow> hook_heap \<Rightarrow> addr \<times> nat" where
  "walk_next 0 l c h = (l, c)"
| "walk_next (Suc k) l c h = (case nxt h l of None \<Rightarrow> (l, c) | Some r \<Rightarrow> walk_next k r (Suc c) h)"

fun walk_prev :: "nat \<Rightarrow> addr \<Rightarrow> addr \<Rightarrow> nat \<Rightarrow> hook_heap \<Rightarrow> (addr \<times> nat) option" where
  "walk_prev 0 hdp f c h = Some (f, c)"
| "walk_prev (Suc k) hdp f c h =
     (if prev h f = Some hdp then Some (f, c)
      else case prev h f of None \<Rightarrow> None | Some r \<Rightarrow> walk_prev k hdp r (Suc c) h)"

definition TSQueue_pop_front :: "u32 \<Rightarrow> hook_heap \<times> ts_queue \<Rightarrow> (slist \<times> hook_heap \<times> ts_queue) option" where
  "TSQueue_pop_front n = (\<lambda>(h, q).
     if head q = tail q then Some (stealed, h, q)
     else (case nxt h (head q) of None \<Rightarrow> None | Some first \<Rightarrow>
       (let (last, c) = walk_next (unat n - 1) first 1 h;
            q1 = (if last = tail q then q\<lparr>tail := head q\<rparr> else q);
            h1 = set_next (head q) (nxt h last) h;
            h2 = (case nxt h1 last of None \<Rightarrow> h1 | Some r \<Rightarrow> set_prev r (Some (head q)) h1);
            h3 = set_next last None (set_prev first None h2)
        in Some (\<lparr>shead = Some first, stail = Some last, scount = of_nat c\<rparr>, h3, q1\<lparr>count := count q1 - of_nat c\<rparr>))))"

definition TSQueue_pop_back :: "u32 \<Rightarrow> hook_heap \<times> ts_queue \<Rightarrow> (slist \<times> hook_heap \<times> ts_queue) option" where
  "TSQueue_pop_back n = (\<lambda>(h, q).
     if head q = tail q then Some (stealed, h, q)
     else (case walk_prev (unat n - 1) (head q) (tail q) 1 h of None \<Rightarrow> None | Some (first, c) \<Rightarrow>
       (case prev h first of None \<Rightarrow> None | Some t \<Rightarrow>
         Some (\<lparr>shead = Some first, stail = Some (tail q), scount = of_nat c\<rparr>,
               set_next t None (set_prev first None h),
               q\<lparr>tail := t, count := count q - of_nat c\<rparr>))))"

definition TSQueue_pop_all :: "hook_heap \<times> ts_queue \<Rightarrow> (slist \<times> hook_heap \<times> ts_queue) option" where
  "TSQueue_pop_all = (\<lambda>(h, q).
     if head q = tail q then Some (stealed, h, q)
     else (case nxt h (head q) of None \<Rightarrow> None | Some first \<Rightarrow>
       Some (\<lparr>shead = Some first, stail = Some (tail q), scount = count q\<rparr>,
             set_next (tail q) None (set_prev first None (set_next (head q) None h)),
             q\<lparr>tail := head q, count := 0\<rparr>)))"

definition TSQueue_erase :: "addr \<Rightarrow> bool \<Rightarrow> bool \<Rightarrow> hook_heap \<times> ts_queue \<Rightarrow> (bool \<times> hook_heap \<times> ts_queue) option" where
  "TSQueue_erase p chk refCount = (\<lambda>(h, q).
     if chk \<and> check h p \<noteq> qcheck q then Some (False, h, q)
     else guarded (prev h p \<noteq> None \<and> (p = tail q \<or> nxt h p \<noteq> None) \<and> 0 < count q)
       (let h1 = (case prev h p of None \<Rightarrow> h | Some a \<Rightarrow> set_next a (nxt h p) h);
            (h2, q2) = (case nxt h1 p of
               Some b \<Rightarrow> (set_prev b (prev h1 p) h1, q)
             | None \<Rightarrow> (h1, if p = tail q then (case prev h1 (tail q) of None \<Rightarrow> q | Some t \<Rightarrow> q\<lparr>tail := t\<rparr>) else q));
            h3 = set_check p None (set_next p None (set_prev p None h2))
        in Some (True, if refCount then snd (DecrementRef p h3) else h3, q2\<lparr>count := count q2 - 1\<rparr>)))"

text \<open>The destructor walks from the tail to the dummy and releases every element.\<close>

fun TSQueue_destroy_loop :: "nat \<Rightarrow> addr \<Rightarrow> addr \<Rightarrow> hook_heap \<Rightarrow> hook_heap option" where
  "TSQueue_destroy_loop 0 hdp t h = None"
| "TSQueue_destroy_loop (Suc f) hdp t h =
     (if hdp = t then Some h
      else case prev h t of None \<Rightarrow> None | Some p \<Rightarrow> TSQueue_destroy_loop f hdp p (snd (DecrementRef t h)))"

subsection \<open>Doubly linked segments\<close>

text \<open>
  \<open>dseg N P a xs e\<close>: starting at \<open>a\<close> the next pointers run through \<open>xs\<close> and end at \<open>e\<close>, and
  the previous pointers of \<open>xs\<close> run back to \<open>a\<close>.
\<close>

fun dseg :: "(addr \<Rightarrow> ptr) \<Rightarrow> (addr \<Rightarrow> ptr) \<Rightarrow> addr \<Rightarrow> addr list \<Rightarrow> ptr \<Rightarrow> bool" where
  "dseg N P a [] e = (N a = e)"
| "dseg N P a (x # xs) e = (N a = Some x \<and> P x = Some a \<and> dseg N P x xs e)"

lemma dseg_append:
  "dseg N P a (xs @ y # ys) e \<longleftrightarrow>
     dseg N P a xs (Some y) \<and> P y = Some (last (a # xs)) \<and> dseg N P y ys e"
  by (induction xs arbitrary: a) auto

lemma dseg_last: "dseg N P a xs e \<Longrightarrow> N (last (a # xs)) = e"
  by (induction xs arbitrary: a) auto

lemma dseg_prev_last: "dseg N P a (xs @ [y]) e \<Longrightarrow> P y = Some (last (a # xs))"
  by (simp add: dseg_append)

lemma dseg_prev_set: "dseg N P a xs e \<Longrightarrow> x \<in> set xs \<Longrightarrow> P x \<noteq> None"
  by (induction xs arbitrary: a) auto

lemma dseg_upd_next [simp]: "p \<notin> set (a # xs) \<Longrightarrow> dseg (N(p := v)) P a xs e = dseg N P a xs e"
  by (induction xs arbitrary: a) auto

lemma dseg_upd_prev [simp]: "p \<notin> set xs \<Longrightarrow> dseg N (P(p := v)) a xs e = dseg N P a xs e"
  by (induction xs arbitrary: a) auto

lemma dseg_upd_last:
  "distinct (a # xs) \<Longrightarrow> dseg N P a xs e \<Longrightarrow> p = last (a # xs) \<Longrightarrow> dseg (N(p := e')) P a xs e'"
proof (induction xs arbitrary: a)
  case Nil
  then show ?case by simp
next
  case (Cons x xs)
  then have "p \<noteq> a" by auto
  with Cons show ?case by simp
qed

text \<open>The element after \<open>p\<close> on the heap is the element after \<open>p\<close> in the list.\<close>

lemma dseg_next_in:
  "dseg N P a xs None \<Longrightarrow> distinct (a # xs) \<Longrightarrow> p \<in> set xs \<Longrightarrow> N p = next_in xs p"
proof -
  assume d: "dseg N P a xs None" and di: "distinct (a # xs)" and "p \<in> set xs"
  then obtain us vs where xs: "xs = us @ p # vs" by (meson split_list)
  with di have "p \<notin> set us" by auto
  with d xs show ?thesis by (cases vs) (auto simp: dseg_append next_in_append)
qed

subsection \<open>Representation\<close>

definition tsq :: "hook_heap \<times> ts_queue \<Rightarrow> addr list \<Rightarrow> bool" where
  "tsq = (\<lambda>(h, q) xs.
     distinct (head q # xs) \<and> prev h (head q) = None \<and>
     dseg (nxt h) (prev h) (head q) xs None \<and>
     tail q = last (head q # xs) \<and> count q = of_nat (length xs))"

definition slist_rep :: "hook_heap \<times> slist \<Rightarrow> addr list \<Rightarrow> bool" where
  "slist_rep = (\<lambda>(h, l) xs.
     distinct xs \<and> scount l = of_nat (length xs) \<and>
     (case xs of
        [] \<Rightarrow> shead l = None \<and> stail l = None
      | x # ys \<Rightarrow> shead l = Some x \<and> stail l = Some (last xs) \<and> prev h x = None \<and>
                  dseg (nxt h) (prev h) x ys None))"

definition unlinked :: "hook_heap \<Rightarrow> addr \<Rightarrow> bool" where
  "unlinked h p \<longleftrightarrow> nxt h p = None \<and> prev h p = None"

lemmas rep_defs = tsq_def slist_rep_def unlinked_def

lemma slist_rep_stealed [simp]: "slist_rep (h, stealed) []"
  by (simp add: slist_rep_def stealed_def)

lemma slist_rep_Nil: "slist_rep (h, l) [] \<longleftrightarrow> l = stealed"
  by (auto simp: slist_rep_def stealed_def)

lemma slist_rep_Cons:
  "slist_rep (h, l) (x # xs) \<longleftrightarrow> distinct (x # xs) \<and> prev h x = None \<and> dseg (nxt h) (prev h) x xs None \<and>
     l = \<lparr>shead = Some x, stail = Some (last (x # xs)), scount = of_nat (Suc (length xs))\<rparr>"
  by (cases l) (auto simp: slist_rep_def)

lemma slist_rep_count: "slist_rep (h, l) xs \<Longrightarrow> length xs < 2 ^ 64 \<Longrightarrow> unat (scount l) = length xs"
  by (simp add: slist_rep_def unat_of_nat_u64)

lemma tsq_empty_iff: "tsq (h, q) xs \<Longrightarrow> head q = tail q \<longleftrightarrow> xs = []"
  by (auto simp: tsq_def last_in_set dest: last_in_set split: if_splits)

lemma tsq_unlinked_notin: "tsq (h, q) xs \<Longrightarrow> unlinked h p \<Longrightarrow> p \<notin> set xs"
  by (auto simp: rep_defs dest: dseg_prev_set)

lemma tsq_count: "tsq (h, q) xs \<Longrightarrow> length xs < 2 ^ 64 \<Longrightarrow> unat (count q) = length xs"
  by (simp add: tsq_def unat_of_nat_u64)

lemma tsq_next: "tsq (h, q) (x # xs) \<Longrightarrow> nxt h (head q) = Some x"
  by (simp add: tsq_def)

subsection \<open>Operations on the queue\<close>

lemma tsq_new: "tsq (TSQueue_new d this h) []"
  by (simp add: TSQueue_new_def tsq_def co_heap)

lemma push_rep:
  assumes "tsq (h, q) xs" and "unlinked h e" and "e \<noteq> head q"
  shows "\<exists>h' q'. TSQueue_push e r (h, q) = Some (of_nat (Suc (length xs)), h', q') \<and> tsq (h', q') (xs @ [e])
     \<and> head q' = head q \<and> check h' e = qcheck q' \<and> qcheck q' = qcheck q"
proof -
  have e: "e \<notin> set xs" using tsq_unlinked_notin [OF assms(1,2)] .
  have t: "tail q = last (head q # xs)" and d: "dseg (nxt h) (prev h) (head q) xs None"
    and di: "distinct (head q # xs)" using assms(1) by (auto simp: tsq_def)
  have nt: "nxt h (tail q) = None" using dseg_last [OF d] t by simp
  have te: "tail q \<noteq> e" using t e assms(3) last_in_set [of "head q # xs"] by auto
  have "dseg ((nxt h)(tail q := Some e)) (prev h) (head q) xs (Some e)"
    using dseg_upd_last [OF di d] t by simp
  then show ?thesis
    using assms e t te nt di
    by (cases r) (auto simp: TSQueue_push_def link_def co_heap tsq_def unlinked_def dseg_append Let_def add.commute)
qed

lemma pop_nil: "tsq (h, q) [] \<Longrightarrow> TSQueue_pop (h, q) = Some (None, h, q)"
  by (auto simp: tsq_def TSQueue_pop_def)

lemma pop_rep:
  assumes "tsq (h, q) (x # xs)"
  shows "\<exists>h' q'. TSQueue_pop (h, q) = Some (Some x, h', q') \<and> tsq (h', q') xs \<and> unlinked h' x \<and> head q' = head q"
proof (cases xs)
  case Nil
  with assms show ?thesis
    by (auto simp: TSQueue_pop_def Let_def co_heap rep_defs)
next
  case (Cons y ys)
  have "last (y # ys) \<noteq> x" using assms Cons last_in_set [of "y # ys"] by (auto simp: tsq_def)
  moreover have "head q \<noteq> tail q" using tsq_empty_iff [OF assms] by simp
  ultimately show ?thesis using assms Cons
    by (auto simp: TSQueue_pop_def Let_def co_heap rep_defs)
qed

lemma pop_all_nil: "tsq (h, q) [] \<Longrightarrow> TSQueue_pop_all (h, q) = Some (stealed, h, q)"
  by (auto simp: tsq_def TSQueue_pop_all_def)

lemma pop_all_rep:
  assumes "tsq (h, q) (x # xs)"
  shows "\<exists>l h' q'. TSQueue_pop_all (h, q) = Some (l, h', q') \<and> slist_rep (h', l) (x # xs) \<and>
    tsq (h', q') [] \<and> head q' = head q"
proof -
  have d: "dseg (nxt h) (prev h) x xs None" and di: "distinct (x # xs)"
    and hd: "head q \<notin> set (x # xs)" and t: "tail q = last (x # xs)"
    using assms by (auto simp: tsq_def)
  have "dseg ((nxt h)(tail q := None)) (prev h) x xs None"
    using dseg_upd_last [OF di d t] .
  then have "dseg ((nxt h)(head q := None, tail q := None)) ((prev h)(x := None)) x xs None"
    using hd di t last_in_set [of "x # xs"] by (subst fun_upd_twist) auto
  then show ?thesis using assms hd di t tsq_empty_iff [OF assms] last_in_set [of "x # xs"]
    by (auto simp: TSQueue_pop_all_def co_heap tsq_def slist_rep_Cons)
qed

lemma front_rep:
  assumes "tsq (h, q) xs"
  shows "\<exists>h'. TSQueue_front (h, q) = ((case xs of [] \<Rightarrow> None | x # _ \<Rightarrow> Some x), h', q) \<and> tsq (h', q) xs"
  using assms by (cases xs) (auto simp: TSQueue_front_def tsq_def co_heap)

lemma next_rep:
  assumes "tsq (h, q) xs" and "p \<in> set xs"
  shows "\<exists>h'. TSQueue_next p (h, q) = (next_in xs p, h', q) \<and> tsq (h', q) xs"
proof -
  have "nxt h p = next_in xs p" using assms dseg_next_in [of "nxt h" "prev h" "head q" xs p] by (auto simp: tsq_def)
  then show ?thesis using assms(1) by (auto simp: TSQueue_next_def tsq_def co_heap split: option.splits)
qed

lemma push_list_rep:
  assumes "tsq (h, q) xs" and "slist_rep (h, l) ys" and "set ys \<inter> set (head q # xs) = {}"
  shows "\<exists>h' q'. TSQueue_push_list l (h, q) = Some (h', q') \<and> tsq (h', q') (xs @ ys) \<and> head q' = head q"
proof (cases ys)
  case Nil
  with assms show ?thesis by (auto simp: TSQueue_push_list_def slist_rep_Nil SList_empty_def stealed_def)
next
  case (Cons y zs)
  have t: "tail q = last (head q # xs)" and d: "dseg (nxt h) (prev h) (head q) xs None"
    and di: "distinct (head q # xs)" using assms(1) by (auto simp: tsq_def)
  have l: "prev h y = None" "dseg (nxt h) (prev h) y zs None" "distinct (y # zs)"
    and leq: "l = \<lparr>shead = Some y, stail = Some (last (y # zs)), scount = of_nat (Suc (length zs))\<rparr>"
    using assms(2) Cons by (auto simp: slist_rep_Cons)
  have nl: "nxt h (last (y # zs)) = None" using dseg_last [OF l(2)] by simp
  have nt: "nxt h (tail q) = None" using dseg_last [OF d] t by simp
  have tn: "tail q \<notin> set (y # zs)" using t assms(3) Cons last_in_set [of "head q # xs"] by auto
  have "dseg ((nxt h)(tail q := Some y)) (prev h) (head q) xs (Some y)"
    using dseg_upd_last [OF di d] t by simp
  moreover have "y \<notin> set xs" using assms(3) Cons by auto
  ultimately have "dseg ((nxt h)(tail q := Some y)) ((prev h)(y := Some (tail q))) (head q) (xs @ y # zs) None"
    using l tn t by (simp add: dseg_append)
  then show ?thesis using assms Cons leq l nl nt t di
    by (auto simp: TSQueue_push_list_def SList_empty_def SList_size_def link_def co_heap tsq_def algebra_simps)
qed

lemma erase_rep:
  assumes "tsq (h, q) xs" and "p \<in> set xs" and "length xs < 2 ^ 64"
    and "chk \<longrightarrow> check h p = qcheck q"
  shows "\<exists>h' q'. TSQueue_erase p chk r (h, q) = Some (True, h', q') \<and> tsq (h', q') (remove1 p xs) \<and>
    unlinked h' p \<and> head q' = head q"
proof -
  obtain us vs where xs: "xs = us @ p # vs" using assms(2) by (meson split_list)
  have di: "distinct (head q # us @ p # vs)" and d: "dseg (nxt h) (prev h) (head q) (us @ p # vs) None"
    using assms(1) xs by (auto simp: tsq_def)
  have rm: "remove1 p xs = us @ vs" using di xs by (simp add: remove1_append_notin)
  have pp: "prev h p = Some (last (head q # us))" using d by (simp add: dseg_append)
  have c: "0 < count q" using tsq_count [OF assms(1,3)] xs by (auto simp: word_gt_0)
  have up: "dseg ((nxt h)(last (head q # us) := nxt h p)) (prev h) (head q) us (nxt h p)"
    using dseg_upd_last [of "head q" us "nxt h" "prev h" "Some p"] di d by (auto simp: dseg_append)
  have lp: "last (head q # us) \<noteq> p" using di last_in_set [of "head q # us"] by auto
  have ln: "last (head q # us) \<notin> set vs" using di last_in_set [of "head q # us"] by auto
  show ?thesis
  proof (cases vs)
    case Nil
    then show ?thesis using assms xs di d pp c up lp rm
      by (cases r) (auto simp: TSQueue_erase_def Let_def co_heap rep_defs dseg_append)
  next
    case (Cons v ws)
    then show ?thesis using assms xs di d pp c up lp ln rm last_in_set [of "v # ws"]
      by (cases r) (auto simp: TSQueue_erase_def Let_def co_heap rep_defs dseg_append)
  qed
qed

lemma walk_next_eq:
  "dseg (nxt h) (prev h) a xs None \<Longrightarrow>
     walk_next k a c h = (last (a # take k xs), c + length (take k xs))"
  by (induction k a c h arbitrary: xs rule: walk_next.induct) (case_tac xs; auto)+

lemma walk_prev_eq:
  "dseg (nxt h) (prev h) d (us @ [f]) e \<Longrightarrow> distinct (d # us @ [f]) \<Longrightarrow>
     walk_prev k d f c h = Some (hd (drop (length us - k) (us @ [f])), c + min k (length us))"
proof (induction k arbitrary: us e f c)
  case 0
  then show ?case by simp
next
  case (Suc k)
  have p: "prev h f = Some (last (d # us))" and ds: "dseg (nxt h) (prev h) d us (Some f)"
    using Suc.prems(1) by (auto simp: dseg_append)
  show ?case
  proof (cases us rule: rev_cases)
    case Nil
    with p show ?thesis by simp
  next
    case (snoc ws g)
    have "walk_prev k d g (Suc c) h = Some (hd (drop (length ws - k) (ws @ [g])), Suc c + min k (length ws))"
      using Suc.IH [of ws g "Some f" "Suc c"] ds Suc.prems(2) snoc by simp
    moreover have "g \<noteq> d" using Suc.prems(2) snoc by auto
    moreover have "hd (drop (length us - Suc k) (us @ [f])) = hd (drop (length ws - k) (ws @ [g]))"
      using snoc by (simp add: hd_append)
    ultimately show ?thesis using p snoc by simp
  qed
qed

lemma pop_front_split:
  fixes n :: u32
  assumes "tsq (h, q) (x # ys @ zs)" and "take (unat n - 1) (ys @ zs) = ys"
  shows "\<exists>l h' q'. TSQueue_pop_front n (h, q) = Some (l, h', q') \<and> slist_rep (h', l) (x # ys) \<and>
    tsq (h', q') zs \<and> head q' = head q"
proof -
  have d: "dseg (nxt h) (prev h) x (ys @ zs) None" and di: "distinct (head q # x # ys @ zs)"
    and hx: "nxt h (head q) = Some x" and t: "tail q = last (x # ys @ zs)" and hp: "prev h (head q) = None"
    and c: "count q = of_nat (Suc (length ys + length zs))"
    using assms(1) by (auto simp: tsq_def)
  have w: "walk_next (unat n - 1) x (Suc 0) h = (last (x # ys), Suc (length ys))"
    using walk_next_eq [OF d, of "unat n - 1" "Suc 0"] unfolding assms(2) by simp
  have ne: "head q \<noteq> tail q" using tsq_empty_iff [OF assms(1)] by simp
  have l1: "last (x # ys) \<notin> set zs" "last (x # ys) \<noteq> head q"
    using di last_in_set [of "x # ys"] by auto
  show ?thesis
  proof (cases zs)
    case Nil
    have "dseg ((nxt h)(head q := None, last (x # ys) := None)) (prev h) x ys None"
      using dseg_upd_last [of x ys "(nxt h)(head q := None)" "prev h" None] di d Nil by simp
    then show ?thesis
      using di hx hp t c w ne l1 Nil dseg_last [OF d]
      by (auto simp: TSQueue_pop_front_def co_heap tsq_def slist_rep_Cons)
  next
    case (Cons z vs)
    have up: "dseg ((nxt h)(head q := Some z, last (x # ys) := None)) (prev h) x ys None"
      using dseg_upd_last [of x ys "(nxt h)(head q := Some z)" "prev h" "Some z"] di d Cons
      by (auto simp: dseg_append)
    have nz: "nxt h (last (x # ys)) = Some z" using dseg_last [of "nxt h" "prev h" x ys "Some z"] d Cons
      by (simp add: dseg_append)
    have "last (x # ys) \<noteq> tail q" using l1 t Cons last_in_set [of "z # vs"] by auto
    then show ?thesis
      using di hx hp t c w ne l1 Cons up nz d
      by (auto simp: TSQueue_pop_front_def co_heap tsq_def slist_rep_Cons dseg_append)
  qed
qed

lemma pop_front_rep:
  fixes n :: u32
  assumes "tsq (h, q) (x # xs)"
  shows "\<exists>l h' q'. TSQueue_pop_front n (h, q) = Some (l, h', q') \<and>
    slist_rep (h', l) (take (max 1 (unat n)) (x # xs)) \<and>
    tsq (h', q') (drop (max 1 (unat n)) (x # xs)) \<and> head q' = head q"
proof -
  have "max 1 (unat n) = Suc (unat n - 1)" by simp
  then show ?thesis
    using pop_front_split [of h q x "take (unat n - 1) xs" "drop (unat n - 1) xs" n] assms by auto
qed

lemma pop_back_split:
  fixes n :: u32
  assumes "tsq (h, q) (us @ x # vs)" and "us = [] \<longrightarrow> length (x # vs) \<le> max 1 (unat n)"
    and "us \<noteq> [] \<longrightarrow> length (x # vs) = max 1 (unat n)"
  shows "\<exists>l h' q'. TSQueue_pop_back n (h, q) = Some (l, h', q') \<and> slist_rep (h', l) (x # vs) \<and>
    tsq (h', q') us \<and> head q' = head q"
proof -
  have d: "dseg (nxt h) (prev h) (head q) (us @ x # vs) None" and di: "distinct (head q # us @ x # vs)"
    and t: "tail q = last (x # vs)" and hp: "prev h (head q) = None"
    and c: "count q = of_nat (length us + Suc (length vs))"
    using assms(1) by (auto simp: tsq_def)
  obtain ws f where wf: "x # vs = ws @ [f]" using rev_exhaust [of "x # vs"] by blast
  have tf: "tail q = f" using t wf by (metis last_snoc)
  have len: "length ws = length vs" using arg_cong [OF wf, of length] by simp
  have e: "us @ x # vs = (us @ ws) @ [f]" unfolding wf by simp
  have hx: "hd (drop (length us) ((us @ ws) @ [f])) = x" unfolding e [symmetric] by simp
  have d': "dseg (nxt h) (prev h) (head q) ((us @ ws) @ [f]) None" using d unfolding e .
  have di': "distinct (head q # (us @ ws) @ [f])" using di unfolding e .
  have ix: "length (us @ ws) - (unat n - 1) = length us"
    and mn: "min (unat n - 1) (length (us @ ws)) = length vs"
    using assms(2,3) len by (cases "us = []"; simp add: max_def split: if_splits)+
  have w: "walk_prev (unat n - 1) (head q) (tail q) (Suc 0) h = Some (x, Suc (length vs))"
    using walk_prev_eq [OF d' di', of "unat n - 1" "Suc 0"] unfolding ix mn hx tf by simp
  have px: "prev h x = Some (last (head q # us))" using d by (simp add: dseg_append)
  have ne: "head q \<noteq> tail q" using tsq_empty_iff [OF assms(1)] by simp
  have l1: "last (head q # us) \<notin> set (x # vs)" using di last_in_set [of "head q # us"] by auto
  have "dseg ((nxt h)(last (head q # us) := None)) (prev h) (head q) us None"
    using dseg_upd_last [of "head q" us "nxt h" "prev h" "Some x"] di d by (auto simp: dseg_append)
  then show ?thesis using w px ne l1 d di t hp c
    by (auto simp: TSQueue_pop_back_def co_heap tsq_def slist_rep_Cons dseg_append)
qed

lemma pop_back_rep:
  fixes n :: u32
  assumes "tsq (h, q) xs" and "xs \<noteq> []"
  defines "k \<equiv> length xs - max 1 (unat n)"
  shows "\<exists>l h' q'. TSQueue_pop_back n (h, q) = Some (l, h', q') \<and> slist_rep (h', l) (drop k xs) \<and>
    tsq (h', q') (take k xs) \<and> head q' = head q"
proof -
  have "k < length xs" using assms(2) unfolding k_def by simp
  then obtain x vs where xv: "drop k xs = x # vs" by (metis Cons_nth_drop_Suc)
  then have xs: "xs = take k xs @ x # vs" by (metis append_take_drop_id)
  have lv: "length (x # vs) = length xs - k" using xv by (metis length_drop)
  show ?thesis unfolding xv
    by (rule pop_back_split) (use assms(1) xs lv \<open>k < length xs\<close> in \<open>auto simp: k_def simp del: length_Cons\<close>)
qed

subsection \<open>Operations on lists of hooks\<close>

lemma dseg_advance:
  "dseg (nxt h) (prev h) a xs e \<Longrightarrow> k \<le> length xs \<Longrightarrow> advance k a h = Some (last (a # take k xs))"
  by (induction k arbitrary: a xs) (auto simp: Suc_le_length_iff)

lemma SList_erase_rep:
  assumes "slist_rep (h, l) xs" and "p \<in> set xs"
  shows "\<exists>h' l'. SList_erase p (h, l) = Some (h', l') \<and> slist_rep (h', l') (remove1 p xs) \<and> unlinked h' p
    \<and> (\<forall>q. q \<notin> set xs \<longrightarrow> nxt h' q = nxt h q \<and> prev h' q = prev h q)"
proof -
  obtain us vs where xs: "xs = us @ p # vs" using assms(2) by (meson split_list)
  show ?thesis
  proof (cases us)
    case Nil
    with assms xs show ?thesis
      by (cases vs) (auto simp: SList_erase_def slist_rep_Cons slist_rep_Nil stealed_def co_heap unlinked_def)
  next
    case (Cons u ws)
    have di: "distinct (u # ws @ p # vs)" and d: "dseg (nxt h) (prev h) u (ws @ p # vs) None"
      using assms(1) xs Cons by (auto simp: slist_rep_Cons)
    have rm: "remove1 p xs = u # ws @ vs" using di xs Cons by (auto simp: remove1_append)
    have pp: "prev h p = Some (last (u # ws))" using d by (simp add: dseg_append)
    have up: "dseg ((nxt h)(last (u # ws) := nxt h p)) (prev h) u ws (nxt h p)"
      using dseg_upd_last [of u ws "nxt h" "prev h" "Some p"] di d by (auto simp: dseg_append)
    have lp: "last (u # ws) \<notin> set (p # vs)" using di last_in_set [of "u # ws"] by auto
    have lu: "last (u # ws) \<in> set xs" using xs Cons last_in_set [of "u # ws"] by auto
    show ?thesis
    proof (cases vs)
      case Nil
      then show ?thesis using assms xs Cons di d pp up lp rm lu
        by (auto simp: SList_erase_def slist_rep_Cons unlinked_def co_heap dseg_append)
    next
      case (Cons v ts)
      then show ?thesis using assms xs \<open>us = u # ws\<close> di d pp up lp rm lu
        by (auto simp: SList_erase_def slist_rep_Cons unlinked_def co_heap dseg_append)
    qed
  qed
qed

lemma SList_append_rep:
  assumes "slist_rep (h, l) xs" and "slist_rep (h, l2) ys" and "set xs \<inter> set ys = {}"
  shows "\<exists>h' l'. SList_append (h, l) l2 = Some (h', l') \<and> slist_rep (h', l') (xs @ ys)"
proof (cases xs)
  case Nil
  with assms show ?thesis
    by (cases ys) (auto simp: SList_append_def SList_empty_def slist_rep_Nil slist_rep_Cons stealed_def)
next
  case (Cons x us)
  note xs = this
  show ?thesis
  proof (cases ys)
    case Nil
    with assms show ?thesis by (auto simp: SList_append_def SList_empty_def slist_rep_Nil stealed_def)
  next
    case (Cons y vs)
    have d: "dseg (nxt h) (prev h) x us None" "distinct (x # us)" using assms(1) xs by (auto simp: slist_rep_Cons)
    have nt: "nxt h (last (x # us)) = None" using dseg_last [OF d(1)] .
    have up: "dseg ((nxt h)(last (x # us) := Some y)) (prev h) x us (Some y)"
      using dseg_upd_last [OF d(2,1)] by simp
    have ln: "last (x # us) \<notin> set (y # vs)" using assms(3) xs Cons last_in_set [of "x # us"] by auto
    show ?thesis using assms xs Cons nt up ln
      by (auto simp: SList_append_def SList_empty_def slist_rep_Cons link_def co_heap dseg_append algebra_simps)
  qed
qed

lemma SList_cut_split:
  assumes "slist_rep (h, l) (x # us @ v # vs)" and "unat n = Suc (length us)"
    and "length (x # us @ v # vs) < 2 ^ 64"
  shows "\<exists>h' l1 l2. SList_cut n (h, l) = Some (h', l1, l2) \<and> slist_rep (h', l1) (x # us) \<and> slist_rep (h', l2) (v # vs)"
proof -
  have d: "dseg (nxt h) (prev h) x (us @ v # vs) None" and di: "distinct (x # us @ v # vs)" and px: "prev h x = None"
    and l: "l = \<lparr>shead = Some x, stail = Some (last (v # vs)), scount = of_nat (Suc (Suc (length us + length vs)))\<rparr>"
    using assms(1) by (auto simp: slist_rep_Cons)
  have n: "n = of_nat (Suc (length us))" using arg_cong [OF assms(2), of "of_nat :: nat \<Rightarrow> u64"] by simp
  have lt: "\<not> scount l \<le> n" and n0: "n \<noteq> 0" using slist_rep_count [OF assms(1,3)] assms(2) by (auto simp: word_le_nat_alt)
  have ad: "advance (unat n - 1) x h = Some (last (x # us))"
    using dseg_advance [OF d, of "unat n - 1"] assms(2) by simp
  have up: "dseg ((nxt h)(last (x # us) := None)) (prev h) x us None"
    using dseg_upd_last [of x us "nxt h" "prev h" "Some v"] di d by (auto simp: dseg_append)
  have nx: "nxt h (last (x # us)) = Some v" using dseg_last [of "nxt h" "prev h" x us "Some v"] d by (simp add: dseg_append)
  have ln: "last (x # us) \<notin> set (v # vs)" using di last_in_set [of "x # us"] by auto
  have sub: "scount l - n = of_nat (Suc (length vs))" using l n by simp
  show ?thesis using lt n0 ad up nx ln sub d di px l n
    by (auto simp: SList_cut_def SList_empty_def SList_size_def unlink_def co_heap dseg_append slist_rep_Cons)
qed

lemma SList_cut_rep:
  assumes "slist_rep (h, l) xs" and "length xs < 2 ^ 64"
  shows "\<exists>h' l1 l2. SList_cut n (h, l) = Some (h', l1, l2) \<and>
    slist_rep (h', l1) (take (unat n) xs) \<and> slist_rep (h', l2) (drop (unat n) xs)"
proof (cases "length xs \<le> unat n")
  case True
  have le: "scount l \<le> n" using slist_rep_count [OF assms] True by (simp add: word_le_nat_alt)
  show ?thesis
  proof (cases xs)
    case Nil
    with assms show ?thesis by (auto simp: SList_cut_def SList_empty_def slist_rep_Nil stealed_def)
  next
    case (Cons x ys)
    with assms True le show ?thesis
      by (auto simp: SList_cut_def SList_empty_def SList_size_def slist_rep_Cons slist_rep_Nil)
  qed
next
  case False
  then obtain x ys where xs: "xs = x # ys" by (cases xs) auto
  show ?thesis
  proof (cases "unat n")
    case 0
    then have n0: "n = 0" by (simp add: unat_eq_zero)
    have "scount l \<noteq> 0" using slist_rep_count [OF assms] xs by auto
    then show ?thesis
      using assms xs 0 by (auto simp: n0 SList_cut_def SList_empty_def SList_size_def slist_rep_Cons slist_rep_Nil)
  next
    case (Suc k)
    then have k: "k < length ys" using False xs by simp
    then have ys: "take k ys @ ys ! k # drop (Suc k) ys = ys" by (simp add: id_take_nth_drop [symmetric])
    have dr: "drop k ys = ys ! k # drop (Suc k) ys" using k by (simp add: Cons_nth_drop_Suc)
    show ?thesis using SList_cut_split [of h l x "take k ys" "ys ! k" "drop (Suc k) ys" n] assms xs Suc k
      unfolding ys by (simp add: dr)
  qed
qed

lemma SList_clear_loop_rep:
  "slist_rep (h, l) xs \<Longrightarrow> fuel > length xs \<Longrightarrow>
     \<exists>h'. SList_clear_loop fuel (iter_reset h (shead l)) (h, l) = Some (h', stealed) \<and> (\<forall>x \<in> set xs. unlinked h' x)
     \<and> (\<forall>q. q \<notin> set xs \<longrightarrow> nxt h' q = nxt h q \<and> prev h' q = prev h q)"
proof (induction xs arbitrary: h l fuel)
  case Nil
  then show ?case by (cases fuel) (auto simp: slist_rep_Nil stealed_def iter_reset_def)
next
  case (Cons x xs)
  obtain f where f: "fuel = Suc f" "length xs < f" using Cons.prems(2) by (cases fuel) auto
  have x: "x \<notin> set xs" and hx: "shead l = Some x" using Cons.prems(1) by (auto simp: slist_rep_Cons)
  obtain h1 l1 where e: "SList_erase x (h, l) = Some (h1, l1)" "slist_rep (h1, l1) xs" "unlinked h1 x"
      "\<forall>q. q \<notin> set (x # xs) \<longrightarrow> nxt h1 q = nxt h q \<and> prev h1 q = prev h q"
    using SList_erase_rep [OF Cons.prems(1), of x] by auto
  have it: "iter_reset h (nxt h x) = iter_reset h1 (shead l1)"
    using Cons.prems(1) e(1,2)
    by (cases xs) (auto simp: iter_reset_def SList_erase_def slist_rep_Cons slist_rep_Nil stealed_def co_heap)
  obtain h' where "SList_clear_loop f (iter_reset h1 (shead l1)) (h1, l1) = Some (h', stealed)"
    "\<forall>x \<in> set xs. unlinked h' x" "\<forall>q. q \<notin> set xs \<longrightarrow> nxt h' q = nxt h1 q \<and> prev h' q = prev h1 q"
    using Cons.IH [OF e(2) f(2)] by blast
  then show ?case using f(1) hx e(1,3,4) it x by (auto simp: iter_reset_def [of h "Some x"] Let_def unlinked_def)
qed

lemma SList_clear_rep:
  "slist_rep (h, l) xs \<Longrightarrow> fuel > length xs \<Longrightarrow>
     \<exists>h'. SList_clear fuel (h, l) = Some (h', stealed) \<and> (\<forall>x \<in> set xs. unlinked h' x)"
  using SList_clear_loop_rep [of h l xs fuel] by (auto simp: SList_clear_def)

text \<open>The destructor of the queue gives back one reference of every element, last to first.\<close>

lemma destroy_loop_eq:
  "dseg (nxt h) (prev h) d xs e \<Longrightarrow> distinct (d # xs) \<Longrightarrow> fuel > length xs \<Longrightarrow>
     TSQueue_destroy_loop fuel d (last (d # xs)) h = Some (fold (\<lambda>t h. snd (DecrementRef t h)) (rev xs) h)"
proof (induction xs arbitrary: h e fuel rule: rev_induct)
  case Nil
  then show ?case by (cases fuel) auto
next
  case (snoc y ys)
  obtain f where f: "fuel = Suc f" "length ys < f" using snoc.prems(3) by (cases fuel) auto
  have p: "prev h y = Some (last (d # ys))" "dseg (nxt h) (prev h) d ys (Some y)"
    using snoc.prems(1) by (auto simp: dseg_append)
  show ?case using snoc.IH [of "snd (DecrementRef y h)" "Some y" f] snoc.prems(2) p f by auto
qed

subsection \<open>The queue is a first-in first-out container\<close>

definition tsq_ok :: "hook_heap \<times> ts_queue \<Rightarrow> addr \<Rightarrow> bool" where
  "tsq_ok = (\<lambda>(h, q) a. unlinked h a \<and> a \<noteq> head q)"

definition tsq_enq :: "addr \<Rightarrow> hook_heap \<times> ts_queue \<Rightarrow> (hook_heap \<times> ts_queue) option" where
  "tsq_enq a s = map_option snd (TSQueue_push a True s)"

definition tsq_deq :: "hook_heap \<times> ts_queue \<Rightarrow> (addr \<times> hook_heap \<times> ts_queue) option" where
  "tsq_deq s = (case TSQueue_pop s of Some (Some x, s') \<Rightarrow> Some (x, s') | _ \<Rightarrow> None)"

interpretation tsq_fifo: fifo tsq tsq_ok tsq_enq tsq_deq
proof unfold_locales
  fix s xs a s' assume "tsq s xs" and "tsq_ok s a" and "tsq_enq a s = Some s'"
  then show "tsq s' (xs @ [a])"
    using push_rep [of "fst s" "snd s" xs a True] by (auto simp: tsq_ok_def tsq_enq_def split: prod.splits)
next
  fix s assume "tsq s []"
  then show "tsq_deq s = None" using pop_nil [of "fst s" "snd s"] by (simp add: tsq_deq_def)
next
  fix s x xs assume "tsq s (x # xs)"
  then show "\<exists>s'. tsq_deq s = Some (x, s') \<and> tsq s' xs"
    using pop_rep [of "fst s" "snd s" x xs] by (auto simp: tsq_deq_def)
qed

lemma use_count_hooks [simp, co_frame]:
  "use_count (set_next a v h) p = use_count h p" "use_count (set_prev a v h) p = use_count h p"
  "use_count (set_check a v h) p = use_count h p"
  by (simp_all add: co_heap use_count_def split: option.splits)

lemma use_count_IncrementRef [simp]: "use_count (IncrementRef p s) p = use_count s p + 1"
  by (auto simp: use_count_def IncrementRef_def set_count_def split: option.splits)

lemma push_use_count:
  "TSQueue_push e True (h, q) = Some (n, h', q') \<Longrightarrow> use_count h' e = use_count h e + 1"
  by (auto simp: TSQueue_push_def link_def Let_def split: if_splits)

text \<open>Pushing an unlinked element on a well-formed queue never fails an assertion, appends
  it at the end, stamps it with the queue's check word, returns the new size and takes one
  reference on it.\<close>

lemma TSQueue_push_appends:
  assumes "tsq (h, q) xs" and "unlinked h e" and "e \<noteq> head q"
  shows "\<exists>h' q'. TSQueue_push e True (h, q) = Some (of_nat (Suc (length xs)), h', q') \<and>
    tsq (h', q') (xs @ [e]) \<and> check h' e = qcheck q' \<and> use_count h' e = use_count h e + 1"
  using push_rep [OF assms, of True] push_use_count by blast

text \<open>Removing by address takes exactly that element out of a well-formed queue wherever it
  stands, leaves it unlinked and the rest in order; with the check requested and a foreign check
  word nothing changes and the call returns false.\<close>

lemma TSQueue_erase_exact:
  assumes "tsq (h, q) xs" and "p \<in> set xs" and "length xs < 2 ^ 64"
  shows "if chk \<and> check h p \<noteq> qcheck q then TSQueue_erase p chk r (h, q) = Some (False, h, q)
    else \<exists>h' q'. TSQueue_erase p chk r (h, q) = Some (True, h', q') \<and> tsq (h', q') (remove1 p xs) \<and> unlinked h' p"
proof (cases "chk \<and> check h p \<noteq> qcheck q")
  case True
  then show ?thesis by (simp add: TSQueue_erase_def)
next
  case False
  then show ?thesis using erase_rep [OF assms, of chk r] by auto
qed

text \<open>\<open>pop_front(n)\<close> on a non-empty queue detaches the first \<open>max 1 n\<close> elements and
  \<open>pop_back(n)\<close> the last \<open>max 1 n\<close>, as well-formed lists in queue order; what is left is the
  well-formed rest.\<close>

lemma TSQueue_pop_ends:
  fixes n :: u32
  assumes "tsq (h, q) xs" and "xs \<noteq> []"
  shows "(\<exists>l h' q'. TSQueue_pop_front n (h, q) = Some (l, h', q') \<and>
      slist_rep (h', l) (take (max 1 (unat n)) xs) \<and> tsq (h', q') (drop (max 1 (unat n)) xs)) \<and>
    (\<exists>l h' q'. TSQueue_pop_back n (h, q) = Some (l, h', q') \<and>
      slist_rep (h', l) (drop (length xs - max 1 (unat n)) xs) \<and>
      tsq (h', q') (take (length xs - max 1 (unat n)) xs))"
proof -
  obtain x ys where xs: "xs = x # ys" using assms(2) by (cases xs) auto
  show ?thesis using pop_front_rep [of h q x ys n] pop_back_rep [OF assms, of n] assms(1) unfolding xs by blast
qed

text \<open>C25: Over any sequence of pushes of unlinked elements and pops, the elements popped followed
  by the elements still queued are the elements queued at the start followed by those pushed.\<close>

theorem TSQueue_fifo_order:
  assumes "tsq s xs" and "tsq_fifo.run cs s = (ins, outs, s')"
  shows "\<exists>xs'. tsq s' xs' \<and> xs @ ins = outs @ xs'"
  using assms by (rule tsq_fifo.run_conserves)

text \<open>Cutting \<open>n\<close> elements off a list and appending the rest gives back a list of the same
  elements in the same order; the parts are the first \<open>n\<close> elements and the others.\<close>

lemma SList_cut_append:
  assumes "slist_rep (h, l) xs" and "length xs < 2 ^ 64"
  shows "\<exists>h1 l1 l2 h2 l3. SList_cut n (h, l) = Some (h1, l1, l2) \<and>
    slist_rep (h1, l1) (take (unat n) xs) \<and> slist_rep (h1, l2) (drop (unat n) xs) \<and>
    SList_append (h1, l1) l2 = Some (h2, l3) \<and> slist_rep (h2, l3) xs"
proof -
  have "distinct xs" using assms(1) by (simp add: slist_rep_def)
  then have dis: "set (take (unat n) xs) \<inter> set (drop (unat n) xs) = {}"
    by (rule set_take_disj_set_drop_if_distinct) simp
  obtain h1 l1 l2 where c: "SList_cut n (h, l) = Some (h1, l1, l2)"
    "slist_rep (h1, l1) (take (unat n) xs)" "slist_rep (h1, l2) (drop (unat n) xs)"
    using SList_cut_rep [OF assms] by blast
  then show ?thesis using SList_append_rep [OF c(2,3) dis] by simp
qed

text \<open>Clearing a list and destroying a queue both terminate on every well-formed structure;
  the destructor releases every element once, from the last to the first.\<close>

lemma queue_teardown_terminates:
  assumes "tsq (h, q) xs" and "slist_rep (h, l) ys"
  shows "TSQueue_destroy_loop (Suc (length xs)) (head q) (tail q) h =
      Some (fold (\<lambda>t h. snd (DecrementRef t h)) (rev xs) h) \<and>
    (\<exists>h'. SList_clear (Suc (length ys)) (h, l) = Some (h', stealed) \<and> (\<forall>x \<in> set ys. unlinked h' x))"
  using destroy_loop_eq [of h "head q" xs None "Suc (length xs)"] SList_clear_rep [OF assms(2)] assms(1)
  by (simp add: tsq_def)

subsection \<open>Instances\<close>

text \<open>A fresh heap, the queue of elements 1 and 2 on dummy 0, and the list of 1 and 2.\<close>

definition hh0 :: hook_heap where
  "hh0 = \<lparr>objs = \<lambda>_. new_RefObject, impls = \<lambda>_. new_RefObjectImpl,
          prev = \<lambda>_. None, nxt = \<lambda>_. None, check = \<lambda>_. None\<rparr>"

definition hh12 :: hook_heap where
  "hh12 = hh0\<lparr>prev := (\<lambda>_. None)(1 := Some 0, 2 := Some 1), nxt := (\<lambda>_. None)(0 := Some 1, 1 := Some 2)\<rparr>"

definition q12 :: ts_queue where
  "q12 = \<lparr>head = 0, tail = 2, count = 2, qcheck = None\<rparr>"

lemma tsq12: "tsq (hh12, q12) [1, 2]"
  by (simp add: tsq_def hh12_def q12_def hh0_def)

theorem TSQueue_fifo_order_witness:
  "\<exists>s' xs'. tsq_fifo.run [Deq, Enq 5] (hh12, q12) = ([5], [1], s') \<and> tsq s' xs' \<and> [1, 2, 5] = 1 # xs'"
proof -
  have "\<exists>s'. tsq_fifo.run [Deq, Enq 5] (hh12, q12) = ([5], [1], s')"
    by (simp only: tsq_fifo.run.simps tsq_fifo.step.simps)
      (auto simp: tsq_deq_def tsq_ok_def tsq_enq_def TSQueue_pop_def TSQueue_push_def link_def Let_def
        hh12_def hh0_def q12_def co_heap unlinked_def)
  then obtain s' where r: "tsq_fifo.run [Deq, Enq 5] (hh12, q12) = ([5], [1], s')" by blast
  show ?thesis using TSQueue_fifo_order [OF tsq12 r] r by auto
qed

end
