(* ===== verification/Wait_Queue.thy ===== *)
theory Wait_Queue
  imports Ref_Count
begin

text \<open>
  The wait queue of \<open>include/co/sync/wait_queue.h\<close>: a singly linked queue of reference
  counted entries behind a dummy hook, with two extra cursors. \<open>check\<close> lets a push drop
  up to two entries that the check functor calls invalid; \<open>posn\<close> follows the entry at
  distance \<open>posDistance\<close> and is moved by every pop. The functors act on the entries'
  own state, a type parameter \<open>'c\<close>; the hooks and the counters are the heap \<open>wq_heap\<close>.
  A call under the mutex is one step; following a null pointer is \<open>None\<close>.
\<close>

record wq_heap = ref_store +
  wnext :: "addr \<Rightarrow> ptr"

record wait_queue =
  dummy :: addr
  wtail :: addr
  wcheck :: ptr
  posn :: ptr
  posDistance :: u64
  wcount :: u64

record cond_ret =
  canQueue :: bool
  needWait :: bool

type_synonym 'c wq_state = "wq_heap \<times> wait_queue \<times> 'c"
type_synonym 'c checker = "(addr \<Rightarrow> 'c \<Rightarrow> bool) option"
type_synonym 'c pos_fun = "(addr \<Rightarrow> 'c \<Rightarrow> bool \<times> 'c) option"
type_synonym 'c push_cond = "(u64 \<Rightarrow> wq_heap \<Rightarrow> 'c \<Rightarrow> cond_ret \<times> wq_heap \<times> 'c) option"

definition set_wnext :: "addr \<Rightarrow> ptr \<Rightarrow> wq_heap \<Rightarrow> wq_heap" where
  [co_heap]: "set_wnext p v h = h\<lparr>wnext := (wnext h)(p := v)\<rparr>"

definition WaitQueue_new :: "addr \<Rightarrow> u64 \<Rightarrow> wq_heap \<Rightarrow> wq_heap \<times> wait_queue" where
  "WaitQueue_new d posD h = (set_wnext d None h,
     \<lparr>dummy = d, wtail = d, wcheck = Some d, posn = None, posDistance = posD, wcount = 0\<rparr>)"

definition WaitQueue_empty :: "wait_queue \<Rightarrow> bool" where
  "WaitQueue_empty q \<longleftrightarrow> wcount q = 0"

definition WaitQueue_size :: "wait_queue \<Rightarrow> u64" where
  "WaitQueue_size q = wcount q"

text \<open>The loop of \<open>push\<close> that drops invalid entries: at most \<open>k\<close> rounds.\<close>

fun check_loop :: "nat \<Rightarrow> (addr \<Rightarrow> 'c \<Rightarrow> bool) \<Rightarrow> 'c wq_state \<Rightarrow> 'c wq_state" where
  "check_loop 0 chk s = s"
| "check_loop (Suc k) chk (h, q, c) = (case wcheck q of
      None \<Rightarrow> (h, q, c)
    | Some cp \<Rightarrow> (case wnext h cp of
        None \<Rightarrow> (h, q, c)
      | Some n \<Rightarrow>
          if \<not> chk n c then
            (let q1 = (if posn q = Some n then q\<lparr>posn := wnext h n\<rparr> else q);
                 q2 = (if wtail q1 = n then q1\<lparr>wtail := cp\<rparr> else q1);
                 h1 = set_wnext n None (set_wnext cp (wnext h n) h)
             in check_loop k chk (snd (DecrementRef n h1), q2, c))
          else check_loop k chk (h, q\<lparr>wcheck := Some n\<rparr>, c)))"

definition WaitQueue_push :: "'c checker \<Rightarrow> addr \<Rightarrow> 'c push_cond \<Rightarrow> 'c wq_state \<Rightarrow> cond_ret \<times> 'c wq_state" where
  "WaitQueue_push chk p cond = (\<lambda>(h, q, c).
     let (ret, h0, c0) = (case cond of
           None \<Rightarrow> (\<lparr>canQueue = True, needWait = True\<rparr>, h, c) | Some f \<Rightarrow> f (wcount q) h c)
     in if \<not> canQueue ret then (ret, h0, q, c0)
        else let h1 = set_wnext p None (set_wnext (wtail q) (Some p) h0);
                 q1 = q\<lparr>wtail := p, wcount := wcount q + 1\<rparr>;
                 q2 = (if wcount q1 = posDistance q1 then q1\<lparr>posn := Some p\<rparr> else q1)
             in if wcount q2 < max (posDistance q2) (posDistance q2 + 16) then (ret, h1, q2, c0)
                else (case chk of
                    None \<Rightarrow> (ret, h1, q2, c0)
                  | Some f \<Rightarrow>
                      let again = (case wcheck q2 of None \<Rightarrow> True | Some cp \<Rightarrow> wnext h1 cp = None);
                          q3 = (if again then q2\<lparr>wcheck := posn q2\<rparr> else q2)
                      in (ret, check_loop 2 f (h1, q3, c0))))"

text \<open>The loop of \<open>pop\<close> that moves the position cursor; the fuel bounds the walk.\<close>

fun pos_loop :: "nat \<Rightarrow> 'c pos_fun \<Rightarrow> wq_heap \<Rightarrow> ptr \<Rightarrow> 'c \<Rightarrow> (ptr \<times> 'c) option" where
  "pos_loop 0 f h p c = None"
| "pos_loop (Suc k) f h p c = (case (p, f) of
      (Some a, Some g) \<Rightarrow> (let (ok, c1) = g a c in
         if ok then Some (wnext h a, c1) else pos_loop k f h (wnext h a) c1)
    | _ \<Rightarrow> Some (p, c))"

definition WaitQueue_pop :: "nat \<Rightarrow> 'c pos_fun \<Rightarrow> 'c wq_state \<Rightarrow> (ptr \<times> 'c wq_state) option" where
  "WaitQueue_pop fuel f = (\<lambda>(h, q, c).
     if dummy q = wtail q then Some (None, h, q, c)
     else (case wnext h (dummy q) of None \<Rightarrow> None | Some p \<Rightarrow>
       (let q1 = (if wtail q = p then q\<lparr>wtail := dummy q\<rparr> else q);
            q2 = (if wcheck q1 = Some p then q1\<lparr>wcheck := wnext h p\<rparr> else q1);
            h1 = set_wnext p None (set_wnext (dummy q) (wnext h p) h)
        in case pos_loop fuel f h1 (posn q2) c of None \<Rightarrow> None
         | Some (ps, c1) \<Rightarrow> Some (Some p, h1, q2\<lparr>posn := ps, wcount := wcount q2 - 1\<rparr>, c1))))"

definition WaitQueue_tryPop :: "nat \<Rightarrow> 'c pos_fun \<Rightarrow> 'c wq_state \<Rightarrow> (ptr \<times> 'c wq_state) option" where
  "WaitQueue_tryPop fuel f s = (if wcount (fst (snd s)) = 0 then Some (None, s) else WaitQueue_pop fuel f s)"

subsection \<open>Representation\<close>

fun sseg :: "(addr \<Rightarrow> ptr) \<Rightarrow> addr \<Rightarrow> addr list \<Rightarrow> bool" where
  "sseg N a [] = (N a = None)"
| "sseg N a (x # xs) = (N a = Some x \<and> sseg N x xs)"

lemma sseg_append: "sseg N a (xs @ y # ys) \<longleftrightarrow> sseg (N(last (a # xs) := None)) a xs \<and> N (last (a # xs)) = Some y \<and> sseg N y ys"
  if "distinct (a # xs)"
  using that by (induction xs arbitrary: a) auto

lemma sseg_upd [simp]: "p \<notin> set (a # xs) \<Longrightarrow> sseg (N(p := v)) a xs = sseg N a xs"
  by (induction xs arbitrary: a) auto

lemma sseg_last: "sseg N a xs \<Longrightarrow> N (last (a # xs)) = None"
  by (induction xs arbitrary: a) auto

lemma sseg_snoc:
  "sseg N a xs \<Longrightarrow> distinct (a # xs) \<Longrightarrow> p \<notin> set (a # xs) \<Longrightarrow>
     sseg (N(last (a # xs) := Some p, p := None)) a (xs @ [p])"
proof (induction xs arbitrary: a)
  case (Cons x xs)
  then have "last (x # xs) \<noteq> a" using last_in_set [of "x # xs"] by (metis distinct.simps(2) list.distinct(1))
  with Cons show ?case by auto
qed auto

lemma sseg_next:
  "sseg N a (us @ x # vs) \<Longrightarrow> N x = (case vs of [] \<Rightarrow> None | v # _ \<Rightarrow> Some v)"
  by (induction us arbitrary: a) (auto split: list.splits)

lemma sseg_delete:
  "sseg N a (us @ x # vs) \<Longrightarrow> distinct (a # us @ x # vs) \<Longrightarrow>
     sseg (N(last (a # us) := N x, x := None)) a (us @ vs)"
proof (induction us arbitrary: a)
  case Nil
  show ?case
  proof (cases vs)
    case (Cons y ys)
    with Nil have "sseg (N(a := N x, x := None)) y ys" by (subst sseg_upd; (subst sseg_upd)?; auto)
    moreover have "N x = Some y" "a \<noteq> x" using Nil Cons by auto
    ultimately show ?thesis using Cons by (simp add: fun_upd_other fun_upd_same del: fun_upd_apply)
  qed (use Nil in auto)
next
  case (Cons u us)
  then have "last (u # us) \<noteq> a" "x \<noteq> a" using last_in_set [of "u # us"] by auto
  with Cons show ?case by auto
qed

lemma next_split:
  "sseg N a xs \<Longrightarrow> distinct (a # xs) \<Longrightarrow> N cp = Some n \<Longrightarrow> a # xs = us @ cp # vs \<Longrightarrow>
     \<exists>us' vs'. xs = us' @ n # vs' \<and> cp = last (a # us')"
proof (induction us arbitrary: a xs)
  case Nil
  then have "cp = a" by simp
  with Nil show ?case by (cases xs) (auto intro: exI [of _ "[]"])
next
  case (Cons u us)
  then obtain x ys where xs: "xs = x # ys" by (cases xs) auto
  with Cons obtain us' vs' where "ys = us' @ n # vs'" "cp = last (x # us')" by (metis append_Cons distinct.simps(2) list.inject sseg.simps(2))
  then show ?case using xs by (intro exI [of _ "x # us'"] exI [of _ vs']) auto
qed

text \<open>
  The entries in order. The cursors stand on an entry (\<open>check\<close> may stand on the dummy) or
  are null; the counter is at least the number of entries.
\<close>

definition wq_rep :: "wq_heap \<times> wait_queue \<Rightarrow> addr list \<Rightarrow> bool" where
  "wq_rep = (\<lambda>(h, q) xs.
     distinct (dummy q # xs) \<and> sseg (wnext h) (dummy q) xs \<and> wtail q = last (dummy q # xs) \<and>
     length xs \<le> unat (wcount q) \<and>
     (\<forall>cp. wcheck q = Some cp \<longrightarrow> cp \<in> set (dummy q # xs)) \<and>
     (\<forall>p. posn q = Some p \<longrightarrow> p \<in> set xs))"

lemma wq_new: "wq_rep (WaitQueue_new d posD h) []"
  by (simp add: wq_rep_def WaitQueue_new_def co_heap)

lemma DecrementRef_wnext [simp, co_frame]: "wnext (snd (DecrementRef p h)) = wnext h"
  by (simp add: DecrementRef_def RefObject_DecrementRef_def SharedRefObject_DecrementRef_def
      DecrementWeak_def run_deleter_def set_count_def Let_def split: option.splits)

lemma wq_empty_iff: "wq_rep (h, q) xs \<Longrightarrow> dummy q = wtail q \<longleftrightarrow> xs = []"
  by (auto simp: wq_rep_def dest: last_in_set split: if_splits)

subsection \<open>Dropping invalid entries\<close>

text \<open>One dropped entry: the links, the tail and both cursors stay right.\<close>

lemma drop_entry:
  assumes r: "wq_rep (h, q) (us @ n # vs)" and cp: "cp = last (dummy q # us)"
  defines "q1 \<equiv> (if posn q = Some n then q\<lparr>posn := wnext h n\<rparr> else q)"
  defines "q2 \<equiv> (if wtail q1 = n then q1\<lparr>wtail := cp\<rparr> else q1)"
  assumes "wcheck q = Some cp"
  shows "wq_rep (snd (DecrementRef n (set_wnext n None (set_wnext cp (wnext h n) h))), q2) (us @ vs)"
proof -
  have di: "distinct (dummy q # us @ n # vs)" and s: "sseg (wnext h) (dummy q) (us @ n # vs)"
    using r by (auto simp: wq_rep_def)
  have nn: "wnext h n = (case vs of [] \<Rightarrow> None | v # _ \<Rightarrow> Some v)" using sseg_next [OF s] .
  have dl: "sseg ((wnext h)(cp := wnext h n, n := None)) (dummy q) (us @ vs)" using sseg_delete [OF s di] cp by simp
  have cin: "cp \<in> set (dummy q # us)" using cp last_in_set [of "dummy q # us"] by simp
  have pos: "p \<in> set (us @ vs)" if "posn q2 = Some p" for p
    using that r nn by (auto simp: wq_rep_def q1_def q2_def split: if_splits list.splits)
  have tl: "wtail q2 = last (dummy q # us @ vs)"
  proof (cases vs)
    case Nil
    then have "wtail q1 = n" using r by (auto simp: wq_rep_def q1_def)
    then show ?thesis using Nil cp by (simp add: q2_def)
  next
    case (Cons v ws)
    then have "wtail q1 \<noteq> n" using r di last_in_set [of "v # ws"] by (auto simp: wq_rep_def q1_def)
    then show ?thesis using Cons r by (auto simp: q2_def q1_def wq_rep_def)
  qed
  have fr: "dummy q2 = dummy q" "wcount q2 = wcount q" "wcheck q2 = Some cp" using assms(5) by (auto simp: q2_def q1_def)
  show ?thesis using r di dl cin pos tl fr by (auto simp: wq_rep_def co_heap)
qed

lemma check_loop_rep:
  "wq_rep (h, q) xs \<Longrightarrow> check_loop k chk (h, q, c) = (h', q', c') \<Longrightarrow>
     \<exists>rs. length rs \<le> k \<and> (\<forall>r \<in> set rs. r \<in> set xs \<and> \<not> chk r c) \<and> wq_rep (h', q') (filter (\<lambda>x. x \<notin> set rs) xs) \<and>
       c' = c \<and> wcount q' = wcount q \<and> posDistance q' = posDistance q \<and> dummy q' = dummy q"
proof (induction k arbitrary: h q xs)
  case 0
  then show ?case by (intro exI [of _ "[]"]) simp
next
  case (Suc k)
  show ?case
  proof (cases "\<exists>cp n. wcheck q = Some cp \<and> wnext h cp = Some n")
    case False
    then have "check_loop (Suc k) chk (h, q, c) = (h, q, c)" by (auto split: option.splits)
    with Suc.prems show ?thesis by (intro exI [of _ "[]"]) simp
  next
    case True
    then obtain cp n where cn: "wcheck q = Some cp" "wnext h cp = Some n" by blast
    have s: "sseg (wnext h) (dummy q) xs" and di: "distinct (dummy q # xs)" and "cp \<in> set (dummy q # xs)"
      using Suc.prems(1) cn by (auto simp: wq_rep_def)
    then obtain us vs where split: "dummy q # xs = us @ cp # vs" by (meson split_list)
    obtain us' vs' where xs: "xs = us' @ n # vs'" and cp: "cp = last (dummy q # us')"
      using next_split [OF s di cn(2) split] by blast
    show ?thesis
    proof (cases "chk n c")
      case True
      let ?q = "q\<lparr>wcheck := Some n\<rparr>"
      have "wq_rep (h, ?q) xs" using Suc.prems(1) xs by (auto simp: wq_rep_def)
      moreover have "check_loop k chk (h, ?q, c) = (h', q', c')" using Suc.prems(2) cn True by simp
      ultimately obtain rs where "length rs \<le> k" "\<forall>r \<in> set rs. r \<in> set xs \<and> \<not> chk r c"
          "wq_rep (h', q') (filter (\<lambda>x. x \<notin> set rs) xs)" "c' = c" "wcount q' = wcount q"
          "posDistance q' = posDistance q" "dummy q' = dummy q"
        using Suc.IH [of h ?q xs] by auto
      then show ?thesis by (intro exI [of _ rs]) auto
    next
      case False
      define q1 where "q1 = (if posn q = Some n then q\<lparr>posn := wnext h n\<rparr> else q)"
      define q2 where "q2 = (if wtail q1 = n then q1\<lparr>wtail := cp\<rparr> else q1)"
      define h1 where "h1 = snd (DecrementRef n (set_wnext n None (set_wnext cp (wnext h n) h)))"
      have r2: "wq_rep (h1, q2) (us' @ vs')"
        unfolding q2_def q1_def h1_def by (rule drop_entry [OF Suc.prems(1) [unfolded xs] cp cn(1)])
      have "check_loop k chk (h1, q2, c) = (h', q', c')"
        using Suc.prems(2) cn False unfolding q2_def q1_def h1_def by (simp add: Let_def split del: if_split)
      then obtain rs where rs: "length rs \<le> k" "\<forall>r \<in> set rs. r \<in> set (us' @ vs') \<and> \<not> chk r c"
          "wq_rep (h', q') (filter (\<lambda>x. x \<notin> set rs) (us' @ vs'))" "c' = c" "wcount q' = wcount q2"
          "posDistance q' = posDistance q2" "dummy q' = dummy q2"
        using Suc.IH [OF r2] by blast
      have eq: "filter (\<lambda>x. x \<notin> set (n # rs)) xs = filter (\<lambda>x. x \<notin> set rs) (us' @ vs')"
      proof -
        have "filter (\<lambda>x. x \<notin> set (n # rs)) ys = filter (\<lambda>x. x \<notin> set rs) ys" if "n \<notin> set ys" for ys
          using that by (intro filter_cong) auto
        then show ?thesis using di xs by auto
      qed
      have "wcount q2 = wcount q" "posDistance q2 = posDistance q" "dummy q2 = dummy q" by (auto simp: q2_def q1_def)
      then show ?thesis using rs eq xs False by (intro exI [of _ "n # rs"]) auto
    qed
  qed
qed

subsection \<open>Push and pop\<close>

lemma push_link_rep:
  assumes "wq_rep (h, q) xs" and "p \<notin> set (dummy q # xs)" and "unat (wcount q) + 1 < 2 ^ 64"
  defines "q1 \<equiv> q\<lparr>wtail := p, wcount := wcount q + 1\<rparr>"
  shows "wq_rep (set_wnext p None (set_wnext (wtail q) (Some p) h),
    if wcount q1 = posDistance q1 then q1\<lparr>posn := Some p\<rparr> else q1) (xs @ [p])"
proof -
  have "sseg ((wnext h)(wtail q := Some p, p := None)) (dummy q) (xs @ [p])"
    using sseg_snoc [of "wnext h" "dummy q" xs p] assms(1,2) by (auto simp: wq_rep_def)
  moreover have "unat (wcount q + 1) = unat (wcount q) + 1" using assms(3) by (rule unat_Suc_u64)
  ultimately show ?thesis using assms(1,2) by (auto simp: wq_rep_def q1_def co_heap)
qed

lemma wq_push_rep:
  assumes r: "wq_rep (h, q) xs" and p: "p \<notin> set (dummy q # xs)" and n: "unat (wcount q) + 1 < 2 ^ 64"
    and cnd: "\<And>f. cond = Some f \<Longrightarrow> canQueue (fst (f (wcount q) h c)) \<and> wnext (fst (snd (f (wcount q) h c))) = wnext h"
    and pu: "WaitQueue_push chk p cond (h, q, c) = (ret, h', q', c')"
  shows "\<exists>rs. length rs \<le> 2 \<and> (\<forall>r \<in> set rs. \<exists>f. chk = Some f \<and> \<not> f r c') \<and>
    wq_rep (h', q') (filter (\<lambda>x. x \<notin> set rs) (xs @ [p])) \<and> wcount q' = wcount q + 1"
proof -
  obtain ret0 h0 c0 where cr: "(case cond of None \<Rightarrow> (\<lparr>canQueue = True, needWait = True\<rparr>, h, c)
      | Some f \<Rightarrow> f (wcount q) h c) = (ret0, h0, c0)" by (metis prod_cases3)
  have can: "canQueue ret0" and w0: "wnext h0 = wnext h" using cnd cr by (auto split: option.splits)
  have r0: "wq_rep (h0, q) xs" using r w0 by (simp add: wq_rep_def)
  define q1 where "q1 = q\<lparr>wtail := p, wcount := wcount q + 1\<rparr>"
  define h1 where "h1 = set_wnext p None (set_wnext (wtail q) (Some p) h0)"
  define q2 where "q2 = (if wcount q1 = posDistance q1 then q1\<lparr>posn := Some p\<rparr> else q1)"
  define q3 where "q3 = (if (case wcheck q2 of None \<Rightarrow> True | Some cp \<Rightarrow> wnext h1 cp = None)
    then q2\<lparr>wcheck := posn q2\<rparr> else q2)"
  have r2: "wq_rep (h1, q2) (xs @ [p])" unfolding h1_def q2_def q1_def by (rule push_link_rep [OF r0 p n])
  have r3: "wq_rep (h1, q3) (xs @ [p])" using r2 by (auto simp: wq_rep_def q3_def split: option.splits)
  have cnt: "wcount q2 = wcount q + 1" "wcount q3 = wcount q + 1" by (auto simp: q2_def q1_def q3_def)
  have out: "(h', q', c') = (if wcount q2 < max (posDistance q2) (posDistance q2 + 16) then (h1, q2, c0)
      else (case chk of None \<Rightarrow> (h1, q2, c0) | Some f \<Rightarrow> check_loop 2 f (h1, q3, c0)))"
    using pu can cr
    by (auto simp: WaitQueue_push_def Let_def q1_def [symmetric] h1_def [symmetric] q2_def [symmetric]
        q3_def split: option.splits if_splits)
  show ?thesis
  proof (cases "\<exists>f. chk = Some f \<and> check_loop 2 f (h1, q3, c0) = (h', q', c')")
    case True
    then obtain f where "chk = Some f" "check_loop 2 f (h1, q3, c0) = (h', q', c')" by blast
    then show ?thesis using check_loop_rep [OF r3] cnt by fastforce
  next
    case False
    then have "(h', q', c') = (h1, q2, c0)" using out by (auto split: if_splits option.splits)
    then show ?thesis using r2 cnt by (intro exI [of _ "[]"]) auto
  qed
qed

lemma pos_loop_ends:
  "sseg (wnext h) a ys \<Longrightarrow> (\<forall>p. ps = Some p \<longrightarrow> p \<in> set (a # ys)) \<Longrightarrow> length ys + 1 < fuel \<Longrightarrow>
     \<exists>ps' c'. pos_loop fuel f h ps c = Some (ps', c') \<and> (\<forall>p. ps' = Some p \<longrightarrow> p = a \<or> p \<in> set ys)"
proof (induction ys arbitrary: a fuel ps c)
  case Nil
  have n: "wnext h a = None" using Nil(1) by simp
  obtain f1 where f1: "fuel = Suc f1" "0 < f1" using Nil(3) by (cases fuel) auto
  then obtain f2 where "fuel = Suc (Suc f2)" by (cases f1) auto
  then show ?case using Nil(2) n by (cases ps; cases f) (auto split: prod.splits)
next
  case (Cons y ys)
  then obtain g where g: "fuel = Suc g" "length ys + 1 < g" by (cases fuel) auto
  have tail: "\<exists>ps' c'. pos_loop g f h q c1 = Some (ps', c') \<and> (\<forall>p. ps' = Some p \<longrightarrow> p = y \<or> p \<in> set ys)"
    if "\<forall>p. q = Some p \<longrightarrow> p \<in> set (y # ys)" for q c1
    using Cons.IH [of y q g c1] Cons.prems(1) that g(2) by auto
  show ?case
  proof (cases ps)
    case None
    then show ?thesis using g by simp
  next
    case (Some b)
    have nb: "\<forall>p. wnext h b = Some p \<longrightarrow> p \<in> set (y # ys)"
    proof (cases "b = a")
      case False
      then have "b \<in> set (y # ys)" using Cons.prems(2) Some by auto
      then obtain us vs where "y # ys = us @ b # vs" by (meson split_list)
      then show ?thesis using sseg_next [of "wnext h" a us b vs] Cons.prems(1) by (auto split: list.splits)
    qed (use Cons.prems(1) in auto)
    show ?thesis
    proof (cases f)
      case None
      then show ?thesis using g Some Cons.prems(2) by auto
    next
      case (Some gf)
      obtain ok c1 where "gf b c = (ok, c1)" by (metis surj_pair)
      then show ?thesis using tail [OF nb, of c1] nb g Some \<open>ps = Some b\<close> by (cases ok) auto
    qed
  qed
qed

lemma pos_after_pop:
  assumes r: "wq_rep (h, q) (x # xs)" and s1: "sseg (wnext h1) (dummy q) xs" and x1: "wnext h1 x = None"
    and fuel: "length xs + 2 < fuel" and pf: "posn q = Some x \<longrightarrow> f \<noteq> None"
  shows "\<exists>ps c'. pos_loop fuel f h1 (posn q) c = Some (ps, c') \<and> (\<forall>p. ps = Some p \<longrightarrow> p \<in> set xs)"
proof -
  consider (none) "posn q = None" | (first) "posn q = Some x" | (rest) p where "posn q = Some p" "p \<in> set xs"
    using r by (auto simp: wq_rep_def)
  then show ?thesis
  proof cases
    case none
    then show ?thesis using fuel by (cases fuel) auto
  next
    case first
    obtain f1 where f1: "fuel = Suc f1" "0 < f1" using fuel by (cases fuel) auto
    then obtain f2 where "fuel = Suc (Suc f2)" by (cases f1) auto
    then show ?thesis using pf first x1 by (auto split: prod.splits)
  next
    case rest
    then obtain y ys where xs: "xs = y # ys" by (cases xs) auto
    then show ?thesis using pos_loop_ends [of h1 y ys "posn q" fuel f c] rest s1 fuel by auto
  qed
qed

lemma wq_pop_nil: "wq_rep (h, q) [] \<Longrightarrow> WaitQueue_pop fuel f (h, q, c) = Some (None, h, q, c)"
  by (auto simp: wq_rep_def WaitQueue_pop_def)

lemma wq_pop_rep:
  assumes r: "wq_rep (h, q) (x # xs)" and fuel: "length xs + 2 < fuel"
    and pf: "posn q = Some x \<longrightarrow> f \<noteq> None"
  shows "\<exists>h' q' c'. WaitQueue_pop fuel f (h, q, c) = Some (Some x, h', q', c') \<and> wq_rep (h', q') xs \<and>
    wnext h' x = None \<and> wcount q' = wcount q - 1 \<and> dummy q' = dummy q"
proof -
  have di: "distinct (dummy q # x # xs)" and s: "wnext h (dummy q) = Some x" "sseg (wnext h) x xs"
    and nz: "0 < unat (wcount q)" using r by (auto simp: wq_rep_def)
  have nx: "wnext h x = (case xs of [] \<Rightarrow> None | y # _ \<Rightarrow> Some y)" using s(2) by (cases xs) auto
  define q1 where "q1 = (if wtail q = x then q\<lparr>wtail := dummy q\<rparr> else q)"
  define q2 where "q2 = (if wcheck q1 = Some x then q1\<lparr>wcheck := wnext h x\<rparr> else q1)"
  define h1 where "h1 = set_wnext x None (set_wnext (dummy q) (wnext h x) h)"
  have s1: "sseg (wnext h1) (dummy q) xs" using sseg_delete [of "wnext h" "dummy q" "[]" x xs] di s
    by (simp add: h1_def co_heap)
  have x1: "wnext h1 x = None" using di by (simp add: h1_def co_heap)
  have fr: "posn q2 = posn q" "wcount q2 = wcount q" "dummy q2 = dummy q" by (auto simp: q2_def q1_def)
  obtain ps c' where ps: "pos_loop fuel f h1 (posn q) c = Some (ps, c')" "\<forall>p. ps = Some p \<longrightarrow> p \<in> set xs"
    using pos_after_pop [OF r s1 x1 fuel pf] by blast
  have cnt: "unat (wcount q - 1) = unat (wcount q) - 1" using nz by (simp add: unat_minus_one unat_gt_0)
  have tl: "wtail q2 = last (dummy q # xs)"
  proof (cases "xs = []")
    case False
    then have "wtail q = last xs" "last xs \<noteq> x" using r di last_in_set [of xs] by (auto simp: wq_rep_def)
    then show ?thesis using False by (simp add: q2_def q1_def)
  qed (use r in \<open>simp add: wq_rep_def q2_def q1_def\<close>)
  have ck: "cp \<in> set (dummy q # xs)" if "wcheck q2 = Some cp" for cp
    using that r nx by (auto simp: wq_rep_def q2_def q1_def split: if_splits list.splits)
  have "wq_rep (h1, q2\<lparr>posn := ps, wcount := wcount q2 - 1\<rparr>) xs"
    using r s1 ps(2) cnt tl ck fr by (auto simp: wq_rep_def)
  moreover have "WaitQueue_pop fuel f (h, q, c) = Some (Some x, h1, q2\<lparr>posn := ps, wcount := wcount q2 - 1\<rparr>, c')"
    using s(1) wq_empty_iff [OF r] ps(1)
    by (simp add: WaitQueue_pop_def Let_def q1_def [symmetric] q2_def [symmetric] h1_def [symmetric] fr)
  ultimately show ?thesis using x1 fr by auto
qed

subsection \<open>Properties\<close>


text \<open>Popping a well-formed queue terminates and returns the oldest entry, unlinked, and
  leaves the others in order, whatever the position functor answers; an empty queue gives
  nothing.\<close>

lemma WaitQueue_pop_oldest:
  assumes "wq_rep (h, q) xs" and "length xs + 2 < fuel" and "posn q = None \<or> f \<noteq> None"
  shows "case xs of [] \<Rightarrow> WaitQueue_pop fuel f (h, q, c) = Some (None, h, q, c)
    | x # ys \<Rightarrow> \<exists>h' q' c'. WaitQueue_pop fuel f (h, q, c) = Some (Some x, h', q', c') \<and>
        wq_rep (h', q') ys \<and> wnext h' x = None"
proof (cases xs)
  case Nil
  then show ?thesis using wq_pop_nil assms(1) by simp
next
  case (Cons x ys)
  then show ?thesis using wq_pop_rep [of h q x ys fuel f c] assms by auto
qed

lemma check_loop_drop:
  assumes r: "wq_rep (h, q) (n # vs)" and ck: "wcheck q = Some (dummy q)" and "\<not> chk n c"
  shows "\<exists>h' q'. check_loop (Suc k) chk (h, q, c) = check_loop k chk (h', q', c) \<and> wq_rep (h', q') vs \<and>
    wcheck q' = Some (dummy q') \<and> wcount q' = wcount q"
proof -
  define q1 where "q1 = (if posn q = Some n then q\<lparr>posn := wnext h n\<rparr> else q)"
  define q2 where "q2 = (if wtail q1 = n then q1\<lparr>wtail := dummy q\<rparr> else q1)"
  define h1 where "h1 = snd (DecrementRef n (set_wnext n None (set_wnext (dummy q) (wnext h n) h)))"
  have "wq_rep (h1, q2) ([] @ vs)" unfolding q2_def q1_def h1_def
    by (rule drop_entry) (use r ck in auto)
  moreover have "wnext h (dummy q) = Some n" using r by (simp add: wq_rep_def)
  then have "check_loop (Suc k) chk (h, q, c) = check_loop k chk (h1, q2, c)"
    using ck assms(3) unfolding q2_def q1_def h1_def by (simp add: Let_def split del: if_split)
  moreover have "wcheck q2 = Some (dummy q2)" "wcount q2 = wcount q" using ck by (auto simp: q2_def q1_def)
  ultimately show ?thesis by auto
qed

text \<open>The counter is not corrected when a push drops invalid entries. On a queue of at least
  two invalid entries whose counter has reached fifteen and whose check cursor is still at the
  start, a push drops both, and \<open>size\<close> is then at least two more than the number of entries.\<close>

lemma WaitQueue_count_drifts:
  assumes r: "wq_rep (h, q) (x # y # xs)" and p: "p \<notin> set (dummy q # x # y # xs)"
    and n: "unat (wcount q) + 1 < 2 ^ 64" "15 \<le> wcount q" "posDistance q = 0" "wcheck q = Some (dummy q)"
    and bad: "\<not> f x c" "\<not> f y c"
  shows "\<exists>ret h' q'. WaitQueue_push (Some f) p None (h, q, c) = (ret, h', q', c) \<and> wq_rep (h', q') (xs @ [p]) \<and>
    length (xs @ [p]) + 2 \<le> unat (WaitQueue_size q')"
proof -
  define h1 where "h1 = set_wnext p None (set_wnext (wtail q) (Some p) h)"
  define q1 where "q1 = q\<lparr>wtail := p, wcount := wcount q + 1\<rparr>"
  have u: "unat (wcount q + 1) = unat (wcount q) + 1" using n(1) by (rule unat_Suc_u64)
  then have c0: "wcount q + 1 \<noteq> 0" by auto
  have ge: "\<not> wcount q + 1 < 16" using u n(2) by (simp add: word_less_nat_alt word_le_nat_alt)
  have r1: "wq_rep (h1, q1) (x # y # xs @ [p])"
    using push_link_rep [OF r p n(1)] n(3) c0 by (simp add: h1_def q1_def)
  have k1: "wcheck q1 = Some (dummy q1)" using n(4) by (simp add: q1_def)
  obtain h2 q2 where d2: "check_loop 2 f (h1, q1, c) = check_loop (Suc 0) f (h2, q2, c)" "wq_rep (h2, q2) (y # xs @ [p])"
      "wcheck q2 = Some (dummy q2)" "wcount q2 = wcount q1"
    using check_loop_drop [of h1 q1 x "y # xs @ [p]" f c "Suc 0"] r1 k1 bad(1) by (auto simp: numeral_2_eq_2)
  obtain h3 q3 where d3: "check_loop (Suc 0) f (h2, q2, c) = (h3, q3, c)" "wq_rep (h3, q3) (xs @ [p])" "wcount q3 = wcount q2"
    using check_loop_drop [of h2 q2 y "xs @ [p]" f c 0] d2 bad(2) by auto
  have n1: "wnext h1 (dummy q) = Some x" using r1 by (simp add: wq_rep_def q1_def)
  have f1: "wcount q1 = wcount q + 1" "posDistance q1 = 0" "wcheck q1 = Some (dummy q)" using n by (auto simp: q1_def)
  have "WaitQueue_push (Some f) p None (h, q, c) = (\<lparr>canQueue = True, needWait = True\<rparr>, check_loop 2 f (h1, q1, c))"
    using n1 c0 ge f1 n(3) by (simp add: WaitQueue_push_def Let_def h1_def [symmetric] q1_def [symmetric])
  then have "WaitQueue_push (Some f) p None (h, q, c) = (\<lparr>canQueue = True, needWait = True\<rparr>, h3, q3, c)"
    using d2(1) d3(1) by argo
  moreover have "length (xs @ [p]) + 2 \<le> unat (WaitQueue_size q3)"
    using r u d2(4) d3(3) by (simp add: wq_rep_def WaitQueue_size_def q1_def)
  ultimately show ?thesis using d3(2) by blast
qed

subsection \<open>Instances\<close>

definition wq_h15 :: wq_heap where
  "wq_h15 = \<lparr>objs = \<lambda>_. new_RefObject, impls = \<lambda>_. new_RefObjectImpl,
     wnext = \<lambda>a. if a < 15 then Some (Suc a) else None\<rparr>"

definition wq_15 :: wait_queue where
  "wq_15 = \<lparr>dummy = 0, wtail = 15, wcheck = Some 0, posn = None, posDistance = 0, wcount = 15\<rparr>"

lemma wq_rep_15: "wq_rep (wq_h15, wq_15) [1, 2, 3, 4, 5, 6, 7, 8, 9, 10, 11, 12, 13, 14, 15]"
  by (simp add: wq_rep_def wq_h15_def wq_15_def)


end
