(* ===== verification/Cond_Var.thy ===== *)
theory Cond_Var
  imports Wait_Queue
begin

unbundle bit_operations_syntax

text \<open>
  The coroutine condition variable of \<open>include/co/sync/co_condition_variable.h\<close>. The first
  part is the handshake on one queue entry between the waiter (\<open>do_wait\<close>), one notifier
  (\<open>Entry::notify\<close>) and the clock, as an interleaving of atomic steps: each load, store,
  compare-and-swap and lock attempt of the source is one step. The waiter is a coroutine or
  a native thread, with or without a deadline. The second part is the queue of entries:
  \<open>notify_one\<close> and \<open>notify_all\<close>.
\<close>

subsection \<open>One entry: program counters and shared state\<close>

type_synonym suspend_flags = u32

definition suspend_begin :: suspend_flags where "suspend_begin = 0x1"
definition suspend_end :: suspend_flags where "suspend_end = 0x2"
definition wakeup_begin :: suspend_flags where "wakeup_begin = 0x4"
definition wakeup_end :: suspend_flags where "wakeup_end = 0x8"

lemmas flag_defs = suspend_begin_def suspend_end_def wakeup_begin_def wakeup_end_def

datatype cv_status = no_timeout | timeout | no_queued

datatype wait_pc =
    W_load nat                    \<comment> \<open>\<open>spinB\<close>\<close>
  | W_wait_end                    \<comment> \<open>spin on \<open>wakeup_end\<close>\<close>
  | W_cas nat suspend_flags
  | W_begun suspend_flags         \<comment> \<open>\<open>suspend_begin\<close> is published\<close>
  | W_store suspend_flags
  | W_prewait                     \<comment> \<open>native: before the condition variable releases the mutex\<close>
  | W_blocked
  | W_try
  | W_ret cv_status

datatype notify_pc =
    N_load
  | N_cas suspend_flags
  | N_early suspend_flags
  | N_func suspend_flags
  | N_store suspend_flags
  | N_wait_end                    \<comment> \<open>spin on \<open>suspend_end\<close>\<close>
  | N_late
  | N_wake                        \<comment> \<open>coroutine: before \<open>Processor::Wakeup\<close>\<close>
  | N_native                      \<comment> \<open>native: the mutex and \<open>noTimeoutLock\<close> are held\<close>
  | N_assert_failed
  | N_ret bool

datatype actor = Waiter | Notifier

record cv_state =
  suspendFlags :: suspend_flags
  noTimeoutLock :: "actor option"  \<comment> \<open>whose \<open>try_lock\<close> succeeded\<close>
  mtx :: "actor option"            \<comment> \<open>\<open>NativeThreadEntry::mtx\<close>\<close>
  suspended :: bool                \<comment> \<open>the suspend id of \<open>coroEntry\<close> is still current\<close>
  applied :: nat                   \<comment> \<open>calls of the notifier's functor\<close>
  wpc :: wait_pc
  npc :: notify_pc

definition cv_init :: cv_state where
  "cv_init = \<lparr>suspendFlags = 0, noTimeoutLock = None, mtx = None, suspended = False,
              applied = 0, wpc = W_load 0, npc = N_load\<rparr>"

abbreviation has :: "suspend_flags \<Rightarrow> suspend_flags \<Rightarrow> bool" where
  "has f b \<equiv> f AND b \<noteq> 0"

definition spin_limit :: "bool \<Rightarrow> nat" where
  "spin_limit native = (if native then 8 else 1)"

subsection \<open>The waiter\<close>

inductive wait_step :: "bool \<Rightarrow> cv_state \<Rightarrow> cv_state \<Rightarrow> bool" for native where
  w_load_wakeup: "wpc s = W_load k \<Longrightarrow> has (suspendFlags s) wakeup_begin \<Longrightarrow>
     wait_step native s (s\<lparr>wpc := W_wait_end\<rparr>)"
| w_load_yield: "wpc s = W_load k \<Longrightarrow> \<not> has (suspendFlags s) wakeup_begin \<Longrightarrow> k < spin_limit native \<Longrightarrow>
     wait_step native s (s\<lparr>wpc := W_load (Suc k)\<rparr>)"
| w_load_go: "wpc s = W_load k \<Longrightarrow> \<not> has (suspendFlags s) wakeup_begin \<Longrightarrow> spin_limit native \<le> k \<Longrightarrow>
     wait_step native s (s\<lparr>wpc := W_cas k (suspendFlags s)\<rparr>)"
| w_wait_end: "wpc s = W_wait_end \<Longrightarrow> has (suspendFlags s) wakeup_end \<Longrightarrow>
     wait_step native s (s\<lparr>wpc := W_ret no_timeout\<rparr>)"
| w_cas_ok: "wpc s = W_cas k f \<Longrightarrow> suspendFlags s = f \<Longrightarrow>
     wait_step native s (s\<lparr>suspendFlags := f OR suspend_begin,
       wpc := W_begun (f OR (suspend_begin OR suspend_end))\<rparr>)"
| w_cas_fail: "wpc s = W_cas k f \<Longrightarrow> wait_step native s (s\<lparr>wpc := W_load k\<rparr>)"
| w_suspend: "wpc s = W_begun f \<Longrightarrow> \<not> native \<Longrightarrow>
     wait_step native s (s\<lparr>suspended := True, wpc := W_store f\<rparr>)"
| w_native: "wpc s = W_begun f \<Longrightarrow> native \<Longrightarrow> mtx s = None \<Longrightarrow>
     wait_step native s (s\<lparr>mtx := Some Waiter, wpc := W_store f\<rparr>)"
| w_store: "wpc s = W_store f \<Longrightarrow>
     wait_step native s (s\<lparr>suspendFlags := f, wpc := (if native then W_prewait else W_blocked)\<rparr>)"
| w_prewait: "wpc s = W_prewait \<Longrightarrow> wait_step native s (s\<lparr>mtx := None, wpc := W_blocked\<rparr>)"
| w_resume: "wpc s = W_blocked \<Longrightarrow> \<not> native \<Longrightarrow> \<not> suspended s \<Longrightarrow>
     wait_step native s (s\<lparr>wpc := W_try\<rparr>)"
| w_native_resume: "wpc s = W_blocked \<Longrightarrow> native \<Longrightarrow> mtx s = None \<Longrightarrow>
     wait_step native s (s\<lparr>mtx := Some Waiter, wpc := W_try\<rparr>)"
| w_try_ok: "wpc s = W_try \<Longrightarrow> noTimeoutLock s = None \<Longrightarrow>
     wait_step native s (s\<lparr>noTimeoutLock := Some Waiter, mtx := None, wpc := W_ret timeout\<rparr>)"
| w_try_fail: "wpc s = W_try \<Longrightarrow> noTimeoutLock s \<noteq> None \<Longrightarrow>
     wait_step native s (s\<lparr>mtx := None, wpc := W_ret no_timeout\<rparr>)"

subsection \<open>The notifier\<close>

inductive notify_step :: "bool \<Rightarrow> cv_state \<Rightarrow> cv_state \<Rightarrow> bool" for native where
  n_load_suspend: "npc s = N_load \<Longrightarrow> has (suspendFlags s) suspend_begin \<Longrightarrow>
     notify_step native s (s\<lparr>npc := N_wait_end\<rparr>)"
| n_load_go: "npc s = N_load \<Longrightarrow> \<not> has (suspendFlags s) suspend_begin \<Longrightarrow>
     notify_step native s (s\<lparr>npc := N_cas (suspendFlags s)\<rparr>)"
| n_cas_ok: "npc s = N_cas f \<Longrightarrow> suspendFlags s = f \<Longrightarrow>
     notify_step native s (s\<lparr>suspendFlags := f OR wakeup_begin,
       npc := N_early (f OR (wakeup_begin OR wakeup_end))\<rparr>)"
| n_cas_fail: "npc s = N_cas f \<Longrightarrow> notify_step native s (s\<lparr>npc := N_load\<rparr>)"
| n_early_ok: "npc s = N_early f \<Longrightarrow> noTimeoutLock s = None \<Longrightarrow>
     notify_step native s (s\<lparr>noTimeoutLock := Some Notifier, npc := N_func f\<rparr>)"
| n_early_assert: "npc s = N_early f \<Longrightarrow> noTimeoutLock s \<noteq> None \<Longrightarrow>
     notify_step native s (s\<lparr>npc := N_assert_failed\<rparr>)"
| n_func: "npc s = N_func f \<Longrightarrow> notify_step native s (s\<lparr>applied := Suc (applied s), npc := N_store f\<rparr>)"
| n_store: "npc s = N_store f \<Longrightarrow> notify_step native s (s\<lparr>suspendFlags := f, npc := N_ret True\<rparr>)"
| n_wait_end: "npc s = N_wait_end \<Longrightarrow> has (suspendFlags s) suspend_end \<Longrightarrow>
     notify_step native s (s\<lparr>npc := N_late\<rparr>)"
| n_late_busy: "npc s = N_late \<Longrightarrow> native \<longrightarrow> mtx s = None \<Longrightarrow> noTimeoutLock s \<noteq> None \<Longrightarrow>
     notify_step native s (s\<lparr>npc := N_ret False\<rparr>)"
| n_late_coro: "npc s = N_late \<Longrightarrow> \<not> native \<Longrightarrow> noTimeoutLock s = None \<Longrightarrow>
     notify_step native s (s\<lparr>noTimeoutLock := Some Notifier, npc := N_wake\<rparr>)"
| n_late_native: "npc s = N_late \<Longrightarrow> native \<Longrightarrow> mtx s = None \<Longrightarrow> noTimeoutLock s = None \<Longrightarrow>
     notify_step native s (s\<lparr>mtx := Some Notifier, noTimeoutLock := Some Notifier, npc := N_native\<rparr>)"
| n_native: "npc s = N_native \<Longrightarrow>
     notify_step native s (s\<lparr>applied := Suc (applied s), mtx := None, npc := N_ret True\<rparr>)"
| n_wake_ok: "npc s = N_wake \<Longrightarrow> suspended s \<Longrightarrow>
     notify_step native s (s\<lparr>suspended := False, applied := Suc (applied s), npc := N_ret True\<rparr>)"
| n_wake_expired: "npc s = N_wake \<Longrightarrow> \<not> suspended s \<Longrightarrow>
     notify_step native s (s\<lparr>npc := N_ret False\<rparr>)"

text \<open>All actors. With a deadline the timer may wake a suspended coroutine at any time.\<close>

inductive cv_step :: "bool \<Rightarrow> bool \<Rightarrow> cv_state \<Rightarrow> cv_state \<Rightarrow> bool" for native timed where
  by_waiter: "wait_step native s t \<Longrightarrow> cv_step native timed s t"
| by_notifier: "notify_step native s t \<Longrightarrow> cv_step native timed s t"
| by_timer: "timed \<Longrightarrow> \<not> native \<Longrightarrow> suspended s \<Longrightarrow> cv_step native timed s (s\<lparr>suspended := False\<rparr>)"

abbreviation cv_reaches :: "bool \<Rightarrow> bool \<Rightarrow> cv_state \<Rightarrow> bool" where
  "cv_reaches native timed \<equiv> (cv_step native timed)\<^sup>*\<^sup>* cv_init"

subsection \<open>Invariant\<close>

text \<open>Which flag words go with which program counters.\<close>

definition inv_flags :: "cv_state \<Rightarrow> bool" where
  "inv_flags s \<longleftrightarrow>
     (case wpc s of
        W_load _ \<Rightarrow> suspendFlags s \<in> {0, 4, 12}
      | W_cas _ f \<Rightarrow> f = 0 \<and> suspendFlags s \<in> {0, 4, 12}
      | W_wait_end \<Rightarrow> suspendFlags s \<in> {4, 12}
      | W_begun f \<Rightarrow> f = 3 \<and> suspendFlags s = 1
      | W_store f \<Rightarrow> f = 3 \<and> suspendFlags s = 1
      | W_ret _ \<Rightarrow> suspendFlags s \<in> {3, 12}
      | _ \<Rightarrow> suspendFlags s = 3) \<and>
     (case npc s of
        N_load \<Rightarrow> suspendFlags s \<in> {0, 1, 3}
      | N_cas f \<Rightarrow> f = 0 \<and> suspendFlags s \<in> {0, 1, 3}
      | N_early f \<Rightarrow> f = 12 \<and> suspendFlags s = 4
      | N_func f \<Rightarrow> f = 12 \<and> suspendFlags s = 4
      | N_store f \<Rightarrow> f = 12 \<and> suspendFlags s = 4
      | N_wait_end \<Rightarrow> suspendFlags s \<in> {1, 3}
      | N_ret True \<Rightarrow> suspendFlags s \<in> {3, 12}
      | _ \<Rightarrow> suspendFlags s = 3)"

text \<open>Who holds the locks, and when the functor has run.\<close>

definition inv_locks :: "bool \<Rightarrow> bool \<Rightarrow> cv_state \<Rightarrow> bool" where
  "inv_locks native timed s \<longleftrightarrow>
     (noTimeoutLock s = Some Waiter \<longleftrightarrow> wpc s = W_ret timeout) \<and>
     (noTimeoutLock s = Some Notifier \<longleftrightarrow>
        (case npc s of N_func _ \<Rightarrow> True | N_store _ \<Rightarrow> True | N_wake \<Rightarrow> True | N_native \<Rightarrow> True
         | N_ret b \<Rightarrow> b \<or> noTimeoutLock s \<noteq> Some Waiter | _ \<Rightarrow> False)) \<and>
     applied s = (case npc s of N_store _ \<Rightarrow> 1 | N_ret True \<Rightarrow> 1 | _ \<Rightarrow> 0) \<and>
     npc s \<noteq> N_assert_failed \<and>
     (mtx s = Some Notifier \<longleftrightarrow> npc s = N_native) \<and>
     (native \<longrightarrow> (wpc s = W_try \<or> wpc s = W_prewait \<or> (\<exists>f. wpc s = W_store f)) \<longrightarrow> mtx s = Some Waiter) \<and>
     (wpc s = W_ret no_timeout \<longrightarrow> noTimeoutLock s = Some Notifier) \<and>
     (npc s = N_ret False \<longrightarrow> native \<longrightarrow> noTimeoutLock s = Some Waiter) \<and>
     (npc s = N_ret False \<longrightarrow> \<not> timed \<longrightarrow> noTimeoutLock s = Some Waiter) \<and>
     (npc s = N_native \<longrightarrow> native) \<and> (npc s = N_wake \<longrightarrow> \<not> native)"

text \<open>A suspended coroutine without a deadline stays suspended until the notifier wakes it.\<close>

definition inv_susp :: "bool \<Rightarrow> bool \<Rightarrow> cv_state \<Rightarrow> bool" where
  "inv_susp native timed s \<longleftrightarrow>
     (\<not> timed \<longrightarrow> \<not> native \<longrightarrow>
        (case wpc s of W_store _ \<Rightarrow> suspended s | W_blocked \<Rightarrow> suspended s \<or> npc s = N_ret True
         | W_try \<Rightarrow> npc s = N_ret True | W_ret timeout \<Rightarrow> False | _ \<Rightarrow> True)) \<and>
     (native \<longrightarrow> wpc s = W_ret no_timeout \<longrightarrow> npc s = N_ret True) \<and>
     (\<not> timed \<longrightarrow> wpc s = W_ret no_timeout \<longrightarrow> npc s = N_ret True) \<and>
     wpc s \<noteq> W_ret no_queued \<and> (wpc s = W_prewait \<longrightarrow> native) \<and>
     (native \<longrightarrow> \<not> suspended s) \<and>
     (case npc s of N_ret _ \<Rightarrow> \<not> suspended s | _ \<Rightarrow> True) \<and>
     (\<not> native \<longrightarrow> mtx s = None) \<and>
     (mtx s = Some Waiter \<longrightarrow> wpc s = W_try \<or> wpc s = W_prewait \<or> (\<exists>f. wpc s = W_store f)) \<and>
     (suspended s \<longrightarrow> wpc s = W_blocked \<or> (\<exists>f. wpc s = W_store f))"

definition cv_inv :: "bool \<Rightarrow> bool \<Rightarrow> cv_state \<Rightarrow> bool" where
  "cv_inv native timed s \<longleftrightarrow> inv_flags s \<and> inv_locks native timed s \<and> inv_susp native timed s"

lemmas inv_defs = cv_inv_def inv_flags_def inv_locks_def inv_susp_def

lemma cv_inv_init: "cv_inv native timed cv_init"
  by (simp add: inv_defs cv_init_def)

lemma actor_neq: "(y \<noteq> Waiter) = (y = Notifier)" "(y \<noteq> Notifier) = (y = Waiter)"
  by (cases y; simp)+

lemma cv_inv_wait: "wait_step native s t \<Longrightarrow> cv_inv native timed s \<Longrightarrow> cv_inv native timed t"
  by (induction rule: wait_step.induct; case_tac "npc s";
      auto simp: inv_defs flag_defs actor_neq split: bool.splits)

lemma cv_inv_notify: "notify_step native s t \<Longrightarrow> cv_inv native timed s \<Longrightarrow> cv_inv native timed t"
  by (induction rule: notify_step.induct; case_tac "wpc s";
      auto simp: inv_defs flag_defs actor_neq split: bool.splits cv_status.splits)

lemma cv_inv_step: "cv_step native timed s t \<Longrightarrow> cv_inv native timed s \<Longrightarrow> cv_inv native timed t"
proof (induction rule: cv_step.induct)
  case (by_timer s)
  then show ?case by (cases "wpc s"; auto simp: inv_defs split: notify_pc.splits)
qed (auto intro: cv_inv_wait cv_inv_notify)

lemma cv_inv_reaches: "cv_reaches native timed s \<Longrightarrow> cv_inv native timed s"
  by (induction rule: rtranclp_induct) (auto intro: cv_inv_init cv_inv_step)

lemma native_free: "mtx s \<noteq> Some Waiter \<Longrightarrow> mtx s \<noteq> Some Notifier \<Longrightarrow> mtx s = None"
  by (metis actor.exhaust option.exhaust)

text \<open>Progress, as enabledness of each actor.\<close>

definition wait_enabled :: "bool \<Rightarrow> cv_state \<Rightarrow> bool" where
  "wait_enabled native s \<longleftrightarrow> (case wpc s of
      W_wait_end \<Rightarrow> has (suspendFlags s) wakeup_end
    | W_begun _ \<Rightarrow> native \<longrightarrow> mtx s = None
    | W_blocked \<Rightarrow> (if native then mtx s = None else \<not> suspended s)
    | W_ret _ \<Rightarrow> False
    | _ \<Rightarrow> True)"

definition notify_enabled :: "bool \<Rightarrow> cv_state \<Rightarrow> bool" where
  "notify_enabled native s \<longleftrightarrow> (case npc s of
      N_wait_end \<Rightarrow> has (suspendFlags s) suspend_end
    | N_late \<Rightarrow> native \<longrightarrow> mtx s = None
    | N_assert_failed \<Rightarrow> False
    | N_ret _ \<Rightarrow> False
    | _ \<Rightarrow> True)"

lemma wait_enabled_step: "wait_enabled native s \<Longrightarrow> \<exists>t. wait_step native s t \<and> wpc t \<noteq> wpc s"
  unfolding wait_step.simps ex_disj_distrib conj_disj_distribR
  by (cases "wpc s"; cases native) (auto simp: wait_enabled_def not_less split: if_splits)

lemma notify_enabled_step: "notify_enabled native s \<Longrightarrow> \<exists>t. notify_step native s t \<and> npc t \<noteq> npc s"
  unfolding notify_step.simps ex_disj_distrib conj_disj_distribR
  by (cases "npc s"; cases native) (auto simp: notify_enabled_def)

lemma cv_progress:
  assumes "cv_inv native timed s"
  shows "wait_enabled native s \<or> notify_enabled native s \<or> (\<exists>c b. wpc s = W_ret c \<and> npc s = N_ret b)"
  using assms native_free [of s]
  by (cases "wpc s"; cases "npc s")
    (auto simp: inv_defs wait_enabled_def notify_enabled_def flag_defs split: bool.splits)

subsection \<open>Properties of the handshake\<close>


text \<open>C30: A native thread, or a coroutine that waits without a deadline, is told it was notified
  only after the notifier's functor has run on its value; such a coroutine never reports a
  timeout.\<close>

theorem handshake_value_delivered:
  assumes "cv_reaches native timed s" and "native \<or> \<not> timed"
  shows "(wpc s = W_ret no_timeout \<longrightarrow> applied s = 1 \<and> npc s = N_ret True) \<and>
    (\<not> native \<longrightarrow> wpc s \<noteq> W_ret timeout)"
proof -
  have inv: "cv_inv native timed s" using cv_inv_reaches [OF assms(1)] .
  then have n: "wpc s = W_ret no_timeout \<longrightarrow> npc s = N_ret True" using assms(2) by (auto simp: cv_inv_def inv_susp_def)
  moreover have "npc s = N_ret True \<longrightarrow> applied s = 1" using inv by (simp add: cv_inv_def inv_locks_def)
  moreover have "\<not> native \<longrightarrow> wpc s \<noteq> W_ret timeout" using inv assms(2) by (auto simp: cv_inv_def inv_susp_def)
  ultimately show ?thesis by blast
qed


definition cv_lost :: cv_state where
  "cv_lost = \<lparr>suspendFlags = 3, noTimeoutLock = Some Notifier, mtx = None, suspended = False,
     applied = 0, wpc = W_ret no_timeout, npc = N_ret False\<rparr>"

lemmas cv_eval = cv_step.simps wait_step.simps notify_step.simps flag_defs spin_limit_def

lemma cv_lost_reached: "cv_reaches False True cv_lost"
proof -
  let ?s = "\<lambda>fl lk su w n. \<lparr>suspendFlags = fl, noTimeoutLock = lk, mtx = None, suspended = su,
    applied = 0, wpc = w, npc = n\<rparr>"
  have "cv_step False True (?s 0 None False (W_load 0) N_load) (?s 0 None False (W_load 1) N_load)"
    and "cv_step False True (?s 0 None False (W_load 1) N_load) (?s 0 None False (W_cas 1 0) N_load)"
    and "cv_step False True (?s 0 None False (W_cas 1 0) N_load) (?s 1 None False (W_begun 3) N_load)"
    and "cv_step False True (?s 1 None False (W_begun 3) N_load) (?s 1 None True (W_store 3) N_load)"
    and "cv_step False True (?s 1 None True (W_store 3) N_load) (?s 3 None True W_blocked N_load)"
    and "cv_step False True (?s 3 None True W_blocked N_load) (?s 3 None True W_blocked N_wait_end)"
    and "cv_step False True (?s 3 None True W_blocked N_wait_end) (?s 3 None True W_blocked N_late)"
    and "cv_step False True (?s 3 None True W_blocked N_late) (?s 3 (Some Notifier) True W_blocked N_wake)"
    and "cv_step False True (?s 3 (Some Notifier) True W_blocked N_wake) (?s 3 (Some Notifier) False W_blocked N_wake)"
    and "cv_step False True (?s 3 (Some Notifier) False W_blocked N_wake) (?s 3 (Some Notifier) False W_blocked (N_ret False))"
    and "cv_step False True (?s 3 (Some Notifier) False W_blocked (N_ret False)) (?s 3 (Some Notifier) False W_try (N_ret False))"
    and "cv_step False True (?s 3 (Some Notifier) False W_try (N_ret False)) cv_lost"
    by (simp_all add: cv_eval cv_lost_def)
  then show ?thesis unfolding cv_init_def by (meson converse_rtranclp_into_rtranclp rtranclp.rtrancl_refl)
qed

text \<open>For a coroutine with a deadline the notification can be lost: a state is reachable in
  which the waiter was told it was notified, the notifier returned false and the functor never
  ran. The timer wakes the coroutine after the notifier has taken \<open>noTimeoutLock\<close> and before
  it calls \<open>Processor::Wakeup\<close>.\<close>

lemma handshake_timed_coroutine_lost:
  "\<exists>s. cv_reaches False True s \<and> wpc s = W_ret no_timeout \<and> npc s = N_ret False \<and> applied s = 0"
  using cv_lost_reached by (intro exI [of _ cv_lost]) (simp add: cv_lost_def)

text \<open>A run in which the notifier comes first.\<close>

definition cv_done :: cv_state where
  "cv_done = \<lparr>suspendFlags = 12, noTimeoutLock = Some Notifier, mtx = None, suspended = False,
     applied = 1, wpc = W_ret no_timeout, npc = N_ret True\<rparr>"

lemma cv_done_reached: "cv_reaches False False cv_done"
proof -
  let ?s = "\<lambda>fl lk a w n. \<lparr>suspendFlags = fl, noTimeoutLock = lk, mtx = None, suspended = False,
    applied = a, wpc = w, npc = n\<rparr>"
  have "cv_step False False (?s 0 None 0 (W_load 0) N_load) (?s 0 None 0 (W_load 0) (N_cas 0))"
    and "cv_step False False (?s 0 None 0 (W_load 0) (N_cas 0)) (?s 4 None 0 (W_load 0) (N_early 12))"
    and "cv_step False False (?s 4 None 0 (W_load 0) (N_early 12)) (?s 4 (Some Notifier) 0 (W_load 0) (N_func 12))"
    and "cv_step False False (?s 4 (Some Notifier) 0 (W_load 0) (N_func 12)) (?s 4 (Some Notifier) 1 (W_load 0) (N_store 12))"
    and "cv_step False False (?s 4 (Some Notifier) 1 (W_load 0) (N_store 12)) (?s 12 (Some Notifier) 1 (W_load 0) (N_ret True))"
    and "cv_step False False (?s 12 (Some Notifier) 1 (W_load 0) (N_ret True)) (?s 12 (Some Notifier) 1 W_wait_end (N_ret True))"
    and "cv_step False False (?s 12 (Some Notifier) 1 W_wait_end (N_ret True)) cv_done"
    by (simp_all add: cv_eval cv_done_def)
  then show ?thesis unfolding cv_init_def by (meson converse_rtranclp_into_rtranclp rtranclp.rtrancl_refl)
qed

subsection \<open>The queue of entries\<close>

text \<open>
  An entry as \<open>notify_one\<close> sees it: the value, \<open>isWaiting\<close>, and whether \<open>Entry::notify\<close>
  succeeds on it, which by the handshake means that the waiter has not timed out. A
  functor acts on the caller's state; \<open>NULL\<close> is the identity.
\<close>

record 'v cv_entry =
  evalue :: 'v
  isWaiting :: bool
  wakeable :: bool

definition new_Entry :: "'v \<Rightarrow> 'v cv_entry" where
  "new_Entry v = \<lparr>evalue = v, isWaiting = True, wakeable = True\<rparr>"

definition Entry_notify :: "('v \<Rightarrow> 's \<Rightarrow> 's) \<Rightarrow> 'v cv_entry \<Rightarrow> 's \<Rightarrow> bool \<times> 's" where
  "Entry_notify f e s = (if wakeable e then (True, f (evalue e) s) else (False, s))"

fun notify_one :: "('v \<Rightarrow> 's \<Rightarrow> 's) \<Rightarrow> 'v cv_entry list \<Rightarrow> 's \<Rightarrow> bool \<times> 'v cv_entry list \<times> 's" where
  "notify_one f [] s = (False, [], s)"
| "notify_one f (e # es) s =
     (if \<not> isWaiting e then (True, es, f (evalue e) s)
      else case Entry_notify f e s of
          (True, s') \<Rightarrow> (True, es, s')
        | (False, s') \<Rightarrow> notify_one f es s')"

lemma notify_one_shorter: "notify_one f es s = (True, es', s') \<Longrightarrow> length es' < length es"
  by (induction es) (auto simp: Entry_notify_def split: if_splits)

function notify_all :: "('v \<Rightarrow> 's \<Rightarrow> 's) \<Rightarrow> 'v cv_entry list \<Rightarrow> 's \<Rightarrow> nat \<times> 'v cv_entry list \<times> 's" where
  "notify_all f es s =
     (case notify_one f es s of
        (False, es', s') \<Rightarrow> (0, es', s')
      | (True, es', s') \<Rightarrow> (let (n, r) = notify_all f es' s' in (Suc n, r)))"
  by pat_completeness auto
termination
  by (relation "measure (\<lambda>(f, es, s). length es)") (auto dest: notify_one_shorter [OF sym])

text \<open>\<open>do_wait\<close> up to the suspension: the condition decides whether the entry is queued and
  whether the caller waits.\<close>

datatype wait_outcome = Returned cv_status | Waiting

definition do_wait_enqueue :: "(u64 \<Rightarrow> cond_ret) option \<Rightarrow> u64 \<Rightarrow> 'v \<Rightarrow> 'v cv_entry list \<Rightarrow> wait_outcome \<times> 'v cv_entry list" where
  "do_wait_enqueue cond queueSize v es =
     (let ret = (case cond of None \<Rightarrow> \<lparr>canQueue = True, needWait = True\<rparr> | Some c \<Rightarrow> c queueSize)
      in if \<not> canQueue ret then (Returned no_queued, es)
         else if \<not> needWait ret then (Returned no_timeout, es @ [(new_Entry v)\<lparr>isWaiting := False\<rparr>])
         else (Waiting, es @ [new_Entry v]))"

definition live :: "'v cv_entry list \<Rightarrow> 'v list" where
  "live es = map evalue (filter (\<lambda>e. \<not> isWaiting e \<or> wakeable e) es)"

lemma live_simps [simp]:
  "live [] = []"
  "live (e # es) = (if \<not> isWaiting e \<or> wakeable e then evalue e # live es else live es)"
  "live (es @ fs) = live es @ live fs"
  by (simp_all add: live_def)

lemma new_Entry_simps [simp]: "evalue (new_Entry v) = v" "isWaiting (new_Entry v)" "wakeable (new_Entry v)"
  by (simp_all add: new_Entry_def)

lemma notify_one_none: "live es = [] \<Longrightarrow> notify_one f es s = (False, [], s)"
  by (induction es) (auto simp: Entry_notify_def split: if_splits)

lemma notify_one_some: "live es = v # vs \<Longrightarrow> \<exists>es'. notify_one f es s = (True, es', f v s) \<and> live es' = vs"
  by (induction es) (auto simp: Entry_notify_def split: if_splits)

lemma notify_all_live: "\<exists>es'. notify_all f es s = (length (live es), es', fold f (live es) s) \<and> live es' = []"
proof (induction f es s rule: notify_all.induct)
  case (1 f es s)
  show ?case
  proof (cases "live es")
    case Nil
    then show ?thesis using notify_one_none [OF Nil, of f s] by (simp add: notify_all.simps [of f es s])
  next
    case (Cons v vs)
    then obtain es' where n: "notify_one f es s = (True, es', f v s)" "live es' = vs"
      using notify_one_some [of es v vs f s] by blast
    then show ?thesis using 1 [OF n(1) [symmetric]] Cons by (auto simp: notify_all.simps [of f es s])
  qed
qed

declare notify_all.simps [simp del]

text \<open>\<open>notify_one\<close> wakes the oldest waiter that can still be woken, hands the functor exactly
  its value, and drops the timed-out waiters before it; \<open>notify_all\<close> wakes every such waiter
  once, oldest first, and returns how many there were.\<close>

lemma notify_wakes_oldest_live:
  "(case live es of
      [] \<Rightarrow> notify_one f es s = (False, [], s)
    | v # vs \<Rightarrow> \<exists>es'. notify_one f es s = (True, es', f v s) \<and> live es' = vs) \<and>
   (\<exists>es'. notify_all f es s = (length (live es), es', fold f (live es) s) \<and> live es' = [])"
  using notify_one_none [of es f s] notify_one_some [of es _ _ f s] notify_all_live [of f es s]
  by (auto split: list.splits)


theorem handshake_value_delivered_witness:
  "wpc cv_done = W_ret no_timeout \<and> applied cv_done = 1"
  using handshake_value_delivered [OF cv_done_reached] by (simp add: cv_done_def)


end
