(* ===== verification/Ring_Buffer.thy ===== *)
theory Ring_Buffer
  imports Fifo_Spec
begin

text \<open>
  The ring buffer of \<open>include/co/sync/ringbuffer.h\<close>. Indices are \<open>size_t\<close> and run
  freely; a slot is the index modulo \<open>capacity_ + 1\<close>. A slot holds \<open>None\<close> while no object
  is constructed in it. When the write index wraps to zero the source rebases both indices.
  The lemmas show that the buffer is a bounded first-in first-out container as long as the
  rebase does not happen or \<open>capacity_ + 1\<close> divides \<open>2 ^ 64\<close>, and that the rebase breaks
  the order otherwise.
\<close>

record 'a ring_buffer =
  buf :: "nat \<Rightarrow> 'a option"
  capacity :: u64
  wpos :: u64
  rpos :: u64

definition RingBuffer_new :: "u64 \<Rightarrow> 'a ring_buffer" where
  "RingBuffer_new cap = \<lparr>buf = \<lambda>_. None, capacity = cap, wpos = 0, rpos = 0\<rparr>"

definition RingBuffer_size :: "'a ring_buffer \<Rightarrow> u64" where
  "RingBuffer_size r = wpos r - rpos r"

definition RingBuffer_empty :: "'a ring_buffer \<Rightarrow> bool" where
  "RingBuffer_empty r \<longleftrightarrow> RingBuffer_size r = 0"

definition RingBuffer_full :: "'a ring_buffer \<Rightarrow> bool" where
  "RingBuffer_full r \<longleftrightarrow> RingBuffer_size r = capacity r"

definition pwrite :: "'a ring_buffer \<Rightarrow> u64" where
  "pwrite r = wpos r mod (capacity r + 1)"

definition pread :: "'a ring_buffer \<Rightarrow> u64" where
  "pread r = rpos r mod (capacity r + 1)"

definition RingBuffer_push :: "'a \<Rightarrow> 'a ring_buffer \<Rightarrow> bool \<times> 'a ring_buffer" where
  "RingBuffer_push a r =
     (if RingBuffer_full r then (False, r)
      else let r1 = r\<lparr>buf := (buf r)(unat (pwrite r) := Some a), wpos := wpos r + 1\<rparr>
           in (True, if wpos r1 = 0
                     then r1\<lparr>wpos := capacity r1 + 1, rpos := rpos r1 + (capacity r1 + 1)\<rparr>
                     else r1))"

text \<open>The boolean result, the value moved out (\<open>None\<close> when the slot holds no object) and the
  buffer.\<close>

definition RingBuffer_pop :: "'a ring_buffer \<Rightarrow> bool \<times> 'a option \<times> 'a ring_buffer" where
  "RingBuffer_pop r =
     (if RingBuffer_empty r then (False, None, r)
      else (True, buf r (unat (pread r)),
            r\<lparr>buf := (buf r)(unat (pread r) := None), rpos := rpos r + 1\<rparr>))"

fun RingBuffer_drain :: "nat \<Rightarrow> 'a ring_buffer \<Rightarrow> 'a ring_buffer option" where
  "RingBuffer_drain 0 r = None"
| "RingBuffer_drain (Suc f) r =
     (case RingBuffer_pop r of (False, _, r') \<Rightarrow> Some r' | (True, _, r') \<Rightarrow> RingBuffer_drain f r')"

subsection \<open>Representation\<close>

abbreviation slots :: "'a ring_buffer \<Rightarrow> nat" where
  "slots r \<equiv> unat (capacity r) + 1"

definition rb_rep :: "'a ring_buffer \<Rightarrow> 'a list \<Rightarrow> bool" where
  "rb_rep r xs \<longleftrightarrow> slots r < 2 ^ 64 \<and> length xs \<le> unat (capacity r) \<and>
     unat (rpos r) + length xs = unat (wpos r) \<and>
     (\<forall>i < length xs. buf r ((unat (rpos r) + i) mod slots r) = Some (xs ! i))"

text \<open>What a writer owes: the write index does not wrap, or the wrap keeps the slots.\<close>

definition rb_ok :: "'a ring_buffer \<Rightarrow> 'a \<Rightarrow> bool" where
  "rb_ok r a \<longleftrightarrow> unat (wpos r) + 1 < 2 ^ 64 \<or> slots r dvd 2 ^ 64"

definition rb_enq :: "'a \<Rightarrow> 'a ring_buffer \<Rightarrow> 'a ring_buffer option" where
  "rb_enq a r = (case RingBuffer_push a r of (True, r') \<Rightarrow> Some r' | (False, _) \<Rightarrow> None)"

definition rb_deq :: "'a ring_buffer \<Rightarrow> ('a \<times> 'a ring_buffer) option" where
  "rb_deq r = (case RingBuffer_pop r of (True, Some x, r') \<Rightarrow> Some (x, r') | _ \<Rightarrow> None)"

lemma mod_slots: "slots r < 2 ^ 64 \<Longrightarrow> unat (w mod (capacity r + 1)) = unat w mod slots r"
  by (simp only: unat_mod_distrib unat_Suc_u64)

lemma rb_size: "rb_rep r xs \<Longrightarrow> RingBuffer_size r = of_nat (length xs) \<and> unat (RingBuffer_size r) = length xs"
proof -
  assume r: "rb_rep r xs"
  then have "unat (wpos r - rpos r) = unat (wpos r) - unat (rpos r)"
    by (intro unat_sub) (simp add: rb_rep_def word_le_nat_alt)
  then have u: "unat (RingBuffer_size r) = length xs" using r by (auto simp: rb_rep_def RingBuffer_size_def)
  have "RingBuffer_size r = of_nat (unat (RingBuffer_size r))" by simp
  with u show ?thesis by metis
qed

lemma rb_full: "rb_rep r xs \<Longrightarrow> RingBuffer_full r \<longleftrightarrow> length xs = unat (capacity r)"
  using rb_size [of r xs] by (auto simp: RingBuffer_full_def word_unat_eq_iff)

lemma rb_empty: "rb_rep r xs \<Longrightarrow> RingBuffer_empty r \<longleftrightarrow> xs = []"
  using rb_size [of r xs] by (auto simp: RingBuffer_empty_def word_unat_eq_iff)

lemma rb_new: "unat cap + 1 < 2 ^ 64 \<Longrightarrow> rb_rep (RingBuffer_new cap) []"
  by (simp add: rb_rep_def RingBuffer_new_def)

text \<open>Positions less than \<open>n\<close> apart differ modulo \<open>n\<close>.\<close>

lemma mod_neq: "(i::nat) < j \<Longrightarrow> j - i < n \<Longrightarrow> i mod n \<noteq> j mod n"
proof
  assume "i < j" "j - i < n" "i mod n = j mod n"
  then have "n dvd j - i" by (metis mod_eq_dvd_iff_nat less_imp_le_nat)
  with \<open>i < j\<close> \<open>j - i < n\<close> show False by (meson nat_dvd_not_less zero_less_diff)
qed

lemma rb_slots_after_push:
  assumes "rb_rep r xs" and "length xs < unat (capacity r)" and "i < length (xs @ [a])"
  shows "((buf r)(unat (wpos r) mod slots r := Some a)) ((unat (rpos r) + i) mod slots r) = Some ((xs @ [a]) ! i)"
proof (cases "i = length xs")
  case True
  then show ?thesis using assms(1) by (simp add: rb_rep_def)
next
  case False
  then have i: "i < length xs" using assms(3) by simp
  then have "(unat (rpos r) + i) mod slots r \<noteq> unat (wpos r) mod slots r"
    using assms(1,2) by (intro mod_neq) (auto simp: rb_rep_def)
  then show ?thesis using i assms(1) by (simp add: rb_rep_def nth_append)
qed

lemma push_no_wrap:
  assumes "rb_rep r xs" and "length xs < unat (capacity r)" and "unat (wpos r) + 1 < 2 ^ 64"
  shows "\<exists>r'. RingBuffer_push a r = (True, r') \<and> rb_rep r' (xs @ [a])"
proof -
  have sl: "slots r < 2 ^ 64" using assms(1) by (simp add: rb_rep_def)
  have w: "unat (wpos r + 1) = unat (wpos r) + 1" using unat_Suc_u64 assms(3) by blast
  then have "wpos r + 1 \<noteq> 0" by auto
  moreover have "\<not> RingBuffer_full r" using rb_full [OF assms(1)] assms(2) by simp
  ultimately show ?thesis using rb_slots_after_push [OF assms(1,2), of _ a] assms(1,2) w
    by (auto simp: RingBuffer_push_def Let_def pwrite_def mod_slots [OF sl] rb_rep_def)
qed

lemma dvd_mod_shift: "n dvd m \<Longrightarrow> (m + i) mod n = i mod (n::nat)"
  by (metis dvd_imp_mod_0 mod_add_left_eq add_0)

text \<open>The rebase: both indices move by a multiple of the number of slots when that number
  divides \<open>2 ^ 64\<close>.\<close>

lemma push_wrap:
  assumes r: "rb_rep r xs" and le: "length xs < unat (capacity r)"
    and w: "unat (wpos r) + 1 = 2 ^ 64" and dv: "slots r dvd 2 ^ 64"
  shows "\<exists>r'. RingBuffer_push a r = (True, r') \<and> rb_rep r' (xs @ [a])"
proof -
  have sl: "slots r < 2 ^ 64" using r by (simp add: rb_rep_def)
  have rd: "unat (rpos r) + length xs + 1 = 2 ^ 64" using r w by (simp add: rb_rep_def)
  have "of_nat (unat (wpos r) + 1) = (of_nat (2 ^ 64) :: u64)" using w by simp
  then have w0: "wpos r + 1 = 0" by simp
  have cap: "unat (capacity r + 1) = slots r" using unat_Suc_u64 sl by blast
  have nr: "unat (rpos r + (capacity r + 1)) = slots r - Suc (length xs)"
  proof -
    have "unat (rpos r) + slots r = 2 ^ 64 + (slots r - Suc (length xs))" using rd le by simp
    then have "unat (rpos r + (capacity r + 1)) = (2 ^ 64 + (slots r - Suc (length xs))) mod 2 ^ 64"
      unfolding cap [symmetric] by (simp add: unat_word_ariths)
    then show ?thesis using sl by simp
  qed
  have nf: "\<not> RingBuffer_full r" using rb_full [OF r] le by simp
  have ix: "(slots r - Suc (length xs) + i) mod slots r = (unat (rpos r) + i) mod slots r" if "i \<le> length xs" for i
  proof -
    have "2 ^ 64 + (slots r - Suc (length xs) + i) = slots r + (unat (rpos r) + i)" using rd le by simp
    then show ?thesis using dvd_mod_shift [OF dv, of "slots r - Suc (length xs) + i"] by (metis mod_add_self1)
  qed
  have sz: "slots r - Suc (length xs) + Suc (length xs) = slots r" using le by simp
  show ?thesis
    using rb_slots_after_push [OF r le, of _ a] le sl nf w0 nr ix sz
    by (simp add: RingBuffer_push_def Let_def pwrite_def mod_slots [OF sl] rb_rep_def cap)
qed

lemma rb_push_rep:
  assumes "rb_rep r xs" and "length xs < unat (capacity r)" and "rb_ok r a"
  shows "\<exists>r'. RingBuffer_push a r = (True, r') \<and> rb_rep r' (xs @ [a])"
proof (cases "unat (wpos r) + 1 < 2 ^ 64")
  case True
  then show ?thesis by (rule push_no_wrap [OF assms(1,2)])
next
  case False
  have "unat (wpos r) < 2 ^ 64" using unsigned_less [of "wpos r"] by simp
  with False have w: "unat (wpos r) + 1 = 2 ^ 64" by linarith
  have "slots r dvd 2 ^ 64" using assms(3) False by (metis rb_ok_def)
  then show ?thesis by (rule push_wrap [OF assms(1,2) w])
qed

lemma rb_push_full: "rb_rep r xs \<Longrightarrow> length xs = unat (capacity r) \<Longrightarrow> RingBuffer_push a r = (False, r)"
  using rb_full [of r xs] by (simp add: RingBuffer_push_def)

lemma rb_pop_rep:
  assumes r: "rb_rep r (x # xs)"
  shows "\<exists>r'. RingBuffer_pop r = (True, Some x, r') \<and> rb_rep r' xs \<and> capacity r' = capacity r"
proof -
  have sl: "slots r < 2 ^ 64" and e: "\<not> RingBuffer_empty r"
    using r rb_empty [OF r] by (auto simp: rb_rep_def)
  have w: "unat (wpos r) < 2 ^ 64" using unsigned_less [of "wpos r"] by simp
  then have u: "unat (rpos r + 1) = unat (rpos r) + 1"
    using r by (intro unat_Suc_u64) (simp add: rb_rep_def)
  have hx: "buf r (unat (rpos r) mod slots r) = Some x"
    using r by (force simp: rb_rep_def)
  have tl: "((buf r)(unat (rpos r) mod slots r := None)) ((unat (rpos r) + 1 + i) mod slots r) = Some (xs ! i)"
    if i: "i < length xs" for i
  proof -
    have "unat (rpos r) mod slots r \<noteq> (unat (rpos r) + Suc i) mod slots r"
      using r i by (intro mod_neq) (auto simp: rb_rep_def)
    moreover have "buf r ((unat (rpos r) + Suc i) mod slots r) = Some ((x # xs) ! Suc i)"
      using r i unfolding rb_rep_def by (metis Suc_less_eq length_Cons)
    ultimately show ?thesis by simp
  qed
  show ?thesis using r e hx tl u by (simp add: RingBuffer_pop_def pread_def mod_slots [OF sl] rb_rep_def)
qed

lemma rb_pop_nil: "rb_rep r [] \<Longrightarrow> RingBuffer_pop r = (False, None, r)"
  using rb_empty [of r "[]"] by (simp add: RingBuffer_pop_def)

lemma drain_rep:
  "rb_rep r xs \<Longrightarrow> length xs < fuel \<Longrightarrow> \<exists>r'. RingBuffer_drain fuel r = Some r' \<and> rb_rep r' []"
proof (induction xs arbitrary: r fuel)
  case Nil
  then show ?case using rb_pop_nil [OF Nil(1)] by (cases fuel) auto
next
  case (Cons x xs)
  then show ?case using rb_pop_rep [OF Cons.prems(1)] by (cases fuel) auto
qed

interpretation rb_fifo: fifo rb_rep rb_ok rb_enq rb_deq
proof unfold_locales
  fix r :: "'a ring_buffer" and xs a r'
  assume r: "rb_rep r xs" and "rb_ok r a" and "rb_enq a r = Some r'"
  then show "rb_rep r' (xs @ [a])"
    using rb_push_rep [OF r, of a] rb_push_full [OF r, of a]
    by (cases "length xs = unat (capacity r)") (auto simp: rb_enq_def rb_rep_def)
next
  fix r :: "'a ring_buffer" assume "rb_rep r []"
  then show "rb_deq r = None" using rb_pop_nil [of r] by (simp add: rb_deq_def)
next
  fix r :: "'a ring_buffer" and x xs assume "rb_rep r (x # xs)"
  then show "\<exists>r'. rb_deq r = Some (x, r') \<and> rb_rep r' xs" using rb_pop_rep [of r x xs] by (auto simp: rb_deq_def)
qed

subsection \<open>Properties\<close>

text \<open>A ring buffer of capacity \<open>c\<close> accepts an element exactly when it holds fewer than
  \<open>c\<close>, and then holds it last; this includes the wrap of the write index when
  \<open>c + 1\<close> divides \<open>2 ^ 64\<close>. A full buffer is left unchanged.\<close>

lemma RingBuffer_push_exact:
  assumes "rb_rep r xs" and "rb_ok r a"
  shows "if length xs < unat (capacity r)
    then \<exists>r'. RingBuffer_push a r = (True, r') \<and> rb_rep r' (xs @ [a])
    else RingBuffer_push a r = (False, r)"
proof (cases "length xs < unat (capacity r)")
  case True
  then show ?thesis using rb_push_rep [OF assms(1) True assms(2)] by simp
next
  case False
  then have "length xs = unat (capacity r)" using assms(1) by (simp add: rb_rep_def)
  then show ?thesis using rb_push_full [OF assms(1), of a] by simp
qed


text \<open>The rebase of the indices does not keep the elements when \<open>capacity_ + 1\<close> does not
  divide \<open>2 ^ 64\<close>: on a buffer of capacity 2 that holds one element and whose write index is
  at its maximum, a push that reports success makes the next pop read a slot that holds
  neither.\<close>

definition rb_edge :: "nat ring_buffer" where
  "rb_edge = \<lparr>buf = (\<lambda>_. None)(2 := Some 10), capacity = 2, wpos = 0xFFFFFFFFFFFFFFFF, rpos = 0xFFFFFFFFFFFFFFFE\<rparr>"

lemma RingBuffer_rebase_loses:
  "rb_rep rb_edge [10] \<and> fst (RingBuffer_push 11 rb_edge) \<and>
   fst (snd (RingBuffer_pop (snd (RingBuffer_push 11 rb_edge)))) = None"
  by (simp add: rb_rep_def rb_edge_def RingBuffer_push_def RingBuffer_pop_def RingBuffer_full_def
      RingBuffer_empty_def RingBuffer_size_def pwrite_def pread_def Let_def)

lemma rb_new3: "rb_rep (RingBuffer_new 3 :: nat ring_buffer) []"
  by (rule rb_new) simp


end
