(* ===== verification/Locked_Channel.thy ===== *)
theory Locked_Channel
  imports Cond_Var Ring_Buffer
begin

text \<open>
  The mutex-protected channel of \<open>include/co/sync/locked_channel_impl.h\<close> behind the
  interface of \<open>include/co/sync/channel.h\<close>. The buffer is a ring or a list; blocked writers
  and readers queue in two condition variables with a pointer to their value, so a blocked
  call is an entry plus a cell of the memory \<open>addr \<Rightarrow> 'a\<close>. A call runs under the mutex up to its
  return or its suspension; the part after the suspension is a second function.
  The abstract channel is the sequence of values not yet taken (buffered, then held by
  blocked writers) and the sequence of waiting readers; every operation refines it.
\<close>

record 'a locked_channel =
  chcap :: u64
  closed :: bool
  useRingBuffer :: bool
  rq_ring :: "'a ring_buffer"     \<comment> \<open>\<open>q_\<close>\<close>
  lq :: "'a list"
  wq :: "addr cv_entry list"
  rq :: "addr cv_entry list"

type_synonym 'a chan_state = "'a locked_channel \<times> (addr \<Rightarrow> 'a)"

datatype outcome = Done bool | Blocked

definition LockedChannel_new :: "u64 \<Rightarrow> bool \<Rightarrow> 'a locked_channel" where
  "LockedChannel_new cap ring =
     \<lparr>chcap = cap, closed = False, useRingBuffer = ring,
      rq_ring = RingBuffer_new (if ring then cap else 1), lq = [], wq = [], rq = []\<rparr>"

text \<open>The constructor of \<open>Channel\<close> picks the implementation; \<open>None\<close> is the lock-free one.\<close>

definition Channel_new :: "u64 \<Rightarrow> u64 \<Rightarrow> u64 \<Rightarrow> 'a locked_channel option" where
  "Channel_new cap choose1 choose2 =
     (if cap < choose1 then None else Some (LockedChannel_new cap (cap < choose2)))"

definition chan_push :: "'a \<Rightarrow> 'a locked_channel \<Rightarrow> bool \<times> 'a locked_channel" where
  "chan_push t ch =
     (if useRingBuffer ch then (let (b, r) = RingBuffer_push t (rq_ring ch) in (b, ch\<lparr>rq_ring := r\<rparr>))
      else if chcap ch \<le> of_nat (length (lq ch)) then (False, ch)
      else (True, ch\<lparr>lq := lq ch @ [t]\<rparr>))"

definition chan_pop :: "'a locked_channel \<Rightarrow> bool \<times> 'a option \<times> 'a locked_channel" where
  "chan_pop ch =
     (if useRingBuffer ch then (let (b, v, r) = RingBuffer_pop (rq_ring ch) in (b, v, ch\<lparr>rq_ring := r\<rparr>))
      else case lq ch of [] \<Rightarrow> (False, None, ch) | t # ts \<Rightarrow> (True, Some t, ch\<lparr>lq := ts\<rparr>))"

definition chan_Size :: "'a locked_channel \<Rightarrow> u64" where
  "chan_Size ch = (if useRingBuffer ch then RingBuffer_size (rq_ring ch) else of_nat (length (lq ch)))"

definition chan_Empty :: "'a locked_channel \<Rightarrow> bool" where
  "chan_Empty ch \<longleftrightarrow> chan_Size ch = 0"

text \<open>\<open>pop(*p)\<close> and \<open>push(*p)\<close>, the functors given to \<open>notify_one\<close>.\<close>

definition pop_into :: "addr \<Rightarrow> 'a chan_state \<Rightarrow> 'a chan_state" where
  "pop_into p = (\<lambda>(ch, m). let (b, v, ch') = chan_pop ch in (ch', case v of None \<Rightarrow> m | Some x \<Rightarrow> m(p := x)))"

definition push_from :: "addr \<Rightarrow> 'a chan_state \<Rightarrow> 'a chan_state" where
  "push_from p = (\<lambda>(ch, m). (snd (chan_push (m p) ch), m))"

definition write_to :: "'a \<Rightarrow> addr \<Rightarrow> 'a chan_state \<Rightarrow> 'a chan_state" where
  "write_to t p = (\<lambda>(ch, m). (ch, m(p := t)))"

definition notify_rq :: "(addr \<Rightarrow> 'a chan_state \<Rightarrow> 'a chan_state) \<Rightarrow> 'a chan_state \<Rightarrow> bool \<times> 'a chan_state" where
  "notify_rq f s = (let (b, es, (ch, m)) = notify_one f (rq (fst s)) s in (b, ch\<lparr>rq := es\<rparr>, m))"

definition notify_wq :: "(addr \<Rightarrow> 'a chan_state \<Rightarrow> 'a chan_state) \<Rightarrow> 'a chan_state \<Rightarrow> bool \<times> 'a chan_state" where
  "notify_wq f s = (let (b, es, (ch, m)) = notify_one f (wq (fst s)) s in (b, ch\<lparr>wq := es\<rparr>, m))"

text \<open>\<open>Push(t, bWait)\<close>; \<open>p\<close> is the address of the parameter \<open>t\<close>.\<close>

definition chan_Push :: "'a \<Rightarrow> addr \<Rightarrow> bool \<Rightarrow> 'a chan_state \<Rightarrow> outcome \<times> 'a chan_state" where
  "chan_Push t p bWait s =
     (if closed (fst s) then (Done False, s)
      else let (hit, s1) = (if chcap (fst s) = 0 then notify_rq (write_to t) s else (False, s))
           in if hit then (Done True, s1)
              else let (ok, ch2) = (if 0 < chcap (fst s1) then chan_push t (fst s1) else (False, fst s1));
                       s2 = (ch2, snd s1)
                   in if ok then (Done True, if chan_Size ch2 = 1 then snd (notify_rq pop_into s2) else s2)
                      else if \<not> bWait then (Done False, s2)
                      else (Blocked, (fst s2)\<lparr>wq := snd (do_wait_enqueue None 0 p (wq (fst s2)))\<rparr>, (snd s2)(p := t)))"

text \<open>\<open>Pop(t, bWait)\<close>; \<open>p\<close> is the address of the caller's variable.\<close>

definition chan_Pop :: "addr \<Rightarrow> bool \<Rightarrow> 'a chan_state \<Rightarrow> outcome \<times> 'a chan_state" where
  "chan_Pop p bWait s =
     (if closed (fst s) then (Done False, s)
      else let (ok, s1) =
             (if 0 < chcap (fst s)
              then (let (b, v, ch1) = chan_pop (fst s);
                        s1 = (ch1, case v of None \<Rightarrow> snd s | Some x \<Rightarrow> (snd s)(p := x))
                    in (b, if b \<and> chan_Size ch1 = chcap ch1 - 1 then snd (notify_wq push_from s1) else s1))
              else notify_wq (\<lambda>q (ch, m). (ch, m(p := m q))) s)
           in if ok then (Done True, s1)
              else if \<not> bWait then (Done False, s1)
              else (Blocked, (fst s1)\<lparr>rq := snd (do_wait_enqueue None 0 p (rq (fst s1)))\<rparr>, snd s1))"

text \<open>After the suspension: \<open>None\<close> is the failed assertion of the default branch.\<close>

definition chan_resume :: "cv_status \<Rightarrow> 'a locked_channel \<Rightarrow> bool option" where
  "chan_resume st ch = (case st of no_timeout \<Rightarrow> Some (\<not> closed ch) | timeout \<Rightarrow> Some False | no_queued \<Rightarrow> None)"

definition chan_Close :: "'a chan_state \<Rightarrow> 'a chan_state" where
  "chan_Close s =
     (if closed (fst s) then s
      else let ch = (fst s)\<lparr>closed := True\<rparr>
           in (ch\<lparr>rq := fst (snd (notify_all (\<lambda>_ x. x) (rq ch) ())), wq := fst (snd (notify_all (\<lambda>_ x. x) (wq ch) ()))\<rparr>, snd s))"

subsection \<open>The buffer\<close>

text \<open>The buffer holds \<open>xs\<close> and respects the capacity.\<close>

definition buf_rep :: "'a locked_channel \<Rightarrow> 'a list \<Rightarrow> bool" where
  "buf_rep ch xs \<longleftrightarrow> length xs \<le> unat (chcap ch) \<and>
     (if useRingBuffer ch then rb_rep (rq_ring ch) xs \<and> capacity (rq_ring ch) = chcap ch else lq ch = xs)"

text \<open>The next insertion does not run into the rebase of the ring's indices.\<close>

definition buf_ok :: "'a locked_channel \<Rightarrow> bool" where
  "buf_ok ch \<longleftrightarrow> (useRingBuffer ch \<longrightarrow> (\<forall>t. rb_ok (rq_ring ch) t))"

lemma buf_size: "buf_rep ch xs \<Longrightarrow> unat (chan_Size ch) = length xs"
proof -
  assume r: "buf_rep ch xs"
  have "unat (chcap ch) < 2 ^ 64" using unsigned_less [of "chcap ch"] by simp
  then have "length xs < 2 ^ 64" using r by (simp add: buf_rep_def)
  then show ?thesis using r rb_size [of "rq_ring ch" xs]
    by (auto simp: buf_rep_def chan_Size_def unat_of_nat_u64)
qed

lemma buf_push:
  assumes "buf_rep ch xs" and "length xs < unat (chcap ch)" and "buf_ok ch"
  shows "\<exists>ch'. chan_push t ch = (True, ch') \<and> buf_rep ch' (xs @ [t]) \<and> ch' = ch\<lparr>rq_ring := rq_ring ch', lq := lq ch'\<rparr>"
proof (cases "useRingBuffer ch")
  case True
  then have "rb_rep (rq_ring ch) xs" "capacity (rq_ring ch) = chcap ch" "rb_ok (rq_ring ch) t"
    using assms by (auto simp: buf_rep_def buf_ok_def)
  with rb_push_rep [of "rq_ring ch" xs t] assms(2) obtain r where
    "RingBuffer_push t (rq_ring ch) = (True, r)" "rb_rep r (xs @ [t])" by auto
  moreover from this have "capacity r = capacity (rq_ring ch)"
    by (auto simp: RingBuffer_push_def Let_def split: if_splits)
  ultimately show ?thesis using True assms by (auto simp: chan_push_def buf_rep_def)
next
  case False
  have "\<not> chcap ch \<le> of_nat (length xs)"
    using buf_size [OF assms(1)] assms(1,2) False by (auto simp: chan_Size_def buf_rep_def word_le_nat_alt)
  then show ?thesis using False assms by (auto simp: chan_push_def buf_rep_def)
qed

lemma buf_push_full:
  assumes "buf_rep ch xs" and "length xs = unat (chcap ch)"
  shows "chan_push t ch = (False, ch)"
proof (cases "useRingBuffer ch")
  case True
  then show ?thesis using assms rb_push_full [of "rq_ring ch" xs t] by (auto simp: chan_push_def buf_rep_def)
next
  case False
  have "chcap ch \<le> of_nat (length xs)" using assms(2) by (simp add: word_le_nat_alt)
  then show ?thesis using False assms(1) by (auto simp: chan_push_def buf_rep_def)
qed

lemma buf_pop_nil: "buf_rep ch [] \<Longrightarrow> chan_pop ch = (False, None, ch)"
  using rb_pop_nil [of "rq_ring ch"] by (auto simp: buf_rep_def chan_pop_def)

lemma buf_pop:
  assumes "buf_rep ch (x # xs)"
  shows "\<exists>ch'. chan_pop ch = (True, Some x, ch') \<and> buf_rep ch' xs \<and> ch' = ch\<lparr>rq_ring := rq_ring ch', lq := lq ch'\<rparr>"
  using assms rb_pop_rep [of "rq_ring ch" x xs]
  by (cases "useRingBuffer ch") (auto simp: buf_rep_def chan_pop_def Let_def)

subsection \<open>The abstract channel\<close>

text \<open>
  \<open>chan_rep s pend rds\<close>: \<open>pend\<close> are the values not yet taken, oldest first, and \<open>rds\<close> the
  cells of the waiting readers. Writers wait only while the buffer is full, readers only
  while no value is pending.
\<close>

definition chan_rep :: "'a chan_state \<Rightarrow> 'a list \<Rightarrow> addr list \<Rightarrow> bool" where
  "chan_rep s pend rds \<longleftrightarrow> (\<exists>xs. buf_rep (fst s) xs \<and> pend = xs @ map (snd s) (live (wq (fst s))) \<and>
     rds = live (rq (fst s)) \<and> distinct (rds @ live (wq (fst s))) \<and>
     (live (wq (fst s)) \<noteq> [] \<longrightarrow> length xs = unat (chcap (fst s))) \<and> (rds \<noteq> [] \<longrightarrow> pend = []))"

definition fresh :: "addr \<Rightarrow> 'a locked_channel \<Rightarrow> bool" where
  "fresh p ch \<longleftrightarrow> p \<notin> set (live (rq ch)) \<and> p \<notin> set (live (wq ch))"

lemma chan_new_rep: "unat cap + 1 < 2 ^ 64 \<Longrightarrow> chan_rep (LockedChannel_new cap ring, m) [] []"
  by (simp add: chan_rep_def LockedChannel_new_def buf_rep_def rb_new) (simp add: RingBuffer_new_def)

lemma buf_rep_queues [simp]:
  "buf_rep (ch\<lparr>rq := es\<rparr>) xs = buf_rep ch xs" "buf_rep (ch\<lparr>wq := es\<rparr>) xs = buf_rep ch xs"
  by (simp_all add: buf_rep_def)

lemma chan_queues_kept:
  "ch' = ch\<lparr>rq_ring := a, lq := b\<rparr> \<Longrightarrow> wq ch' = wq ch \<and> rq ch' = rq ch \<and> chcap ch' = chcap ch \<and> closed ch' = closed ch \<and>
     useRingBuffer ch' = useRingBuffer ch"
  by simp

lemma map_upd_notin: "p \<notin> set ps \<Longrightarrow> map (m(p := t)) ps = map m ps"
  by (induction ps) auto

lemma notify_rq_none: "live (rq (fst s)) = [] \<Longrightarrow> notify_rq f s = (False, (fst s)\<lparr>rq := []\<rparr>, snd s)"
  by (cases s) (simp add: notify_rq_def notify_one_none)

lemma notify_wq_none: "live (wq (fst s)) = [] \<Longrightarrow> notify_wq f s = (False, (fst s)\<lparr>wq := []\<rparr>, snd s)"
  by (cases s) (simp add: notify_wq_def notify_one_none)

lemma notify_rq_some:
  assumes "live (rq (fst s)) = r # rs"
  shows "\<exists>es. notify_rq f s = (True, (fst (f r s))\<lparr>rq := es\<rparr>, snd (f r s)) \<and> live es = rs"
  using notify_one_some [OF assms, of f s] by (cases "f r s") (auto simp: notify_rq_def)

lemma notify_wq_some:
  assumes "live (wq (fst s)) = w # ws"
  shows "\<exists>es. notify_wq f s = (True, (fst (f w s))\<lparr>wq := es\<rparr>, snd (f w s)) \<and> live es = ws"
  using notify_one_some [OF assms, of f s] by (cases "f w s") (auto simp: notify_wq_def)

subsection \<open>Push\<close>

lemma Push_to_reader:
  assumes r: "chan_rep (ch, m) pend (r # rs)" and "\<not> closed ch" and ok: "buf_ok ch"
  shows "\<exists>s'. chan_Push t p w (ch, m) = (Done True, s') \<and> chan_rep s' [] rs \<and> snd s' = m(r := t) \<and> \<not> closed (fst s')"
proof -
  have b: "buf_rep ch []" and lw: "live (wq ch) = []" and lr: "live (rq ch) = r # rs" and di: "distinct (r # rs)"
    using r by (auto simp: chan_rep_def)
  show ?thesis
  proof (cases "chcap ch = 0")
    case True
    obtain es where "notify_rq (write_to t) (ch, m) = (True, ch\<lparr>rq := es\<rparr>, m(r := t))" "live es = rs"
      using notify_rq_some [of "(ch, m)" r rs "write_to t"] lr by (auto simp: write_to_def)
    then show ?thesis using True assms(2) b lw di by (auto simp: chan_Push_def chan_rep_def)
  next
    case False
    then have c: "0 < unat (chcap ch)" "0 < chcap ch" by (auto simp: word_neq_0_conv unat_gt_0)
    obtain ch' where p1: "chan_push t ch = (True, ch')" "buf_rep ch' [t]" "ch' = ch\<lparr>rq_ring := rq_ring ch', lq := lq ch'\<rparr>"
      using buf_push [OF b _ ok, of t] c by auto
    note k1 = chan_queues_kept [OF p1(3)]
    have s1: "chan_Size ch' = 1" using buf_size [OF p1(2)] by (simp add: word_unat_eq_iff)
    obtain ch2 where p2: "chan_pop ch' = (True, Some t, ch2)" "buf_rep ch2 []" "ch2 = ch'\<lparr>rq_ring := rq_ring ch2, lq := lq ch2\<rparr>"
      using buf_pop [OF p1(2)] by auto
    note k2 = chan_queues_kept [OF p2(3)]
    have pi: "pop_into r (ch', m) = (ch2, m(r := t))" using p2(1) by (simp add: pop_into_def)
    obtain es where "notify_rq pop_into (ch', m) = (True, ch2\<lparr>rq := es\<rparr>, m(r := t))" "live es = rs"
      using notify_rq_some [of "(ch', m)" r rs pop_into] lr k1 pi by auto
    then show ?thesis using False c(2) assms(2) p1(1) s1 p2(2) k1 k2 lw di
      by (auto simp: chan_Push_def chan_rep_def Let_def)
  qed
qed

lemma Push_no_reader:
  assumes r: "chan_rep (ch, m) pend []" and "\<not> closed ch" and ok: "buf_ok ch" and fr: "fresh p ch"
  shows "\<exists>s'. chan_Push t p w (ch, m) =
      (if length pend < unat (chcap ch) then Done True else if w then Blocked else Done False, s') \<and>
    chan_rep s' (if length pend < unat (chcap ch) \<or> w then pend @ [t] else pend) [] \<and> \<not> closed (fst s') \<and>
    (live (wq ch) = [] \<longrightarrow> \<not> w \<longrightarrow> live (wq (fst s')) = [])"
proof -
  obtain xs where b: "buf_rep ch xs" and pe: "pend = xs @ map m (live (wq ch))" and lr: "live (rq ch) = []"
    and di: "distinct (live (wq ch))" and full: "live (wq ch) \<noteq> [] \<longrightarrow> length xs = unat (chcap ch)"
    using r unfolding chan_rep_def by fastforce
  have first: "(if chcap ch = 0 then notify_rq (write_to t) (ch, m) else (False, ch, m)) =
      (False, if chcap ch = 0 then ch\<lparr>rq := []\<rparr> else ch, m)"
    using notify_rq_none [of "(ch, m)"] lr by simp
  show ?thesis
  proof (cases "length pend < unat (chcap ch)")
    case True
    then have lw: "live (wq ch) = []" and px: "pend = xs" using pe full by auto
    have c: "chcap ch \<noteq> 0" "0 < chcap ch" using True by (auto simp: word_less_nat_alt)
    obtain ch' where p1: "chan_push t ch = (True, ch')" "buf_rep ch' (xs @ [t])" "ch' = ch\<lparr>rq_ring := rq_ring ch', lq := lq ch'\<rparr>"
      using buf_push [OF b _ ok, of t] True px by auto
    note k1 = chan_queues_kept [OF p1(3)]
    define s2 where "s2 = (if chan_Size ch' = 1 then snd (notify_rq pop_into (ch', m)) else (ch', m))"
    have "chan_rep s2 (xs @ [t]) [] \<and> \<not> closed (fst s2) \<and> live (wq (fst s2)) = []"
      using notify_rq_none [of "(ch', m)" pop_into] lr lw k1 p1(2) assms(2) by (auto simp: s2_def chan_rep_def)
    moreover have "chan_Push t p w (ch, m) = (Done True, s2)"
      using c p1(1) assms(2) by (simp add: chan_Push_def Let_def s2_def)
    ultimately show ?thesis using True px by simp
  next
    case False
    have fl: "length xs = unat (chcap ch)" using False pe full b by (cases "live (wq ch) = []") (auto simp: buf_rep_def)
    define ch1 where "ch1 = (if chcap ch = 0 then ch\<lparr>rq := []\<rparr> else ch)"
    have k: "wq ch1 = wq ch" "live (rq ch1) = []" "chcap ch1 = chcap ch" "\<not> closed ch1" "buf_rep ch1 xs"
      using lr b assms(2) by (auto simp: ch1_def)
    have nopush: "chan_push t ch1 = (False, ch1)"
      using buf_push_full [OF k(5)] fl k(3) by simp
    have out: "chan_Push t p w (ch, m) = (if w then (Blocked, ch1\<lparr>wq := wq ch1 @ [new_Entry p]\<rparr>, m(p := t)) else (Done False, ch1, m))"
      using first nopush assms(2) by (simp add: chan_Push_def ch1_def [symmetric] do_wait_enqueue_def Let_def)
    have blk: "chan_rep (ch1\<lparr>wq := wq ch1 @ [new_Entry p]\<rparr>, m(p := t)) (pend @ [t]) []"
      using k fl di fr pe map_upd_notin [of p "live (wq ch)" m t] by (simp add: chan_rep_def fresh_def)
    have same: "chan_rep (ch1, m) pend []" using k r b pe di full by (auto simp: chan_rep_def)
    show ?thesis using False out blk same k(1,4) by simp
  qed
qed

subsection \<open>Pop\<close>

lemma Pop_pending:
  assumes r: "chan_rep (ch, m) (x # pend) rds" and nc: "\<not> closed ch" and fr: "fresh p ch" and ok: "live (wq ch) \<noteq> [] \<longrightarrow> buf_ok ch"
  shows "\<exists>s'. chan_Pop p w (ch, m) = (Done True, s') \<and> chan_rep s' pend [] \<and> snd s' p = x \<and> \<not> closed (fst s') \<and>
    (live (wq ch) = [] \<longrightarrow> live (wq (fst s')) = [])"
proof -
  obtain xs where b: "buf_rep ch xs" and pe: "x # pend = xs @ map m (live (wq ch))" and lr: "live (rq ch) = []"
    and di: "distinct (live (wq ch))" and full: "live (wq ch) \<noteq> [] \<longrightarrow> length xs = unat (chcap ch)"
    using r unfolding chan_rep_def by fastforce
  have fw: "p \<notin> set (live (wq ch))" using fr by (simp add: fresh_def)
  show ?thesis
  proof (cases "chcap ch = 0")
    case True
    then have xs: "xs = []" using b by (simp add: buf_rep_def)
    then obtain q ws where lw: "live (wq ch) = q # ws" and q: "m q = x" "map m ws = pend" using pe by auto
    obtain es where "notify_wq (\<lambda>q (ch, m). (ch, m(p := m q))) (ch, m) = (True, ch\<lparr>wq := es\<rparr>, m(p := m q))" "live es = ws"
      using notify_wq_some [of "(ch, m)" q ws "\<lambda>q (ch, m). (ch, m(p := m q))"] lw by auto
    then show ?thesis using True nc b lr di fw lw q xs map_upd_notin [of p ws m x]
      by (auto simp: chan_Pop_def chan_rep_def buf_rep_def)
  next
    case False
    then have c: "0 < unat (chcap ch)" "0 < chcap ch" by (auto simp: word_less_nat_alt unat_gt_0)
    then obtain ys where xs: "xs = x # ys" using pe full by (cases xs) auto
    have py: "pend = ys @ map m (live (wq ch))" using pe xs by simp
    obtain ch1 where p1: "chan_pop ch = (True, Some x, ch1)" "buf_rep ch1 ys" "ch1 = ch\<lparr>rq_ring := rq_ring ch1, lq := lq ch1\<rparr>"
      using buf_pop b xs by metis
    note k1 = chan_queues_kept [OF p1(3)]
    have sz: "chan_Size ch1 = chcap ch1 - 1 \<longleftrightarrow> length ys = unat (chcap ch) - 1"
      using buf_size [OF p1(2)] k1 c by (simp add: word_unat_eq_iff unat_minus_one)
    have mw: "map (m(p := x)) (live (wq ch)) = map m (live (wq ch))" using map_upd_notin [OF fw] .
    let ?s1 = "(ch1, m(p := x))"
    have main: "chan_rep s2 pend [] \<and> snd s2 p = x \<and> \<not> closed (fst s2) \<and> (live (wq ch) = [] \<longrightarrow> live (wq (fst s2)) = [])"
      if s2: "s2 = (if chan_Size ch1 = chcap ch1 - 1 then snd (notify_wq push_from ?s1) else ?s1)" for s2
    proof (cases "live (wq ch)")
      case Nil
      then have "chan_rep ?s1 pend []" "chan_rep (ch1\<lparr>wq := []\<rparr>, m(p := x)) pend []"
        using p1(2) py lr k1 by (auto simp: chan_rep_def)
      then show ?thesis using s2 notify_wq_none [of ?s1 push_from] Nil k1 nc by auto
    next
      case (Cons q ws)
      have fl: "length ys = unat (chcap ch) - 1" using full Cons xs by simp
      have okk: "buf_ok ch1" using ok Cons p1(1) k1 by (auto simp: buf_ok_def chan_pop_def RingBuffer_pop_def rb_ok_def Let_def split: if_splits)
      obtain ch2 where p2: "chan_push (m q) ch1 = (True, ch2)" "buf_rep ch2 (ys @ [m q])" "ch2 = ch1\<lparr>rq_ring := rq_ring ch2, lq := lq ch2\<rparr>"
        using buf_push [OF p1(2) _ okk, of "m q"] fl c k1 by auto
      note k2 = chan_queues_kept [OF p2(3)]
      have qp: "q \<noteq> p" using fw Cons by auto
      obtain es where "notify_wq push_from ?s1 = (True, ch2\<lparr>wq := es\<rparr>, m(p := x))" "live es = ws"
        using notify_wq_some [of ?s1 q ws push_from] Cons k1 p2(1) qp by (auto simp: push_from_def)
      then show ?thesis using s2 sz fl p2(2) py Cons lr di k1 k2 nc c mw by (auto simp: chan_rep_def)
    qed
    define s2 where "s2 = (if chan_Size ch1 = chcap ch1 - 1 then snd (notify_wq push_from ?s1) else ?s1)"
    have "chan_Pop p w (ch, m) = (Done True, s2)" using False c p1(1) nc by (simp add: chan_Pop_def Let_def s2_def)
    then show ?thesis using main [OF s2_def] by blast
  qed
qed

lemma Pop_empty:
  assumes r: "chan_rep (ch, m) [] rds" and nc: "\<not> closed ch" and fr: "fresh p ch"
  shows "\<exists>s'. chan_Pop p w (ch, m) = (if w then Blocked else Done False, s') \<and>
    chan_rep s' [] (if w then rds @ [p] else rds) \<and> \<not> closed (fst s')"
proof -
  have b: "buf_rep ch []" and lw: "live (wq ch) = []" and lr: "live (rq ch) = rds" and di: "distinct rds"
    using r by (auto simp: chan_rep_def)
  have n: "notify_wq f (ch, m) = (False, ch\<lparr>wq := []\<rparr>, m)" for f using notify_wq_none [of "(ch, m)"] lw by simp
  have p0: "chan_pop ch = (False, None, ch)" using buf_pop_nil [OF b] .
  show ?thesis using b lw lr di n p0 nc fr
    by (cases "0 < chcap ch") (auto simp: chan_Pop_def chan_rep_def fresh_def do_wait_enqueue_def new_Entry_def)
qed

subsection \<open>Non-blocking use is a bounded queue\<close>

text \<open>\<open>TryPush\<close> and \<open>TryPop\<close>; the temporary of a call is a cell that no waiter uses.\<close>

definition TryPush :: "'a \<Rightarrow> addr \<Rightarrow> 'a chan_state \<Rightarrow> outcome \<times> 'a chan_state" where
  "TryPush t p s = chan_Push t p False s"

definition TryPop :: "addr \<Rightarrow> 'a chan_state \<Rightarrow> outcome \<times> 'a chan_state" where
  "TryPop p s = chan_Pop p False s"

definition ch_rep :: "'a chan_state \<Rightarrow> 'a list \<Rightarrow> bool" where
  "ch_rep s xs \<longleftrightarrow> chan_rep s xs [] \<and> \<not> closed (fst s) \<and> live (wq (fst s)) = []"

definition ch_ok :: "'a chan_state \<Rightarrow> 'a \<Rightarrow> bool" where
  "ch_ok s t \<longleftrightarrow> buf_ok (fst s)"

definition ch_enq :: "'a \<Rightarrow> 'a chan_state \<Rightarrow> 'a chan_state option" where
  "ch_enq t s = (case TryPush t 0 s of (Done True, s') \<Rightarrow> Some s' | _ \<Rightarrow> None)"

definition ch_deq :: "'a chan_state \<Rightarrow> ('a \<times> 'a chan_state) option" where
  "ch_deq s = (case TryPop 0 s of (Done True, s') \<Rightarrow> Some (snd s' 0, s') | _ \<Rightarrow> None)"

lemma ch_fresh: "ch_rep s xs \<Longrightarrow> fresh p (fst s)"
  by (auto simp: ch_rep_def chan_rep_def fresh_def)

interpretation ch_fifo: fifo ch_rep ch_ok ch_enq ch_deq
proof unfold_locales
  fix s :: "'a chan_state" and xs a s'
  assume r: "ch_rep s xs" and "ch_ok s a" and e: "ch_enq a s = Some s'"
  moreover have "fresh 0 (fst s)" using ch_fresh [OF r] .
  ultimately show "ch_rep s' (xs @ [a])" using Push_no_reader [of "fst s" "snd s" xs 0 a False]
    by (auto simp: ch_rep_def ch_ok_def ch_enq_def TryPush_def split: if_splits)
next
  fix s :: "'a chan_state" assume r: "ch_rep s []"
  then show "ch_deq s = None" using Pop_empty [of "fst s" "snd s" "[]" 0 False] ch_fresh [OF r, of 0]
    by (auto simp: ch_rep_def ch_deq_def TryPop_def)
next
  fix s :: "'a chan_state" and x xs assume r: "ch_rep s (x # xs)"
  then show "\<exists>s'. ch_deq s = Some (x, s') \<and> ch_rep s' xs"
    using Pop_pending [of "fst s" "snd s" x xs "[]" 0 False] ch_fresh [OF r, of 0]
    by (auto simp: ch_rep_def ch_deq_def TryPop_def)
qed

subsection \<open>Properties\<close>



text \<open>Closing an open channel releases every waiter, each of which then reports failure, and
  from then on every push and pop fails without changing the channel.\<close>

lemma chan_Close_final:
  assumes "\<not> closed (fst s)"
  shows "live (rq (fst (chan_Close s))) = [] \<and> live (wq (fst (chan_Close s))) = [] \<and>
    chan_resume no_timeout (fst (chan_Close s)) = Some False \<and>
    chan_Push t p w (chan_Close s) = (Done False, chan_Close s) \<and>
    chan_Pop p w (chan_Close s) = (Done False, chan_Close s)"
  using assms notify_all_live [of "\<lambda>_ x. x" "rq (fst s)" "()"] notify_all_live [of "\<lambda>_ x. x" "wq (fst s)" "()"]
  by (auto simp: chan_Close_def chan_resume_def chan_Push_def chan_Pop_def Let_def)

text \<open>Used without blocking, an open channel is a queue: over any sequence of \<open>TryPush\<close> and
  \<open>TryPop\<close>, the values taken followed by the values pending are the values pending at the
  start followed by the values accepted.\<close>

lemma channel_fifo_order:
  assumes "ch_rep s xs" and "ch_fifo.run cs s = (ins, outs, s')"
  shows "\<exists>xs'. ch_rep s' xs' \<and> xs @ ins = outs @ xs'"
  using assms by (rule ch_fifo.run_conserves)

subsection \<open>Instances\<close>

definition ch1 :: "nat chan_state" where
  "ch1 = (LockedChannel_new 1 False, \<lambda>_. 0)"

lemma ch1_rep: "chan_rep (LockedChannel_new 1 False, \<lambda>_. (0::nat)) [] []"
  by (rule chan_new_rep) simp



end
