(* ===== verification/Atomic_Ops.thy ===== *)
theory Atomic_Ops
  imports Co_Prelude
begin

unbundle bit_operations_syntax

text \<open>
  The atomic helpers of \<open>include/util/atomic_helpers.h\<close> on a machine word. An operation
  yields the value returned, the value left in memory and the trace of what it puts on the
  bus: the fences of \<open>PreFence\<close>, the access, the fences of \<open>PostFence\<close>. On x86-64 the access
  itself is always relaxed (\<open>c11ToBuiltInFlags\<close>), so the fences are the whole ordering.
\<close>

datatype memory_order = relaxed | consume | acquire | release | acq_rel | seq_cst

datatype bus_event = SFence | LFence | MFence | Access

definition PreFence :: "memory_order \<Rightarrow> bus_event list" where
  "PreFence ord = (case ord of release \<Rightarrow> [SFence] | seq_cst \<Rightarrow> [SFence] | acq_rel \<Rightarrow> [SFence] | _ \<Rightarrow> [])"

definition PostFence :: "memory_order \<Rightarrow> bus_event list" where
  "PostFence ord = (case ord of seq_cst \<Rightarrow> [MFence] | acq_rel \<Rightarrow> [LFence] | acquire \<Rightarrow> [LFence] | _ \<Rightarrow> [])"

definition Fence :: "memory_order \<Rightarrow> bus_event list" where
  "Fence ord = (case ord of seq_cst \<Rightarrow> [MFence] | acq_rel \<Rightarrow> [MFence] | acquire \<Rightarrow> [LFence] | release \<Rightarrow> [SFence] | _ \<Rightarrow> [])"

type_synonym 'w atomic_result = "'w \<times> 'w \<times> bus_event list"

definition fenced :: "memory_order \<Rightarrow> 'w \<Rightarrow> 'w \<Rightarrow> 'w atomic_result" where
  "fenced ord ret new = (ret, new, PreFence ord @ [Access] @ PostFence ord)"

definition Load :: "memory_order \<Rightarrow> 'w \<Rightarrow> 'w atomic_result" where
  "Load ord m = fenced ord m m"

definition Store :: "memory_order \<Rightarrow> 'w \<Rightarrow> 'w \<Rightarrow> 'w atomic_result" where
  "Store ord val m = fenced ord m val"

text \<open>\<open>Cas\<close> returns the value observed; it equals \<open>expected\<close> exactly when the swap happened.\<close>

definition Cas :: "memory_order \<Rightarrow> 'w \<Rightarrow> 'w \<Rightarrow> 'w \<Rightarrow> 'w atomic_result" where
  "Cas ord val expected m = fenced ord m (if m = expected then val else m)"

definition Exchange :: "memory_order \<Rightarrow> 'w \<Rightarrow> 'w \<Rightarrow> 'w atomic_result" where
  "Exchange ord val m = fenced ord m val"

definition Add :: "memory_order \<Rightarrow> 'l::len word \<Rightarrow> 'l word \<Rightarrow> 'l word atomic_result" where
  "Add ord val m = fenced ord m (m + val)"

definition Sub :: "memory_order \<Rightarrow> 'l::len word \<Rightarrow> 'l word \<Rightarrow> 'l word atomic_result" where
  "Sub ord val m = fenced ord m (m - val)"

definition And :: "memory_order \<Rightarrow> 'l::len word \<Rightarrow> 'l word \<Rightarrow> 'l word atomic_result" where
  "And ord val m = fenced ord m (m AND val)"

definition Or :: "memory_order \<Rightarrow> 'l::len word \<Rightarrow> 'l word \<Rightarrow> 'l word atomic_result" where
  "Or ord val m = fenced ord m (m OR val)"

definition Xor :: "memory_order \<Rightarrow> 'l::len word \<Rightarrow> 'l word \<Rightarrow> 'l word atomic_result" where
  "Xor ord val m = fenced ord m (m XOR val)"

definition Increment :: "memory_order \<Rightarrow> 'l::len word \<Rightarrow> 'l word atomic_result" where
  "Increment ord m = fenced ord m (m + 1)"

definition Decrement :: "memory_order \<Rightarrow> 'l::len word \<Rightarrow> 'l word atomic_result" where
  "Decrement ord m = fenced ord m (m - 1)"

lemmas atomic_defs = Load_def Store_def Cas_def Exchange_def Add_def Sub_def And_def Or_def Xor_def
  Increment_def Decrement_def fenced_def

abbreviation aret :: "'w atomic_result \<Rightarrow> 'w" where "aret \<equiv> fst"
abbreviation anew :: "'w atomic_result \<Rightarrow> 'w" where "anew r \<equiv> fst (snd r)"
abbreviation atrace :: "'w atomic_result \<Rightarrow> bus_event list" where "atrace r \<equiv> snd (snd r)"

text \<open>Whether the order asks for release or acquire semantics.\<close>

definition is_release :: "memory_order \<Rightarrow> bool" where
  "is_release ord \<longleftrightarrow> ord \<in> {release, acq_rel, seq_cst}"

definition is_acquire :: "memory_order \<Rightarrow> bool" where
  "is_acquire ord \<longleftrightarrow> ord \<in> {acquire, acq_rel, seq_cst}"

lemma fence_before: "is_release ord \<Longrightarrow> \<exists>ys. PreFence ord @ [Access] @ PostFence ord = SFence # Access # ys"
  by (cases ord) (auto simp: is_release_def PreFence_def)

lemma fence_after:
  "is_acquire ord \<Longrightarrow> \<exists>xs y. PreFence ord @ [Access] @ PostFence ord = xs @ [Access, y] \<and> (y = LFence \<or> y = MFence)"
  by (cases ord) (auto simp: is_acquire_def PreFence_def PostFence_def)

text \<open>A compare-and-swap increment succeeds exactly when the value read is still there, and is
  fenced as its memory order asks.\<close>

lemma Cas_increment_exact:
  fixes m seen :: "'l::len word"
  shows "aret (Cas ord (seen + 1) seen m) = m"
    and "anew (Cas ord (seen + 1) seen m) = (if m = seen then m + 1 else m)"
    and "is_release ord \<Longrightarrow> \<exists>ys. atrace (Cas ord (seen + 1) seen m) = SFence # Access # ys"
    and "is_acquire ord \<Longrightarrow> \<exists>xs y. atrace (Cas ord (seen + 1) seen m) = xs @ [Access, y] \<and> (y = LFence \<or> y = MFence)"
  using fence_before [of ord] fence_after [of ord] by (auto simp: Cas_def fenced_def)

end
