(* ===== verification/Signals.thy ===== *)
theory Signals
  imports Atomic_Ops
begin

unbundle bit_operations_syntax

text \<open>
  Signals: \<open>include/core/ISignal.h\<close>, \<open>src/core/ISignal.cpp\<close>, \<open>src/core/DefaultSignal.cpp\<close> and
  \<open>src/core/InterruptSignal.cpp\<close>. A signal is a 64-bit value with a handle count and a
  retain count; the program is built in the small model, where the interface type
  \<open>signal_value_t\<close> is 32 bits wide: arguments are sign-extended, results truncated. Each
  operation takes its memory order as a parameter, standing for the four methods of the
  source that differ only in it. The device is a counter of \<open>SetEvent\<close> calls.
\<close>

type_synonym signal_value_t = u32
type_synonym i64w = u64

datatype signal_kind = KIND_INVALID | KIND_USER | KIND_DOORBELL | KIND_LEGACY_DOORBELL

record signal =
  kind :: signal_kind
  sval :: i64w                    \<comment> \<open>\<open>co_signal_.value\<close>\<close>
  waiting :: u32
  refcount :: u32
  retained :: u32
  ipc :: bool                     \<comment> \<open>\<open>core_signal == nullptr\<close>\<close>
  registered :: bool              \<comment> \<open>an entry of \<open>ipcMap_\<close>\<close>
  destroyed :: nat                \<comment> \<open>runs of \<open>doDestroySignal\<close>\<close>
  event_set :: nat                \<comment> \<open>calls of the device's \<open>SetEvent\<close>\<close>

definition in_value :: "signal_value_t \<Rightarrow> i64w" where
  "in_value v = scast v"

definition out_value :: "i64w \<Rightarrow> signal_value_t" where
  "out_value v = ucast v"

definition new_signal :: "bool \<Rightarrow> signal_value_t \<Rightarrow> signal" where
  "new_signal enableIPC initial_value =
     \<lparr>kind = KIND_USER, sval = in_value initial_value, waiting = 0, refcount = 1, retained = 1,
      ipc = enableIPC, registered = enableIPC, destroyed = 0, event_set = 0\<rparr>"

definition IsValid :: "signal \<Rightarrow> bool" where
  "IsValid s \<longleftrightarrow> refcount s \<noteq> 0"

definition InWaiting :: "signal \<Rightarrow> bool" where
  "InWaiting s \<longleftrightarrow> waiting s \<noteq> 0"

definition Retain :: "signal \<Rightarrow> signal" where
  "Retain s = s\<lparr>retained := retained s + 1\<rparr>"

text \<open>Entering a wait call.\<close>

definition Wait_enter :: "signal \<Rightarrow> signal" where
  "Wait_enter s = (let s1 = Retain s in s1\<lparr>waiting := waiting s1 + 1\<rparr>)"

subsection \<open>BusyWaitSignal\<close>

definition BusyWait_Load :: "memory_order \<Rightarrow> signal \<Rightarrow> signal_value_t \<times> signal" where
  "BusyWait_Load ord s = (out_value (aret (Load ord (sval s))), s)"

definition BusyWait_Store :: "memory_order \<Rightarrow> signal_value_t \<Rightarrow> signal \<Rightarrow> signal" where
  "BusyWait_Store ord v s = s\<lparr>sval := anew (Store ord (in_value v) (sval s))\<rparr>"

definition BusyWait_And :: "memory_order \<Rightarrow> signal_value_t \<Rightarrow> signal \<Rightarrow> signal" where
  "BusyWait_And ord v s = s\<lparr>sval := anew (And ord (in_value v) (sval s))\<rparr>"

definition BusyWait_Or :: "memory_order \<Rightarrow> signal_value_t \<Rightarrow> signal \<Rightarrow> signal" where
  "BusyWait_Or ord v s = s\<lparr>sval := anew (Or ord (in_value v) (sval s))\<rparr>"

definition BusyWait_Xor :: "memory_order \<Rightarrow> signal_value_t \<Rightarrow> signal \<Rightarrow> signal" where
  "BusyWait_Xor ord v s = s\<lparr>sval := anew (Xor ord (in_value v) (sval s))\<rparr>"

definition BusyWait_Add :: "memory_order \<Rightarrow> signal_value_t \<Rightarrow> signal \<Rightarrow> signal" where
  "BusyWait_Add ord v s = s\<lparr>sval := anew (Add ord (in_value v) (sval s))\<rparr>"

definition BusyWait_Sub :: "memory_order \<Rightarrow> signal_value_t \<Rightarrow> signal \<Rightarrow> signal" where
  "BusyWait_Sub ord v s = s\<lparr>sval := anew (Sub ord (in_value v) (sval s))\<rparr>"

definition BusyWait_Exch :: "memory_order \<Rightarrow> signal_value_t \<Rightarrow> signal \<Rightarrow> signal_value_t \<times> signal" where
  "BusyWait_Exch ord v s = (let r = Exchange ord (in_value v) (sval s) in (out_value (aret r), s\<lparr>sval := anew r\<rparr>))"

definition BusyWait_Cas :: "memory_order \<Rightarrow> signal_value_t \<Rightarrow> signal_value_t \<Rightarrow> signal \<Rightarrow> signal_value_t \<times> signal" where
  "BusyWait_Cas ord expected v s =
     (let r = Cas ord (in_value v) (in_value expected) (sval s) in (out_value (aret r), s\<lparr>sval := anew r\<rparr>))"

subsection \<open>InterruptSignal\<close>

text \<open>\<open>SetEvent\<close> tells the device only when somebody waits.\<close>

definition SetEvent :: "signal \<Rightarrow> signal" where
  "SetEvent s = (if InWaiting s then s\<lparr>event_set := Suc (event_set s)\<rparr> else s)"

definition Interrupt_Load :: "memory_order \<Rightarrow> signal \<Rightarrow> signal_value_t \<times> signal" where
  "Interrupt_Load ord s = (out_value (aret (Load ord (sval s))), s)"

definition Interrupt_Store :: "memory_order \<Rightarrow> signal_value_t \<Rightarrow> signal \<Rightarrow> signal" where
  "Interrupt_Store ord v s = SetEvent (s\<lparr>sval := anew (Store ord (in_value v) (sval s))\<rparr>)"

definition Interrupt_And :: "memory_order \<Rightarrow> signal_value_t \<Rightarrow> signal \<Rightarrow> signal" where
  "Interrupt_And ord v s = SetEvent (s\<lparr>sval := anew (And ord (in_value v) (sval s))\<rparr>)"

definition Interrupt_Or :: "memory_order \<Rightarrow> signal_value_t \<Rightarrow> signal \<Rightarrow> signal" where
  "Interrupt_Or ord v s = SetEvent (s\<lparr>sval := anew (Or ord (in_value v) (sval s))\<rparr>)"

definition Interrupt_Xor :: "memory_order \<Rightarrow> signal_value_t \<Rightarrow> signal \<Rightarrow> signal" where
  "Interrupt_Xor ord v s = SetEvent (s\<lparr>sval := anew (Xor ord (in_value v) (sval s))\<rparr>)"

definition Interrupt_Add :: "memory_order \<Rightarrow> signal_value_t \<Rightarrow> signal \<Rightarrow> signal" where
  "Interrupt_Add ord v s = SetEvent (s\<lparr>sval := anew (Add ord (in_value v) (sval s))\<rparr>)"

definition Interrupt_Sub :: "memory_order \<Rightarrow> signal_value_t \<Rightarrow> signal \<Rightarrow> signal" where
  "Interrupt_Sub ord v s = SetEvent (s\<lparr>sval := anew (Sub ord (in_value v) (sval s))\<rparr>)"

definition Interrupt_Exch :: "memory_order \<Rightarrow> signal_value_t \<Rightarrow> signal \<Rightarrow> signal_value_t \<times> signal" where
  "Interrupt_Exch ord v s =
     (let r = Exchange ord (in_value v) (sval s) in (out_value (aret r), SetEvent (s\<lparr>sval := anew r\<rparr>)))"

definition Interrupt_Cas :: "memory_order \<Rightarrow> signal_value_t \<Rightarrow> signal_value_t \<Rightarrow> signal \<Rightarrow> signal_value_t \<times> signal" where
  "Interrupt_Cas ord expected v s =
     (let r = Cas ord (in_value v) (in_value expected) (sval s) in (out_value (aret r), SetEvent (s\<lparr>sval := anew r\<rparr>)))"

subsection \<open>The interface and its contract\<close>

datatype sig_op =
    OLoad memory_order
  | OStore memory_order signal_value_t
  | OAnd memory_order signal_value_t
  | OOr memory_order signal_value_t
  | OXor memory_order signal_value_t
  | OAdd memory_order signal_value_t
  | OSub memory_order signal_value_t
  | OExch memory_order signal_value_t
  | OCas memory_order signal_value_t signal_value_t

text \<open>The virtual calls of \<open>ISignal\<close>, dispatched to the two classes; the result is the value
  returned, when the method has one.\<close>

fun busy_exec :: "sig_op \<Rightarrow> signal \<Rightarrow> signal_value_t option \<times> signal" where
  "busy_exec (OLoad ord) s = (let (v, s') = BusyWait_Load ord s in (Some v, s'))"
| "busy_exec (OStore ord v) s = (None, BusyWait_Store ord v s)"
| "busy_exec (OAnd ord v) s = (None, BusyWait_And ord v s)"
| "busy_exec (OOr ord v) s = (None, BusyWait_Or ord v s)"
| "busy_exec (OXor ord v) s = (None, BusyWait_Xor ord v s)"
| "busy_exec (OAdd ord v) s = (None, BusyWait_Add ord v s)"
| "busy_exec (OSub ord v) s = (None, BusyWait_Sub ord v s)"
| "busy_exec (OExch ord v) s = (let (r, s') = BusyWait_Exch ord v s in (Some r, s'))"
| "busy_exec (OCas ord e v) s = (let (r, s') = BusyWait_Cas ord e v s in (Some r, s'))"

fun interrupt_exec :: "sig_op \<Rightarrow> signal \<Rightarrow> signal_value_t option \<times> signal" where
  "interrupt_exec (OLoad ord) s = (let (v, s') = Interrupt_Load ord s in (Some v, s'))"
| "interrupt_exec (OStore ord v) s = (None, Interrupt_Store ord v s)"
| "interrupt_exec (OAnd ord v) s = (None, Interrupt_And ord v s)"
| "interrupt_exec (OOr ord v) s = (None, Interrupt_Or ord v s)"
| "interrupt_exec (OXor ord v) s = (None, Interrupt_Xor ord v s)"
| "interrupt_exec (OAdd ord v) s = (None, Interrupt_Add ord v s)"
| "interrupt_exec (OSub ord v) s = (None, Interrupt_Sub ord v s)"
| "interrupt_exec (OExch ord v) s = (let (r, s') = Interrupt_Exch ord v s in (Some r, s'))"
| "interrupt_exec (OCas ord e v) s = (let (r, s') = Interrupt_Cas ord e v s in (Some r, s'))"

text \<open>The reference behaviour on the bare value.\<close>

fun cell_exec :: "sig_op \<Rightarrow> i64w \<Rightarrow> signal_value_t option \<times> i64w" where
  "cell_exec (OLoad _) m = (Some (out_value m), m)"
| "cell_exec (OStore _ v) m = (None, in_value v)"
| "cell_exec (OAnd _ v) m = (None, m AND in_value v)"
| "cell_exec (OOr _ v) m = (None, m OR in_value v)"
| "cell_exec (OXor _ v) m = (None, m XOR in_value v)"
| "cell_exec (OAdd _ v) m = (None, m + in_value v)"
| "cell_exec (OSub _ v) m = (None, m - in_value v)"
| "cell_exec (OExch _ v) m = (Some (out_value m), in_value v)"
| "cell_exec (OCas _ e v) m = (Some (out_value m), if m = in_value e then in_value v else m)"

fun is_mutation :: "sig_op \<Rightarrow> bool" where
  "is_mutation (OLoad _) = False"
| "is_mutation _ = True"

fun cell_run :: "sig_op list \<Rightarrow> i64w \<Rightarrow> signal_value_t option list \<times> i64w" where
  "cell_run [] m = ([], m)"
| "cell_run (c # cs) m = (let (r, m1) = cell_exec c m; (rs, m2) = cell_run cs m1 in (r # rs, m2))"

locale signal_impl =
  fixes exec :: "sig_op \<Rightarrow> signal \<Rightarrow> signal_value_t option \<times> signal"
  assumes exec_cell: "exec c s = (r, s') \<Longrightarrow> cell_exec c (sval s) = (r, sval s')"
    and exec_frame: "exec c s = (r, s') \<Longrightarrow> waiting s' = waiting s \<and> refcount s' = refcount s \<and>
      retained s' = retained s \<and> destroyed s' = destroyed s"
begin

fun exec_all :: "sig_op list \<Rightarrow> signal \<Rightarrow> signal_value_t option list \<times> signal" where
  "exec_all [] s = ([], s)"
| "exec_all (c # cs) s = (let (r, s1) = exec c s; (rs, s2) = exec_all cs s1 in (r # rs, s2))"

lemma exec_all_cell: "exec_all cs s = (rs, s') \<Longrightarrow> cell_run cs (sval s) = (rs, sval s')"
proof (induction cs arbitrary: s rs s')
  case (Cons c cs)
  obtain r s1 where 1: "exec c s = (r, s1)" by (metis surj_pair)
  obtain rs' s2 where 2: "exec_all cs s1 = (rs', s2)" by (metis surj_pair)
  show ?case using Cons.prems exec_cell [OF 1] Cons.IH [OF 2] 1 2 by auto
qed simp

end

lemmas busy_defs = BusyWait_Load_def BusyWait_Store_def BusyWait_And_def BusyWait_Or_def BusyWait_Xor_def
  BusyWait_Add_def BusyWait_Sub_def BusyWait_Exch_def BusyWait_Cas_def

lemmas interrupt_defs = Interrupt_Load_def Interrupt_Store_def Interrupt_And_def Interrupt_Or_def Interrupt_Xor_def
  Interrupt_Add_def Interrupt_Sub_def Interrupt_Exch_def Interrupt_Cas_def

lemma SetEvent_frame [simp]:
  "sval (SetEvent s) = sval s" "waiting (SetEvent s) = waiting s" "refcount (SetEvent s) = refcount s"
  "retained (SetEvent s) = retained s" "destroyed (SetEvent s) = destroyed s" "ipc (SetEvent s) = ipc s"
  "registered (SetEvent s) = registered s"
  by (simp_all add: SetEvent_def)

interpretation busy: signal_impl busy_exec
  by unfold_locales (case_tac c; auto simp: busy_defs atomic_defs Let_def)+

interpretation interrupt: signal_impl interrupt_exec
  by unfold_locales (case_tac c; auto simp: interrupt_defs atomic_defs Let_def)+

text \<open>C36: The two signal classes are indistinguishable by value: from equal values, any sequence
  of loads, stores and read-modify-write operations returns the same results and leaves the
  same value.\<close>

theorem signal_classes_agree:
  assumes "sval s = sval t"
  shows "fst (busy.exec_all cs s) = fst (interrupt.exec_all cs t) \<and> sval (snd (busy.exec_all cs s)) = sval (snd (interrupt.exec_all cs t))"
  using busy.exec_all_cell [of cs s "fst (busy.exec_all cs s)" "snd (busy.exec_all cs s)"]
    interrupt.exec_all_cell [of cs t "fst (interrupt.exec_all cs t)" "snd (interrupt.exec_all cs t)"] assms by simp

theorem signal_classes_agree_witness:
  "let s = new_signal False 5; t = Wait_enter (new_signal True 5);
       cs = [OAdd relaxed 0xFFFFFFFF, OCas acquire 4 9, OLoad relaxed]
   in sval s = sval t \<and> fst (interrupt.exec_all cs t) = [None, Some 4, Some 9] \<and>
      fst (busy.exec_all cs s) = fst (interrupt.exec_all cs t)"
  using signal_classes_agree [of "new_signal False 5" "Wait_enter (new_signal True 5)"
    "[OAdd relaxed 0xFFFFFFFF, OCas acquire 4 9, OLoad relaxed]"]
  unfolding Let_def interrupt.exec_all.simps
  by (simp add: new_signal_def Wait_enter_def Retain_def interrupt_defs atomic_defs in_value_def out_value_def SetEvent_def InWaiting_def)

text \<open>Every operation that may change the value of an interrupt signal notifies the device
  exactly once when a waiter is registered, and never otherwise.\<close>

lemma interrupt_notifies:
  "event_set (snd (interrupt_exec c s)) =
     event_set s + (if is_mutation c \<and> InWaiting s then 1 else 0)"
  by (cases c) (auto simp: interrupt_defs SetEvent_def InWaiting_def Let_def)

subsection \<open>Waiting\<close>

text \<open>
  What a waiter sees in one round of its loop: validity, value, the time since the start in
  nanoseconds, and the value read again after a timeout. Other threads act between rounds, so
  a run of the loop is driven by a sequence of observations.
\<close>

datatype signal_condition = CONDITION_EQ | CONDITION_NE | CONDITION_LT | CONDITION_GTE | CONDITION_OTHER
datatype wait_state = BLOCKED | ACTIVE
datatype wait_act = Spin | Sleep20 | WaitOnEvent u32

record observation =
  ovalid :: bool
  ovalue :: i64w
  elapsed :: nat
  oreload :: i64w

definition kMaxElapsed :: nat where
  "kMaxElapsed = 200 * 1000"

fun condition_met :: "signal_condition \<Rightarrow> i64w \<Rightarrow> signal_value_t \<Rightarrow> bool" where
  "condition_met CONDITION_EQ value cmp = (value = in_value cmp)"
| "condition_met CONDITION_NE value cmp = (value \<noteq> in_value cmp)"
| "condition_met CONDITION_GTE value cmp = (sint (in_value cmp) \<le> sint value)"
| "condition_met CONDITION_LT value cmp = (sint value < sint (in_value cmp))"
| "condition_met CONDITION_OTHER value cmp = False"

text \<open>How a round ends the wait: with which value, or not at all.\<close>

definition round_result :: "signal_condition \<Rightarrow> signal_value_t \<Rightarrow> nat \<Rightarrow> observation \<Rightarrow> signal_value_t option" where
  "round_result cond cmp limit ob =
     (if \<not> ovalid ob then Some 0
      else if cond = CONDITION_OTHER then Some 0
      else if condition_met cond (ovalue ob) cmp then Some (out_value (ovalue ob))
      else if limit < elapsed ob then Some (out_value (oreload ob))
      else None)"

definition wait_ms :: "nat \<Rightarrow> nat \<Rightarrow> u32" where
  "wait_ms limit t = (let ct = (limit - t) div 1000000 in if 0xFFFFFFFE < ct then 0xFFFFFFFE else of_nat ct)"

definition busy_act :: "observation \<Rightarrow> wait_act" where
  "busy_act ob = (if kMaxElapsed < elapsed ob then Sleep20 else Spin)"

definition interrupt_act :: "wait_state \<Rightarrow> nat \<Rightarrow> observation \<Rightarrow> wait_act" where
  "interrupt_act hint limit ob =
     (if hint = ACTIVE then Spin
      else if elapsed ob < kMaxElapsed then Sleep20
      else WaitOnEvent (wait_ms limit (elapsed ob)))"

text \<open>The loops; the fuel bounds the rounds, the result lists what was done between rounds.\<close>

fun BusyWait_WaitRelaxed :: "nat \<Rightarrow> (nat \<Rightarrow> observation) \<Rightarrow> nat \<Rightarrow> signal_condition \<Rightarrow> signal_value_t \<Rightarrow> nat
    \<Rightarrow> (signal_value_t \<times> wait_act list) option" where
  "BusyWait_WaitRelaxed 0 obs k cond cmp limit = None"
| "BusyWait_WaitRelaxed (Suc f) obs k cond cmp limit = (case round_result cond cmp limit (obs k) of
      Some v \<Rightarrow> Some (v, [])
    | None \<Rightarrow> map_option (\<lambda>(v, as). (v, busy_act (obs k) # as)) (BusyWait_WaitRelaxed f obs (Suc k) cond cmp limit))"

fun Interrupt_wait_loop :: "nat \<Rightarrow> (nat \<Rightarrow> observation) \<Rightarrow> nat \<Rightarrow> signal_condition \<Rightarrow> signal_value_t \<Rightarrow> nat
    \<Rightarrow> wait_state \<Rightarrow> (signal_value_t \<times> wait_act list) option" where
  "Interrupt_wait_loop 0 obs k cond cmp limit hint = None"
| "Interrupt_wait_loop (Suc f) obs k cond cmp limit hint = (case round_result cond cmp limit (obs k) of
      Some v \<Rightarrow> Some (v, [])
    | None \<Rightarrow> map_option (\<lambda>(v, as). (v, interrupt_act hint limit (obs k) # as))
        (Interrupt_wait_loop f obs (Suc k) cond cmp limit hint))"

text \<open>Only the first waiter may sleep: \<open>prior\<close> is the waiter count before this one.\<close>

definition Interrupt_WaitRelaxed :: "nat \<Rightarrow> (nat \<Rightarrow> observation) \<Rightarrow> u32 \<Rightarrow> signal_condition \<Rightarrow> signal_value_t \<Rightarrow> nat
    \<Rightarrow> wait_state \<Rightarrow> (signal_value_t \<times> wait_act list) option" where
  "Interrupt_WaitRelaxed f obs prior cond cmp limit hint =
     Interrupt_wait_loop f obs 0 cond cmp limit (if prior \<noteq> 0 then ACTIVE else hint)"

text \<open>\<open>WaitAcquire\<close> adds a fence after the loop.\<close>

definition BusyWait_WaitAcquire :: "nat \<Rightarrow> (nat \<Rightarrow> observation) \<Rightarrow> nat \<Rightarrow> signal_condition \<Rightarrow> signal_value_t \<Rightarrow> nat
    \<Rightarrow> (signal_value_t \<times> wait_act list \<times> bus_event list) option" where
  "BusyWait_WaitAcquire f obs k cond cmp limit =
     map_option (\<lambda>(v, as). (v, as, Fence acquire)) (BusyWait_WaitRelaxed f obs k cond cmp limit)"

definition Interrupt_WaitAcquire :: "nat \<Rightarrow> (nat \<Rightarrow> observation) \<Rightarrow> u32 \<Rightarrow> signal_condition \<Rightarrow> signal_value_t \<Rightarrow> nat
    \<Rightarrow> wait_state \<Rightarrow> (signal_value_t \<times> wait_act list \<times> bus_event list) option" where
  "Interrupt_WaitAcquire f obs prior cond cmp limit hint =
     map_option (\<lambda>(v, as). (v, as, Fence acquire)) (Interrupt_WaitRelaxed f obs prior cond cmp limit hint)"

lemma interrupt_loop_stops:
  "(\<forall>j < n. round_result cond cmp limit (obs (k + j)) = None) \<Longrightarrow>
   round_result cond cmp limit (obs (k + n)) = Some v \<Longrightarrow> n < f \<Longrightarrow>
   Interrupt_wait_loop f obs k cond cmp limit hint =
     Some (v, map (\<lambda>j. interrupt_act hint limit (obs (k + j))) [0..<n])"
proof (induction n arbitrary: f k)
  case 0
  then show ?case by (cases f) auto
next
  case (Suc n)
  obtain g where g: "f = Suc g" "n < g" using Suc.prems(3) by (cases f) auto
  have "round_result cond cmp limit (obs k) = None" using Suc.prems(1) by (metis add_0_right zero_less_Suc)
  moreover have "Interrupt_wait_loop g obs (Suc k) cond cmp limit hint =
      Some (v, map (\<lambda>j. interrupt_act hint limit (obs (Suc k + j))) [0..<n])"
    using Suc.IH [of "Suc k" g] Suc.prems g(2) by (metis Suc_less_eq add_Suc add_Suc_right)
  ultimately show ?case using g(1) by (simp add: upt_rec [of 0 "Suc n"] map_Suc_upt [symmetric] del: upt_Suc)
qed

lemma busy_loop_stops:
  "(\<forall>j < n. round_result cond cmp limit (obs (k + j)) = None) \<Longrightarrow>
   round_result cond cmp limit (obs (k + n)) = Some v \<Longrightarrow> n < f \<Longrightarrow>
   BusyWait_WaitRelaxed f obs k cond cmp limit = Some (v, map (\<lambda>j. busy_act (obs (k + j))) [0..<n])"
proof (induction n arbitrary: f k)
  case 0
  then show ?case by (cases f) auto
next
  case (Suc n)
  obtain g where g: "f = Suc g" "n < g" using Suc.prems(3) by (cases f) auto
  have "round_result cond cmp limit (obs k) = None" using Suc.prems(1) by (metis add_0_right zero_less_Suc)
  moreover have "BusyWait_WaitRelaxed g obs (Suc k) cond cmp limit = Some (v, map (\<lambda>j. busy_act (obs (Suc k + j))) [0..<n])"
    using Suc.IH [of "Suc k" g] Suc.prems g(2) by (metis Suc_less_eq add_Suc add_Suc_right)
  ultimately show ?case using g(1) by (simp add: upt_rec [of 0 "Suc n"] map_Suc_upt [symmetric] del: upt_Suc)
qed

lemma wait_ms_bound: "unat (wait_ms limit t) \<le> limit div 1000000 \<and> wait_ms limit t \<le> 0xFFFFFFFE"
proof (cases "0xFFFFFFFE < (limit - t) div 1000000")
  case True
  have "(limit - t) div 1000000 \<le> limit div 1000000" by (simp add: div_le_mono)
  then show ?thesis using True by (simp add: wait_ms_def)
next
  case False
  then have u: "unat (of_nat ((limit - t) div 1000000) :: u32) = (limit - t) div 1000000"
    by (simp add: unat_of_nat take_bit_nat_eq_self)
  have "(limit - t) div 1000000 \<le> limit div 1000000" by (simp add: div_le_mono)
  then show ?thesis using False u by (simp add: wait_ms_def word_le_nat_alt)
qed



subsection \<open>Lifetime\<close>

definition RegisterIpc :: "signal \<Rightarrow> signal option" where
  "RegisterIpc s = guarded (\<not> registered s) (Some (s\<lparr>registered := True\<rparr>))"

definition DeRegisterIpc :: "signal \<Rightarrow> bool \<times> signal" where
  "DeRegisterIpc s = (if refcount s \<noteq> 0 then (False, s) else (True, s\<lparr>registered := False\<rparr>))"

definition doDestroySignal :: "signal \<Rightarrow> signal" where
  "doDestroySignal s = s\<lparr>destroyed := Suc (destroyed s), kind := KIND_INVALID\<rparr>"

definition Release :: "signal \<Rightarrow> signal" where
  "Release s =
     (let s1 = s\<lparr>retained := retained s - 1\<rparr>
      in if retained s1 \<noteq> 0 then s1
         else if \<not> ipc s1 then doDestroySignal s1
         else case DeRegisterIpc s1 of (True, s2) \<Rightarrow> doDestroySignal s2 | (False, s2) \<Rightarrow> s2)"

definition DestroySignal :: "(sig_op \<Rightarrow> signal \<Rightarrow> signal_value_t option \<times> signal) \<Rightarrow> signal \<Rightarrow> signal" where
  "DestroySignal exec s =
     (let s1 = s\<lparr>refcount := refcount s - 1\<rparr>;
          s2 = (if refcount s1 = 0 then snd (exec (OCas relaxed 0 0) s1) else s1)
      in Release s2)"

text \<open>\<open>DuplicateSignalHandle\<close> on a valid handle; for an IPC signal the handle must be in the map.\<close>

definition DuplicateHandle :: "signal \<Rightarrow> signal option" where
  "DuplicateHandle s =
     (if \<not> ipc s then Some (Retain (s\<lparr>refcount := refcount s + 1\<rparr>))
      else if \<not> registered s then None
      else Some (Retain (s\<lparr>refcount := refcount s + 1\<rparr>)))"

text \<open>Leaving a wait call.\<close>

definition Wait_leave :: "signal \<Rightarrow> signal" where
  "Wait_leave s = Release (s\<lparr>waiting := waiting s - 1\<rparr>)"

text \<open>Clients hold \<open>h\<close> handles and \<open>w\<close> calls wait; each client acts only on what it holds.\<close>

inductive life_step :: "nat \<times> nat \<times> signal \<Rightarrow> nat \<times> nat \<times> signal \<Rightarrow> bool" where
  enter: "0 < h \<Longrightarrow> h + w + 1 < 2 ^ 32 \<Longrightarrow> life_step (h, w, s) (h, Suc w, Wait_enter s)"
| leave: "0 < w \<Longrightarrow> life_step (h, w, s) (h, w - 1, Wait_leave s)"
| destroy: "0 < h \<Longrightarrow> life_step (h, w, s) (h - 1, w, DestroySignal interrupt_exec s)"
| duplicate: "0 < h \<Longrightarrow> h + w + 1 < 2 ^ 32 \<Longrightarrow> DuplicateHandle s = Some s' \<Longrightarrow> life_step (h, w, s) (Suc h, w, s')"
| operate: "0 < h \<or> 0 < w \<Longrightarrow> interrupt_exec c s = (r, s') \<Longrightarrow> life_step (h, w, s) (h, w, s')"

definition life_inv :: "nat \<times> nat \<times> signal \<Rightarrow> bool" where
  "life_inv = (\<lambda>(h, w, s). h + w < 2 ^ 32 \<and> refcount s = of_nat h \<and> waiting s = of_nat w \<and>
     retained s = of_nat (h + w) \<and> destroyed s = (if h + w = 0 then 1 else 0) \<and>
     (ipc s \<longrightarrow> registered s = (0 < h + w)))"

lemma of_nat_u32_0: "n < 2 ^ 32 \<Longrightarrow> (of_nat n :: u32) = 0 \<longleftrightarrow> n = 0"
  using nat_dvd_not_less [of n "2 ^ 32"] by (auto simp: word_of_nat_eq_0_iff)

lemma of_nat_u32_pred: "0 < n \<Longrightarrow> (of_nat n :: u32) - 1 = of_nat (n - 1)"
  by (simp add: of_nat_diff)

lemmas life_defs = life_inv_def Wait_enter_def Wait_leave_def Retain_def Release_def DestroySignal_def
  DuplicateHandle_def DeRegisterIpc_def doDestroySignal_def

lemma Release_inv:
  assumes "retained s = of_nat (Suc k)" and "Suc k < 2 ^ 32" and "destroyed s = 0" and "ipc s \<longrightarrow> registered s"
    and "k = 0 \<longrightarrow> refcount s = 0"
  shows "retained (Release s) = of_nat k \<and> destroyed (Release s) = (if k = 0 then 1 else 0) \<and>
    refcount (Release s) = refcount s \<and> waiting (Release s) = waiting s \<and> ipc (Release s) = ipc s \<and>
    (ipc s \<longrightarrow> registered (Release s) = (0 < k))"
proof -
  have r: "retained s - 1 = of_nat k" using assms(1) by simp
  have "(of_nat k :: u32) = 0 \<longleftrightarrow> k = 0" using assms(2) by (intro of_nat_u32_0) simp
  then show ?thesis using assms(3-5) r by (auto simp: Release_def DeRegisterIpc_def doDestroySignal_def Let_def)
qed

lemma interrupt_exec_frame:
  assumes "interrupt_exec c s = (r, s')"
  shows "waiting s' = waiting s" "refcount s' = refcount s" "retained s' = retained s" "destroyed s' = destroyed s"
    "ipc s' = ipc s" "registered s' = registered s"
  using interrupt.exec_frame [OF assms] assms by (cases c; auto simp: interrupt_defs Let_def)+

lemma life_invI:
  "n = h + w \<Longrightarrow> n < 2 ^ 32 \<Longrightarrow> refcount s = of_nat h \<Longrightarrow> waiting s = of_nat w \<Longrightarrow>
   retained s = of_nat n \<Longrightarrow> destroyed s = (if n = 0 then 1 else 0) \<Longrightarrow> (ipc s \<longrightarrow> registered s = (0 < n)) \<Longrightarrow>
   life_inv (h, w, s)"
  unfolding life_inv_def by simp

lemma life_invD:
  assumes "life_inv (h, w, s)" and "h + w = Suc k"
  shows "Suc k < 2 ^ 32" "refcount s = of_nat h" "waiting s = of_nat w" "retained s = of_nat (Suc k)" "destroyed s = 0"
    "ipc s \<longrightarrow> registered s"
  using assms(1) unfolding life_inv_def split_conv assms(2) by simp_all

lemma life_leave:
  assumes "life_inv (h, w, s)" and "0 < w"
  shows "life_inv (h, w - 1, Wait_leave s)"
proof -
  obtain k where k: "h + w = Suc k" using assms(2) by (cases "h + w") auto
  note d = life_invD [OF assms(1) k]
  let ?s = "s\<lparr>waiting := waiting s - 1\<rparr>"
  have h0: "k = 0 \<longrightarrow> h = 0" using k assms(2) by linarith
  have r: "retained (Release ?s) = of_nat k \<and> destroyed (Release ?s) = (if k = 0 then 1 else 0) \<and>
      refcount (Release ?s) = refcount ?s \<and> waiting (Release ?s) = waiting ?s \<and> ipc (Release ?s) = ipc ?s \<and>
      (ipc ?s \<longrightarrow> registered (Release ?s) = (0 < k))"
    by (rule Release_inv) (use d h0 in \<open>simp_all del: of_nat_Suc\<close>)
  have "waiting ?s = of_nat (w - 1)" using d(3) of_nat_u32_pred [OF assms(2)] by simp
  moreover have "k = h + (w - 1)" and "k < 2 ^ 32" using k assms(2) d(1) by linarith+
  ultimately show ?thesis unfolding Wait_leave_def using r d(2) by (intro life_invI [of k]) simp_all
qed

lemma life_destroy:
  assumes "life_inv (h, w, s)" and "0 < h"
  shows "life_inv (h - 1, w, DestroySignal interrupt_exec s)"
proof -
  obtain k where k: "h + w = Suc k" using assms(2) by (cases "h + w") auto
  note d = life_invD [OF assms(1) k]
  define s1 where "s1 = s\<lparr>refcount := refcount s - 1\<rparr>"
  define s2 where "s2 = (if refcount s1 = 0 then snd (interrupt_exec (OCas relaxed 0 0) s1) else s1)"
  have fr: "waiting s2 = waiting s" "refcount s2 = refcount s - 1" "retained s2 = retained s" "destroyed s2 = destroyed s"
      "ipc s2 = ipc s" "registered s2 = registered s"
    using interrupt_exec_frame [OF prod.collapse [symmetric], of "OCas relaxed 0 0" s1]
    unfolding s2_def by (simp_all only: split: if_split) (simp_all add: s1_def)
  have rc: "refcount s2 = of_nat (h - 1)" using fr(2) d(2) of_nat_u32_pred [OF assms(2)] by simp
  have "k = 0 \<longrightarrow> h - 1 = 0" using k assms(2) by linarith
  then have h0: "k = 0 \<longrightarrow> refcount s2 = 0" using rc by simp
  have r: "retained (Release s2) = of_nat k \<and> destroyed (Release s2) = (if k = 0 then 1 else 0) \<and>
      refcount (Release s2) = refcount s2 \<and> waiting (Release s2) = waiting s2 \<and> ipc (Release s2) = ipc s2 \<and>
      (ipc s2 \<longrightarrow> registered (Release s2) = (0 < k))"
    by (rule Release_inv) (use d fr(3-6) h0 in \<open>simp_all del: of_nat_Suc\<close>)
  have "k = h - 1 + w" and "k < 2 ^ 32" using k assms(2) d(1) by linarith+
  moreover have "DestroySignal interrupt_exec s = Release s2" by (simp add: DestroySignal_def s2_def s1_def Let_def)
  ultimately show ?thesis using r rc fr d(3) by (intro life_invI [of k]) simp_all
qed

lemma life_retain:
  assumes "life_inv (h, w, s)" and "0 < h" and "h + w + 1 < 2 ^ 32"
  shows "life_inv (h, Suc w, Wait_enter s)" and "DuplicateHandle s = Some s' \<Longrightarrow> life_inv (Suc h, w, s')"
proof -
  obtain k where k: "h + w = Suc k" using assms(2) by (cases "h + w") auto
  note d = life_invD [OF assms(1) k]
  have b: "Suc (Suc k) < 2 ^ 32" using k assms(3) by linarith
  show "life_inv (h, Suc w, Wait_enter s)"
    using d b k by (intro life_invI [of "Suc (Suc k)"]) (simp_all add: Wait_enter_def Retain_def Let_def)
  show "life_inv (Suc h, w, s')" if "DuplicateHandle s = Some s'"
    using that d b k by (intro life_invI [of "Suc (Suc k)"]) (auto simp: DuplicateHandle_def Retain_def split: if_splits)
qed

lemma life_operate:
  assumes "life_inv (h, w, s)" and "interrupt_exec c s = (r, s')"
  shows "life_inv (h, w, s')"
  using assms(1) unfolding life_inv_def split_conv interrupt_exec_frame [OF assms(2)] .

lemma life_step_inv: "life_step c c' \<Longrightarrow> life_inv c \<Longrightarrow> life_inv c'"
  by (induction rule: life_step.induct) (blast intro: life_leave life_destroy life_retain life_operate)+

lemma life_steps_inv: "life_step\<^sup>*\<^sup>* c c' \<Longrightarrow> life_inv c \<Longrightarrow> life_inv c'"
  by (induction rule: rtranclp_induct) (auto intro: life_step_inv)

lemma life_inv_new: "life_inv (1, 0, new_signal b v)"
  by (simp add: life_inv_def new_signal_def)

text \<open>C34: From a new signal, however clients duplicate and destroy handles, wait and operate, the
  signal object is destroyed exactly once, exactly when the last handle is gone and the last
  waiter has left; until then an IPC signal stays registered, and it is removed from the map
  with its destruction.\<close>

theorem signal_destroyed_once:
  assumes "life_step\<^sup>*\<^sup>* (1, 0, new_signal b v) (h, w, s)"
  shows "destroyed s = (if h = 0 \<and> w = 0 then 1 else 0) \<and> (IsValid s \<longleftrightarrow> 0 < h) \<and>
    (ipc s \<longrightarrow> registered s = (0 < h \<or> 0 < w))"
proof -
  have "life_inv (h, w, s)" using life_steps_inv [OF assms] life_inv_new by blast
  moreover from this have "h < 2 ^ 32" by (simp add: life_inv_def)
  ultimately show ?thesis using of_nat_u32_0 [of h] by (auto simp: life_inv_def IsValid_def)
qed

theorem signal_destroyed_once_witness:
  "life_step\<^sup>*\<^sup>* (1, 0, new_signal True 0) (0, 0, Wait_leave (DestroySignal interrupt_exec (Wait_enter (new_signal True 0)))) \<and>
   destroyed (Wait_leave (DestroySignal interrupt_exec (Wait_enter (new_signal True 0)))) = 1"
proof -
  let ?s = "Wait_enter (new_signal True 0)"
  have 1: "life_step (1, 0, new_signal True 0) (1, 1, ?s)" using life_step.enter [of 1 0] by simp
  have 2: "life_step (1, 1, ?s) (0, 1, DestroySignal interrupt_exec ?s)" using life_step.destroy [of 1 1] by simp
  have 3: "life_step (0, 1, DestroySignal interrupt_exec ?s) (0, 0, Wait_leave (DestroySignal interrupt_exec ?s))"
    using life_step.leave [of 1 0] by simp
  have r: "life_step\<^sup>*\<^sup>* (1, 0, new_signal True 0) (0, 0, Wait_leave (DestroySignal interrupt_exec ?s))"
    using 1 2 3 by (meson converse_rtranclp_into_rtranclp rtranclp.rtrancl_refl)
  then show ?thesis using signal_destroyed_once [OF r] by simp
qed

end
