(* ===== verification/Object_Pool.thy ===== *)
theory Object_Pool
  imports Co_Prelude "HOL-Library.Multiset"
begin

text \<open>
  The block pools of shared objects: \<open>SharedSignalPool\<close> (\<open>include/core/ISignal.h\<close>,
  \<open>src/core/ISignal.cpp\<close>) and \<open>SharedQueuePool\<close> (\<open>include/core/IQueue.h\<close>,
  \<open>src/core/IQueue.cpp\<close>), which are the same code over another object type: \<open>sz\<close> is the
  size of the object. The page allocator \<open>allocate_\<close> belongs to the runtime; its answers
  \<open>r1\<close> and \<open>r2\<close> to the two requests \<open>alloc\<close> may make are arguments of the model.
\<close>

record pool =
  free_list :: "addr list"                \<comment> \<open>a vector used as a stack: the last element is on top\<close>
  block_list :: "(addr \<times> nat) list"
  block_size :: nat

datatype pool_error = Bad_Alloc | Back_Of_Empty | Not_In_Pool

definition minblock :: "nat \<Rightarrow> nat" where
  "minblock sz = 4096 div sz"

definition new_pool :: "nat \<Rightarrow> pool" where
  "new_pool sz = \<lparr>free_list = [], block_list = [], block_size = minblock sz\<rparr>"

definition block_objs :: "nat \<Rightarrow> addr \<times> nat \<Rightarrow> addr list" where
  "block_objs sz b = map (\<lambda>i. fst b + i * sz) [0..<snd b]"

text \<open>The branch that gets a block; the request is for \<open>block_size_ * sizeof\<close> bytes.\<close>

definition pool_grow :: "nat \<Rightarrow> ptr \<Rightarrow> ptr \<Rightarrow> pool \<Rightarrow> pool_error + pool" where
  "pool_grow sz r1 r2 p =
     (case (case r1 of Some b \<Rightarrow> Some (b, block_size p) | None \<Rightarrow> map_option (\<lambda>b. (b, minblock sz)) r2) of
        None \<Rightarrow> Inl Bad_Alloc
      | Some (b, n) \<Rightarrow> Inr \<lparr>free_list = free_list p @ block_objs sz (b, n), block_list = block_list p @ [(b, n)],
                            block_size = (n * 2) mod 2 ^ 64\<rparr>)"

definition pool_alloc :: "nat \<Rightarrow> ptr \<Rightarrow> ptr \<Rightarrow> pool \<Rightarrow> pool_error + (addr \<times> pool)" where
  "pool_alloc sz r1 r2 p =
     (case (if free_list p = [] then pool_grow sz r1 r2 p else Inr p) of
        Inl e \<Rightarrow> Inl e
      | Inr q \<Rightarrow> if free_list q = [] then Inl Back_Of_Empty
                 else Inr (last (free_list q), q\<lparr>free_list := butlast (free_list q)\<rparr>))"

definition belongs :: "nat \<Rightarrow> pool \<Rightarrow> addr \<Rightarrow> bool" where
  "belongs sz p a \<longleftrightarrow> (\<exists>b \<in> set (block_list p). fst b \<le> a \<and> a < fst b + snd b * sz)"

definition pool_free :: "nat \<Rightarrow> ptr \<Rightarrow> pool \<Rightarrow> pool_error + pool" where
  "pool_free sz x p = (case x of
      None \<Rightarrow> Inr p
    | Some a \<Rightarrow> if belongs sz p a then Inr (p\<lparr>free_list := free_list p @ [a]\<rparr>) else Inl Not_In_Pool)"

text \<open>\<open>clear\<close>: the number of leaked objects of the warning, the blocks given back, the pool.\<close>

definition pool_clear :: "pool \<Rightarrow> int \<times> addr list \<times> pool" where
  "pool_clear p = (int (sum_list (map snd (block_list p))) - int (length (free_list p)),
     map fst (block_list p), p\<lparr>free_list := [], block_list := []\<rparr>)"

text \<open>The pool of queues.\<close>

definition SharedQueuePool_alloc :: "nat \<Rightarrow> ptr \<Rightarrow> ptr \<Rightarrow> pool \<Rightarrow> pool_error + (addr \<times> pool)" where
  "SharedQueuePool_alloc sizeof_SharedQueue r1 r2 p = pool_alloc sizeof_SharedQueue r1 r2 p"

definition SharedQueuePool_free :: "nat \<Rightarrow> ptr \<Rightarrow> pool \<Rightarrow> pool_error + pool" where
  "SharedQueuePool_free sizeof_SharedQueue x p = pool_free sizeof_SharedQueue x p"

definition SharedQueuePool_clear :: "pool \<Rightarrow> int \<times> addr list \<times> pool" where
  "SharedQueuePool_clear p = pool_clear p"

subsection \<open>Clients of a pool\<close>

text \<open>
  What the page allocator promises: a block it returns lies in the 48-bit user address space
  and does not overlap a block that is still allocated.
\<close>

definition fresh_block :: "nat \<Rightarrow> pool \<Rightarrow> nat \<Rightarrow> ptr \<Rightarrow> bool" where
  "fresh_block sz p n r = (case r of None \<Rightarrow> True | Some a \<Rightarrow>
     a + n * sz \<le> 2 ^ 48 \<and> (\<forall>b \<in> set (block_list p). a + n * sz \<le> fst b \<or> fst b + snd b * sz \<le> a))"

inductive pool_step :: "nat \<Rightarrow> addr list \<times> pool \<Rightarrow> addr list \<times> pool \<Rightarrow> bool" for sz where
  alloc: "fresh_block sz p (block_size p) r1 \<Longrightarrow> fresh_block sz p (minblock sz) r2 \<Longrightarrow>
    pool_alloc sz r1 r2 p = Inr (a, p') \<Longrightarrow> pool_step sz (out, p) (a # out, p')"
| free: "a \<in> set out \<Longrightarrow> pool_free sz (Some a) p = Inr p' \<Longrightarrow> pool_step sz (out, p) (remove1 a out, p')"

definition pool_objs :: "nat \<Rightarrow> pool \<Rightarrow> addr list" where
  "pool_objs sz p = concat (map (block_objs sz) (block_list p))"

fun blocks_apart :: "nat \<Rightarrow> (addr \<times> nat) list \<Rightarrow> bool" where
  "blocks_apart sz [] = True"
| "blocks_apart sz (b # bs) = ((\<forall>c \<in> set bs. fst b + snd b * sz \<le> fst c \<or> fst c + snd c * sz \<le> fst b) \<and> blocks_apart sz bs)"

definition pool_inv :: "nat \<Rightarrow> addr list \<times> pool \<Rightarrow> bool" where
  "pool_inv sz = (\<lambda>(out, p). mset (out @ free_list p) = mset (pool_objs sz p) \<and> blocks_apart sz (block_list p) \<and>
     0 < block_size p \<and> block_size p < 2 ^ 64 \<and> (\<forall>b \<in> set (block_list p). 0 < snd b))"

lemma block_objs_range: "0 < sz \<Longrightarrow> a \<in> set (block_objs sz b) \<Longrightarrow> fst b \<le> a \<and> a + sz \<le> fst b + snd b * sz"
  by (auto simp: block_objs_def) (metis Suc_leI mult_Suc mult_le_mono1 add.commute)

lemma block_objs_apart:
  "a \<in> set (block_objs sz b) \<Longrightarrow> c \<in> set (block_objs sz b) \<Longrightarrow> a \<noteq> c \<Longrightarrow> a + sz \<le> c \<or> c + sz \<le> a"
proof -
  assume "a \<in> set (block_objs sz b)" and "c \<in> set (block_objs sz b)" and ne: "a \<noteq> c"
  then obtain i j where ij: "a = fst b + i * sz" "c = fst b + j * sz" by (auto simp: block_objs_def)
  then have "i < j \<or> j < i" using ne by (cases i j rule: linorder_cases) auto
  moreover have "k < l \<Longrightarrow> k * sz + sz \<le> l * sz" for k l
    by (metis Suc_leI mult_Suc mult_le_mono1 add.commute)
  ultimately show ?thesis using ij by (metis add.assoc add_le_cancel_left)
qed

lemma block_objs_distinct: "0 < sz \<Longrightarrow> distinct (block_objs sz b)"
  by (auto simp: block_objs_def distinct_map intro: inj_onI)

lemma objs_distinct: "0 < sz \<Longrightarrow> blocks_apart sz bs \<Longrightarrow> distinct (concat (map (block_objs sz) bs))"
proof (induction bs)
  case (Cons b bs)
  have "a \<notin> set (block_objs sz c)" if "a \<in> set (block_objs sz b)" "c \<in> set bs" for a c
    using block_objs_range [OF Cons.prems(1) that(1)] block_objs_range [OF Cons.prems(1), of a c] Cons.prems that(2)
    by fastforce
  then show ?case using Cons block_objs_distinct [of sz b] by auto
qed simp

lemma objs_apart:
  assumes "0 < sz" and "blocks_apart sz bs" and "a \<in> set (concat (map (block_objs sz) bs))"
    and "c \<in> set (concat (map (block_objs sz) bs))" and "a \<noteq> c"
  shows "a + sz \<le> c \<or> c + sz \<le> a"
  using assms(2-5)
proof (induction bs)
  case (Cons b bs)
  have far: "x + sz \<le> y \<or> y + sz \<le> x" if "x \<in> set (block_objs sz b)" "d \<in> set bs" "y \<in> set (block_objs sz d)" for x y d
    using block_objs_range [OF assms(1) that(1)] block_objs_range [OF assms(1) that(3)] Cons.prems(1) that(2) by fastforce
  consider "a \<in> set (block_objs sz b)" "c \<in> set (block_objs sz b)"
    | d where "a \<in> set (block_objs sz b)" "d \<in> set bs" "c \<in> set (block_objs sz d)"
    | d where "c \<in> set (block_objs sz b)" "d \<in> set bs" "a \<in> set (block_objs sz d)"
    | "a \<in> set (concat (map (block_objs sz) bs))" "c \<in> set (concat (map (block_objs sz) bs))"
    using Cons.prems(2,3) by auto
  then show ?case
  proof cases
    case 1
    then show ?thesis using block_objs_apart Cons.prems(4) by blast
  next
    case 2
    then show ?thesis using far by blast
  next
    case 3
    then show ?thesis using far by blast
  next
    case 4
    then show ?thesis using Cons by auto
  qed
qed simp

lemma blocks_apart_snoc:
  "blocks_apart sz (bs @ [b]) \<longleftrightarrow> blocks_apart sz bs \<and>
     (\<forall>c \<in> set bs. fst b + snd b * sz \<le> fst c \<or> fst c + snd c * sz \<le> fst b)"
  by (induction bs) auto

lemma grow_bound: "0 < sz \<Longrightarrow> (a::nat) + n * sz \<le> 2 ^ 48 \<Longrightarrow> n * 2 < 2 ^ 64"
proof -
  assume s: "0 < sz" and b: "a + n * sz \<le> 2 ^ 48"
  have "n \<le> n * sz" using s by (cases sz) auto
  also have "\<dots> \<le> 2 ^ 48" using b by linarith
  finally show ?thesis by simp
qed

lemma pool_grow_inv:
  assumes "pool_inv sz (out, p)" and "0 < sz" and "sz \<le> 4096"
    and "fresh_block sz p (block_size p) r1" and "fresh_block sz p (minblock sz) r2"
    and "pool_grow sz r1 r2 p = Inr q"
  shows "pool_inv sz (out, q) \<and> free_list q \<noteq> []"
proof -
  have m: "0 < minblock sz" using assms(2,3) by (simp add: minblock_def div_greater_zero_iff)
  obtain b n where q: "q = \<lparr>free_list = free_list p @ block_objs sz (b, n), block_list = block_list p @ [(b, n)],
        block_size = (n * 2) mod 2 ^ 64\<rparr>" and n: "0 < n" and f: "fresh_block sz p n (Some b)"
    using assms(1,4-6) m by (auto simp: pool_grow_def pool_inv_def split: option.splits)
  have "n * 2 < 2 ^ 64" using f grow_bound [OF assms(2), of b n] by (simp add: fresh_block_def)
  moreover have "blocks_apart sz (block_list q)"
    using assms(1) f by (simp add: q blocks_apart_snoc fresh_block_def pool_inv_def)
  ultimately show ?thesis using assms(1) n by (simp add: q pool_inv_def pool_objs_def block_objs_def)
qed

lemma pool_step_inv:
  assumes "pool_step sz c c'" and "pool_inv sz c" and "0 < sz" and "sz \<le> 4096"
  shows "pool_inv sz c'"
  using assms(1,2)
proof (induction rule: pool_step.induct)
  case (alloc p r1 r2 a p' out)
  obtain q where q: "pool_inv sz (out, q)" "free_list q \<noteq> []" "a = last (free_list q)" "p' = q\<lparr>free_list := butlast (free_list q)\<rparr>"
    using alloc pool_grow_inv [OF alloc.prems assms(3,4) alloc.hyps(1,2)]
    by (auto simp: pool_alloc_def split: if_splits sum.splits)
  have "mset (free_list q) = mset (butlast (free_list q)) + {#last (free_list q)#}"
    by (metis append_butlast_last_id mset_append mset_single_iff_right q(2))
  then show ?case using q by (simp add: pool_inv_def pool_objs_def)
next
  case (free a out p p')
  then show ?case by (auto simp: pool_free_def pool_inv_def pool_objs_def split: if_splits)
qed

lemma pool_reach_inv: "(pool_step sz)\<^sup>*\<^sup>* c c' \<Longrightarrow> 0 < sz \<Longrightarrow> sz \<le> 4096 \<Longrightarrow> pool_inv sz c \<Longrightarrow> pool_inv sz c'"
  by (induction rule: rtranclp_induct) (auto intro: pool_step_inv)

lemma blocks_distinct: "0 < sz \<Longrightarrow> blocks_apart sz bs \<Longrightarrow> (\<forall>b \<in> set bs. 0 < snd b) \<Longrightarrow> distinct (map fst bs)"
  by (induction bs) fastforce+

lemma pool_inv_new: "0 < sz \<Longrightarrow> sz \<le> 4096 \<Longrightarrow> pool_inv sz ([], new_pool sz)"
  by (auto simp: pool_inv_def new_pool_def pool_objs_def minblock_def div_greater_zero_iff
      intro: le_less_trans [OF div_le_dividend])

lemma pool_inv_distinct: "0 < sz \<Longrightarrow> pool_inv sz (out, p) \<Longrightarrow> distinct (out @ free_list p)"
  using objs_distinct [of sz "block_list p"] mset_eq_imp_distinct_iff [of "out @ free_list p" "pool_objs sz p"]
  by (simp only: pool_inv_def pool_objs_def split)

lemma pool_inv_belongs:
  assumes "0 < sz" and "pool_inv sz (out, p)" and "a \<in> set out"
  shows "belongs sz p a"
proof -
  have "set (out @ free_list p) = set (pool_objs sz p)" using assms(2)
    by (intro mset_eq_setD) (simp add: pool_inv_def)
  then have "a \<in> set (pool_objs sz p)" using assms(3) by auto
  then obtain b where "b \<in> set (block_list p)" "a \<in> set (block_objs sz b)" by (auto simp: pool_objs_def)
  then show ?thesis using block_objs_range [OF assms(1), of a b] assms(1) unfolding belongs_def
    by (intro bexI [of _ b]) auto
qed

text \<open>C39: Whatever sequence of allocations and releases clients run on a pool, live objects are
  distinct and do not overlap, each lies in a block, so that giving it back is never refused,
  no object is both live and free, and \<open>clear\<close> reports exactly the number of live objects as
  leaked and gives every block back once.\<close>

theorem pool_objects_disjoint:
  assumes "0 < sz" and "sz \<le> 4096" and "(pool_step sz)\<^sup>*\<^sup>* ([], new_pool sz) (out, p)"
  shows "distinct (out @ free_list p) \<and>
    (\<forall>a \<in> set out. \<forall>c \<in> set (out @ free_list p). a \<noteq> c \<longrightarrow> a + sz \<le> c \<or> c + sz \<le> a) \<and>
    (\<forall>a \<in> set out. pool_free sz (Some a) p = Inr (p\<lparr>free_list := free_list p @ [a]\<rparr>)) \<and>
    fst (pool_clear p) = int (length out) \<and> distinct (fst (snd (pool_clear p)))"
proof -
  have inv: "pool_inv sz (out, p)" using pool_reach_inv [OF assms(3,1,2)] pool_inv_new assms(1,2) by blast
  then have m: "mset (out @ free_list p) = mset (pool_objs sz p)" and ap: "blocks_apart sz (block_list p)"
    by (simp_all add: pool_inv_def)
  have s: "set (out @ free_list p) = set (pool_objs sz p)" using m by (rule mset_eq_setD)
  have "distinct (out @ free_list p)" by (rule pool_inv_distinct [OF assms(1) inv])
  moreover have "\<forall>a \<in> set out. \<forall>c \<in> set (out @ free_list p). a \<noteq> c \<longrightarrow> a + sz \<le> c \<or> c + sz \<le> a"
    using objs_apart [OF assms(1) ap] s unfolding pool_objs_def by (metis Un_iff set_append)
  moreover have "belongs sz p a" if "a \<in> set out" for a by (rule pool_inv_belongs [OF assms(1) inv that])
  moreover have "length out + length (free_list p) = sum_list (map snd (block_list p))"
    using arg_cong [OF m, of size] by (simp add: pool_objs_def length_concat block_objs_def o_def)
  moreover have "distinct (map fst (block_list p))" using blocks_distinct [OF assms(1) ap] inv by (simp add: pool_inv_def)
  ultimately show ?thesis by (simp add: pool_free_def pool_clear_def)
qed

theorem pool_objects_disjoint_witness:
  "\<exists>p. (pool_step 2048)\<^sup>*\<^sup>* ([], new_pool 2048) ([12048, 10000], p) \<and> fst (pool_clear p) = 2"
proof -
  let ?p = "\<lambda>f. \<lparr>free_list = f, block_list = [(10000, 2)], block_size = 4\<rparr>"
  have 1: "pool_step 2048 ([], new_pool 2048) ([12048], ?p [10000])"
    by (rule pool_step.alloc [of _ _ "Some 10000" None])
      (simp_all add: fresh_block_def new_pool_def minblock_def pool_alloc_def pool_grow_def block_objs_def upt_rec)
  have 2: "pool_step 2048 ([12048], ?p [10000]) ([10000, 12048], ?p [])"
    by (rule pool_step.alloc [of _ _ None None]) (simp_all add: fresh_block_def pool_alloc_def)
  have 3: "pool_step 2048 ([10000, 12048], ?p []) ([10000], ?p [12048])"
    using pool_step.free [of 12048 "[10000, 12048]" 2048 "?p []" "?p [12048]"] by (simp add: pool_free_def belongs_def)
  have 4: "pool_step 2048 ([10000], ?p [12048]) ([12048, 10000], ?p [])"
    by (rule pool_step.alloc [of _ _ None None]) (simp_all add: fresh_block_def pool_alloc_def)
  have r: "(pool_step 2048)\<^sup>*\<^sup>* ([], new_pool 2048) ([12048, 10000], ?p [])"
    using 1 2 3 4 by (meson converse_rtranclp_into_rtranclp rtranclp.rtrancl_refl)
  then show ?thesis using pool_objects_disjoint [OF _ _ r] by (intro exI [of _ "?p []"]) simp
qed

end
