(* ===== verification/Int_Math.thy ===== *)
theory Int_Math
  imports Co_Prelude
begin

unbundle bit_operations_syntax

text \<open>
  The integer helpers of \<open>include/util/intmath.h\<close> on 64-bit words (and 32-bit ones for
  \<open>NextPow2\<close> and the exponents of \<open>power\<close>); an assertion that fails is the result \<open>None\<close>.
\<close>

definition Min2 :: "'a::linorder \<Rightarrow> 'a \<Rightarrow> 'a" where
  "Min2 a b = (if b < a then b else a)"

definition Max2 :: "'a::linorder \<Rightarrow> 'a \<Rightarrow> 'a" where
  "Max2 a b = (if a < b then b else a)"

fun MinN :: "'a::linorder \<Rightarrow> 'a list \<Rightarrow> 'a" where
  "MinN a [] = a"
| "MinN a (b # bs) = Min2 a (MinN b bs)"

fun MaxN :: "'a::linorder \<Rightarrow> 'a list \<Rightarrow> 'a" where
  "MaxN a [] = a"
| "MaxN a (b # bs) = Max2 a (MaxN b bs)"

definition isPowerOf2 :: "'l::len word \<Rightarrow> bool" where
  "isPowerOf2 val \<longleftrightarrow> val AND (val - 1) = 0"

definition alignDown :: "u64 \<Rightarrow> u64 \<Rightarrow> u64 option" where
  "alignDown val alignment = guarded (isPowerOf2 alignment) (Some (val AND NOT (alignment - 1)))"

definition alignUp :: "u64 \<Rightarrow> u64 \<Rightarrow> u64 option" where
  "alignUp val alignment = alignDown (val + alignment - 1) alignment"

definition isMultipleOf :: "u64 \<Rightarrow> u64 \<Rightarrow> bool option" where
  "isMultipleOf val alignment = map_option (\<lambda>a. a = val) (alignUp val alignment)"

definition smear :: "nat \<Rightarrow> 'l::len word \<Rightarrow> 'l word" where
  "smear n v = v OR drop_bit n v"

definition NextPow2_32 :: "u32 \<Rightarrow> u32" where
  "NextPow2_32 value = (if value = 0 then 1 else
     let v = value - 1; v = smear 1 v; v = smear 2 v; v = smear 4 v; v = smear 8 v; v = smear 16 v in v + 1)"

definition NextPow2_64 :: "u64 \<Rightarrow> u64" where
  "NextPow2_64 value = (if value = 0 then 1 else
     let v = value - 1; v = smear 1 v; v = smear 2 v; v = smear 4 v; v = smear 8 v; v = smear 16 v; v = smear 32 v in v + 1)"

definition BitSelect :: "nat \<Rightarrow> nat \<Rightarrow> u64 \<Rightarrow> u32" where
  "BitSelect lowBit highBit p =
     (if highBit \<noteq> 63 then ucast (drop_bit lowBit (p AND (push_bit (highBit + 1) 1 - 1))) else ucast (drop_bit lowBit p))"

definition PtrLow16Shift8 :: "u64 \<Rightarrow> u32" where
  "PtrLow16Shift8 p = ucast (drop_bit 8 (p AND 0xFFFF))"

definition PtrHigh64Shift16 :: "u64 \<Rightarrow> u32" where
  "PtrHigh64Shift16 p = ucast (drop_bit 16 (p AND 0xFFFFFFFFFFFF0000))"

definition PtrLow40Shift8 :: "u64 \<Rightarrow> u32" where
  "PtrLow40Shift8 p = ucast (drop_bit 8 (p AND 0xFFFFFFFFFF))"

definition PtrHigh64Shift40 :: "u64 \<Rightarrow> u32" where
  "PtrHigh64Shift40 p = ucast (drop_bit 40 (p AND 0xFFFFFF0000000000))"

definition PtrLow32 :: "u64 \<Rightarrow> u32" where
  "PtrLow32 p = ucast p"

definition PtrHigh32 :: "u64 \<Rightarrow> u32" where
  "PtrHigh32 p = 0"

function power_loop :: "u64 \<Rightarrow> u64 \<Rightarrow> u32 \<Rightarrow> u64" where
  "power_loop result component e =
     (if e = 0 then result
      else power_loop (if e AND 1 \<noteq> 0 then result * component else result) (component * component) (drop_bit 1 e))"
  by pat_completeness auto
termination
proof (relation "measure (\<lambda>(_, _, e). unat e)")
  fix result component :: u64 and e :: u32
  assume "e \<noteq> 0"
  then have "0 < unat e" by (simp add: unat_gt_0)
  then show "((if e AND 1 \<noteq> 0 then result * component else result, component * component, drop_bit 1 e), result, component, e)
      \<in> measure (\<lambda>(_, _, e). unat e)"
    by (simp add: unat_div_distrib drop_bit_eq_div)
qed simp

declare power_loop.simps [simp del]

definition power_u :: "u32 \<Rightarrow> u32 \<Rightarrow> u64" where
  "power_u n e = power_loop 1 (ucast n) e"

text \<open>\<open>floorLog2\<close> for a type of \<open>ts\<close> bytes: one line \<open>if (ts >= .. && (ux & m)) { y += h; ux >>= h; }\<close>
  each; the last line leaves \<open>ux\<close>, which is not read again.\<close>

definition log2_line :: "bool \<Rightarrow> u64 \<Rightarrow> nat \<Rightarrow> nat \<times> u64 \<Rightarrow> nat \<times> u64" where
  "log2_line wide m h s = (if wide \<and> snd s AND m \<noteq> 0 then (fst s + h, drop_bit h (snd s)) else s)"

definition floorLog2 :: "nat \<Rightarrow> u64 \<Rightarrow> nat option" where
  "floorLog2 ts x = guarded (0 < x) (
     let s = (0, x);
         s = log2_line (8 \<le> ts) 0xffffffff00000000 32 s;
         s = log2_line (4 \<le> ts) 0x00000000ffff0000 16 s;
         s = log2_line (2 \<le> ts) 0x000000000000ff00 8 s;
         s = log2_line True 0x00000000000000f0 4 s;
         s = log2_line True 0x000000000000000c 2 s;
         y = (if snd s AND 0x0000000000000002 \<noteq> 0 then fst s + 1 else fst s)
     in Some y)"

definition ceilLog2 :: "nat \<Rightarrow> u64 \<Rightarrow> nat option" where
  "ceilLog2 ts n = guarded (0 < n) (if n = 1 then Some 0 else map_option (\<lambda>y. y + 1) (floorLog2 ts (n - 1)))"

definition divCeil :: "u64 \<Rightarrow> u64 \<Rightarrow> u64 option" where
  "divCeil a b = guarded (b \<noteq> 0) (Some ((a + b - 1) div b))"

definition roundUp :: "u64 \<Rightarrow> u64 \<Rightarrow> u64 option" where
  "roundUp val align = guarded (isPowerOf2 align) (let mask = align - 1 in Some ((val + mask) AND NOT mask))"

definition roundDown :: "u64 \<Rightarrow> u64 \<Rightarrow> u64 option" where
  "roundDown val align = guarded (isPowerOf2 align) (let mask = align - 1 in Some (val AND NOT mask))"

subsection \<open>Powers of two and alignment\<close>

lemma mask_and_shift: "(v::'l::len word) AND NOT (2 ^ k - 1) = push_bit k (drop_bit k v)"
  by (rule bit_word_eqI) (auto simp: bit_simps mask_eq_exp_minus_1 [symmetric])

lemma alignDown_pow2: "k < 64 \<Longrightarrow> unat ((v::u64) AND NOT (2 ^ k - 1)) = unat v div 2 ^ k * 2 ^ k"
proof -
  have "unat v div 2 ^ k * 2 ^ k \<le> unat v" by (simp add: div_times_less_eq_dividend)
  also have "unat v < 2 ^ 64" using unsigned_less [of v, where 'a = nat] by simp
  finally have le: "unat v div 2 ^ k * 2 ^ k < 2 ^ 64" .
  have "unat (push_bit k (drop_bit k v)) = take_bit 64 (push_bit k (unat (drop_bit k v)))"
    by (simp only: unsigned_push_bit_eq len_num1 len_bit0 len_bit1) simp
  also have "unat (drop_bit k v) = unat v div 2 ^ k" by (rule trans [OF unat_drop_bit_eq drop_bit_eq_div])
  finally show ?thesis using le by (simp only: mask_and_shift push_bit_eq_mult take_bit_nat_eq_self)
qed

text \<open>\<open>val & (val - 1)\<close> clears the lowest set bit, so it is zero only on zero and on single bits.\<close>

lemma isPowerOf2_iff: "isPowerOf2 (w::'l::len word) \<longleftrightarrow> w = 0 \<or> (\<exists>k < LENGTH('l). w = 2 ^ k)"
proof
  assume p: "isPowerOf2 w"
  show "w = 0 \<or> (\<exists>k < LENGTH('l). w = 2 ^ k)"
  proof (cases "w = 0")
    case False
    define n where "n = unat w"
    have n: "0 < n" "n < 2 ^ LENGTH('l)" using False unsigned_less [of w] by (simp_all add: n_def unat_gt_0)
    obtain k where k: "2 ^ k \<le> n" "n < 2 ^ Suc k"
      using ex_power_ivl1 [of 2 n] n(1) by auto
    have kl: "k < LENGTH('l)" using le_less_trans [OF k(1) n(2)] by simp
    have hi: "bit (u::'l word) k" if "2 ^ k \<le> unat u" "unat u < 2 ^ Suc k" for u
    proof -
      have "unat u div 2 ^ k = 1" using that by (intro div_nat_eqI) simp_all
      then have "bit (unat u) k" by (simp add: bit_iff_odd)
      then show ?thesis using kl by (simp add: bit_unsigned_iff)
    qed
    have "n = 2 ^ k"
    proof (rule ccontr)
      assume "n \<noteq> 2 ^ k"
      then have "2 ^ k \<le> unat (w - 1)" "unat (w - 1) < 2 ^ Suc k"
        using k False by (simp_all add: n_def unat_minus_one)
      then have "bit (w AND (w - 1)) k" using hi k by (simp add: bit_and_iff n_def)
      then show False using p by (simp add: isPowerOf2_def)
    qed
    moreover have "w = of_nat n" by (simp add: n_def)
    ultimately have "w = 2 ^ k" by simp
    then show ?thesis using kl by blast
  qed simp
next
  assume "w = 0 \<or> (\<exists>k < LENGTH('l). w = 2 ^ k)"
  then show "isPowerOf2 w"
    by (auto simp: isPowerOf2_def mask_eq_exp_minus_1 [symmetric] intro!: bit_word_eqI simp: bit_simps)
qed

subsection \<open>Smearing\<close>

lemma bit_smear:
  assumes "\<And>i. bit w i \<longleftrightarrow> (\<exists>j < m. bit v (i + j))"
  shows "bit (smear m w) i \<longleftrightarrow> (\<exists>j < 2 * m. bit v (i + j))"
proof -
  have "bit (smear m w) i \<longleftrightarrow> (\<exists>j < m. bit v (i + j)) \<or> (\<exists>j < m. bit v (i + (m + j)))"
    unfolding smear_def bit_or_iff bit_drop_bit_eq o_def assms by (simp add: add_ac)
  also have "\<dots> \<longleftrightarrow> (\<exists>j < 2 * m. bit v (i + j))"
  proof (safe)
    fix j assume "j < 2 * m" "bit v (i + j)" "\<not> (\<exists>j < m. bit v (i + (m + j)))"
    then show "\<exists>j < m. bit v (i + j)"
      by (cases "j < m") (auto dest!: spec [of _ "j - m"])
  next
    fix j assume "j < m" "bit v (i + j)"
    then show "\<exists>j < 2 * m. bit v (i + j)" by (intro exI [of _ j]) simp
  next
    fix j assume "j < m" "bit v (i + (m + j))"
    then show "\<exists>j < 2 * m. bit v (i + j)" by (intro exI [of _ "m + j"]) simp
  qed
  finally show ?thesis .
qed

lemma smear_full:
  assumes "\<And>i. bit (w::'l word) i \<longleftrightarrow> (\<exists>j < LENGTH('l). bit (v::'l::len word) (i + j))" and "unat v < 2 ^ n" and "n = 0 \<or> 2 ^ (n - 1) \<le> unat v"
    and "n \<le> LENGTH('l)"
  shows "w = mask n"
proof (rule bit_word_eqI)
  fix i assume i: "i < LENGTH('l)"
  have top: "bit v (n - 1)" if "0 < n"
  proof -
    have "unat v div 2 ^ (n - 1) = 1" using assms(2,3) that by (intro div_nat_eqI) (cases n; simp)+
    then have "bit (unat v) (n - 1)" by (simp add: bit_iff_odd)
    then show ?thesis using assms(4) that by (simp add: bit_unsigned_iff)
  qed
  have above: "\<not> bit v k" if "n \<le> k" for k
  proof -
    have "unat v < 2 ^ k" using assms(2) that by (meson less_le_trans one_le_numeral power_increasing)
    then have "\<not> bit (unat v) k" by (simp add: bit_iff_odd)
    then show ?thesis by (simp add: bit_unsigned_iff)
  qed
  have "bit w i \<longleftrightarrow> i < n"
  proof
    assume "bit w i"
    then obtain j where "bit v (i + j)" using assms(1) by blast
    then have "\<not> n \<le> i + j" using above by blast
    then show "i < n" by simp
  next
    assume "i < n"
    then show "bit w i" unfolding assms(1) using top assms(4) by (intro exI [of _ "n - 1 - i"]) simp
  qed
  then show "bit w i \<longleftrightarrow> bit (mask n :: 'l word) i" using i by (simp add: bit_mask_iff)
qed

lemma smear32: "bit (smear 16 (smear 8 (smear 4 (smear 2 (smear 1 v))))) i \<longleftrightarrow> (\<exists>j < 32. bit (v::'l::len word) (i + j))"
proof -
  have 1: "bit v i \<longleftrightarrow> (\<exists>j < 1. bit v (i + j))" for i by simp
  note 2 = bit_smear [of v 1 v, OF 1, simplified]
  note 4 = bit_smear [of _ 2 v, OF 2, simplified]
  note 8 = bit_smear [of _ 4 v, OF 4, simplified]
  note 16 = bit_smear [of _ 8 v, OF 8, simplified]
  show ?thesis using bit_smear [of _ 16 v, OF 16, simplified] by simp
qed

text \<open>\<open>v + 1\<close> after smearing \<open>v\<close> is the power of two above \<open>v\<close>.\<close>

lemma bit_length_ex: "\<exists>n. (v::nat) < 2 ^ n \<and> (n = 0 \<or> 2 ^ (n - 1) \<le> v)"
proof (cases "v = 0")
  case True
  then show ?thesis by (intro exI [of _ 0]) simp
next
  case False
  obtain k where "2 ^ k \<le> v" "v < 2 ^ Suc k" using ex_power_ivl1 [of 2 v] False by auto
  then show ?thesis by (intro exI [of _ "Suc k"]) simp
qed

lemma next_pow2_nat:
  assumes "0 < (x::nat)" and "x - 1 < 2 ^ n" and "n = 0 \<or> 2 ^ (n - 1) \<le> x - 1"
  shows "x \<le> 2 ^ n" and "x \<le> 2 ^ j \<Longrightarrow> n \<le> j"
proof -
  show "x \<le> 2 ^ n" using assms(1,2) by simp
  show "n \<le> j" if "x \<le> 2 ^ j"
  proof (rule ccontr)
    assume "\<not> n \<le> j"
    then have "(2::nat) ^ j \<le> 2 ^ (n - 1)" and "0 < n" by (simp_all add: power_increasing)
    then show False using assms that by linarith
  qed
qed

lemma smear_plus_one:
  assumes "(x::'l word) \<noteq> 0" and "\<And>i. bit (w::'l::len word) i \<longleftrightarrow> (\<exists>j < LENGTH('l). bit (x - 1) (i + j))"
  shows "if unat x \<le> 2 ^ (LENGTH('l) - 1)
     then \<exists>k < LENGTH('l). w + 1 = 2 ^ k \<and> unat x \<le> 2 ^ k \<and> (\<forall>j. unat x \<le> 2 ^ j \<longrightarrow> k \<le> j)
     else w + 1 = 0"
proof -
  obtain n where n: "unat (x - 1) < 2 ^ n" "n = 0 \<or> 2 ^ (n - 1) \<le> unat (x - 1)" using bit_length_ex by blast
  have u: "unat (x - 1) = unat x - 1" and pos: "0 < unat x" using assms(1) by (simp_all add: unat_minus_one unat_gt_0)
  have "2 ^ (n - 1) < (2::nat) ^ LENGTH('l)" if "0 < n"
  proof (rule le_less_trans)
    show "2 ^ (n - 1) \<le> unat (x - 1)" using n(2) that by auto
    show "unat (x - 1) < 2 ^ LENGTH('l)" by (rule unsigned_less)
  qed
  then have nl: "n \<le> LENGTH('l)" by (cases n) auto
  then have w: "w = mask n" using smear_full [OF assms(2) n] by simp
  then have w1: "w + 1 = 2 ^ n" by (simp add: mask_eq_exp_minus_1)
  show ?thesis
  proof (cases "unat x \<le> 2 ^ (LENGTH('l) - 1)")
    case True
    have n1: "n \<le> LENGTH('l) - 1" by (rule next_pow2_nat(2) [OF pos n [unfolded u] True])
    have "n < LENGTH('l)" using n1 len_gt_0 [where 'a = 'l] by linarith
    moreover have "unat x \<le> 2 ^ n" by (rule next_pow2_nat(1) [OF pos n [unfolded u]])
    moreover have "\<forall>j. unat x \<le> 2 ^ j \<longrightarrow> n \<le> j" using next_pow2_nat(2) [OF pos n [unfolded u]] by blast
    ultimately show ?thesis using True w1 by auto
  next
    case False
    have "\<not> n \<le> LENGTH('l) - 1"
    proof
      assume "n \<le> LENGTH('l) - 1"
      then have "(2::nat) ^ n \<le> 2 ^ (LENGTH('l) - 1)" by (simp add: power_increasing)
      then show False using False next_pow2_nat(1) [OF pos n [unfolded u]] by linarith
    qed
    then have "n = LENGTH('l)" using nl by simp
    then show ?thesis using False w1 by simp
  qed
qed

lemma len32: "LENGTH(32) = 32" and len64: "LENGTH(64) = 2 * 32"
  by simp_all

lemma power_loop_eq: "power_loop r c e = r * c ^ unat e"
proof (induction r c e rule: power_loop.induct)
  case (1 r c e)
  show ?case
  proof (cases "e = 0")
    case False
    have h: "unat (drop_bit 1 e) = unat e div 2" by (simp add: unat_div_distrib drop_bit_eq_div)
    have o: "e AND 1 \<noteq> 0 \<longleftrightarrow> odd (unat e)"
      using bit_unsigned_iff [where 'a = nat, of e 0] by (simp add: bit_0 and_one_eq mod_2_eq_odd)
    have "power_loop r c e = (if odd (unat e) then r * c else r) * (c * c) ^ (unat e div 2)"
      using 1 [OF False] False by (simp only: power_loop.simps [of r c e] h o if_False)
    also have "\<dots> = r * c ^ unat e"
    proof (cases "odd (unat e)")
      case True
      then have "c ^ unat e = c * (c * c) ^ (unat e div 2)"
        by (metis odd_two_times_div_two_succ power_Suc power2_eq_square power_mult Suc_eq_plus1)
      then show ?thesis using True by (simp add: mult.assoc)
    next
      case False
      then have "c ^ unat e = (c * c) ^ (unat e div 2)" by (metis dvd_mult_div_cancel power2_eq_square power_mult)
      then show ?thesis using False by simp
    qed
    finally show ?thesis .
  qed (simp add: power_loop.simps)
qed

subsection \<open>Logarithms\<close>

text \<open>The invariant of the chain: \<open>ux\<close> is the argument shifted by \<open>y\<close>, not zero, below \<open>2 ^ b\<close>.\<close>

lemma upper_half:
  assumes "unat (u::u64) < 2 ^ (2 * h)" and "2 * h \<le> 64"
  shows "u AND push_bit h (mask h) \<noteq> 0 \<longleftrightarrow> 2 ^ h \<le> unat u"
proof -
  have "u AND push_bit h (mask h) = push_bit h (drop_bit h u)"
  proof (rule bit_word_eqI)
    fix i assume "i < LENGTH(64)"
    have "\<not> bit u i" if "2 * h \<le> i"
    proof -
      have "unat u < 2 ^ i" using assms(1) that by (meson less_le_trans one_le_numeral power_increasing)
      then have "\<not> bit (unat u) i" by (simp add: bit_iff_odd)
      then show ?thesis by (simp add: bit_unsigned_iff)
    qed
    then show "bit (u AND push_bit h (mask h)) i \<longleftrightarrow> bit (push_bit h (drop_bit h u)) i"
      by (cases "2 * h \<le> i") (auto simp: bit_simps)
  qed
  also have "\<dots> = u AND NOT (2 ^ h - 1)" by (simp only: mask_and_shift)
  finally have "u AND push_bit h (mask h) \<noteq> 0 \<longleftrightarrow> unat (u AND NOT (2 ^ h - 1)) \<noteq> 0" by (simp only: unat_eq_zero)
  also have "\<dots> \<longleftrightarrow> 2 ^ h \<le> unat u"
    using alignDown_pow2 [of h u] assms(2) by (simp add: div_eq_0_iff) linarith
  finally show ?thesis .
qed

definition log_ok :: "u64 \<Rightarrow> nat \<Rightarrow> nat \<times> u64 \<Rightarrow> bool" where
  "log_ok x b = (\<lambda>(y, ux). ux \<noteq> 0 \<and> ux = drop_bit y x \<and> unat ux < 2 ^ b)"

lemma log_line:
  assumes "log_ok x (2 * h) s" and "2 * h \<le> 64" and "m = push_bit h (mask h)"
  shows "log_ok x h (log2_line True m h s)"
proof -
  obtain y ux where s: "s = (y, ux)" by (cases s)
  have ok: "ux \<noteq> 0" "ux = drop_bit y x" "unat ux < 2 ^ (2 * h)" using assms(1) unfolding log_ok_def s split_conv by blast+
  have c: "ux AND m \<noteq> 0 \<longleftrightarrow> 2 ^ h \<le> unat ux" unfolding assms(3) by (rule upper_half [OF ok(3) assms(2)])
  have d: "unat (drop_bit h ux) = unat ux div 2 ^ h" by (rule trans [OF unat_drop_bit_eq drop_bit_eq_div])
  show ?thesis
  proof (cases "2 ^ h \<le> unat ux")
    case True
    have "unat ux < 2 ^ h * 2 ^ h" using ok(3) by (simp only: power_add mult_2)
    then have "unat ux div 2 ^ h < 2 ^ h" by (simp add: less_mult_imp_div_less)
    moreover have "unat (drop_bit h ux) \<noteq> 0" unfolding d using True by (simp add: div_eq_0_iff)
    moreover have "drop_bit h ux = drop_bit (y + h) x" unfolding ok(2) by (simp add: add.commute)
    ultimately show ?thesis using True c d by (simp add: log2_line_def s log_ok_def unat_eq_zero)
  next
    case False
    then show ?thesis using c ok by (simp add: log2_line_def s log_ok_def)
  qed
qed

lemma log2_line_False: "log2_line False m h s = s"
  by (simp add: log2_line_def)

lemma log_masks:
  "(0xffffffff00000000::u64) = push_bit 32 (mask 32)" "(0xffff0000::u64) = push_bit 16 (mask 16)"
  "(0xff00::u64) = push_bit 8 (mask 8)" "(0xf0::u64) = push_bit 4 (mask 4)" "(0xc::u64) = push_bit 2 (mask 2)"
  "(2::u64) = push_bit 1 (mask 1)"
  by (simp_all add: mask_eq_exp_minus_1 push_bit_eq_mult)

lemma log_done: "log_ok x 1 (y, ux) \<Longrightarrow> 2 ^ y \<le> unat x \<and> unat x < 2 ^ (y + 1)"
proof -
  assume a: "log_ok x 1 (y, ux)"
  have "ux \<noteq> 0" "unat ux < 2" using a unfolding log_ok_def split_conv power_one_right by blast+
  then have "unat ux = 1" using unat_gt_0 [of ux] by linarith
  moreover have "unat ux = unat x div 2 ^ y" using a unat_drop_bit_eq [of y x] drop_bit_eq_div [of y "unat x"] by (simp add: log_ok_def)
  ultimately have "unat x div 2 ^ y = 1" by simp
  then show ?thesis by (metis Suc_1 add.commute div_eq_0_iff div_mult2_eq less_irrefl linorder_not_less nat_less_le one_div_two_eq_zero plus_1_eq_Suc power_Suc power_commutes power_not_zero zero_neq_one zero_neq_numeral)
qed

lemma floorLog2_ok:
  assumes "x \<noteq> 0" and "ts = 1 \<or> ts = 2 \<or> ts = 4 \<or> ts = 8" and "unat x < 2 ^ (8 * ts)"
  shows "\<exists>y. floorLog2 ts x = Some y \<and> 2 ^ y \<le> unat x \<and> unat x < 2 ^ (y + 1)"
proof -
  define s1 where "s1 = log2_line (8 \<le> ts) 0xffffffff00000000 32 (0, x)"
  define s2 where "s2 = log2_line (4 \<le> ts) 0xffff0000 16 s1"
  define s3 where "s3 = log2_line (2 \<le> ts) 0xff00 8 s2"
  define s4 where "s4 = log2_line True 0xf0 4 s3"
  define s5 where "s5 = log2_line True 0xc 2 s4"
  define s6 where "s6 = log2_line True 2 1 s5"
  have f: "floorLog2 ts x = Some (fst s6)"
    using assms(1) unfolding floorLog2_def Let_def s1_def [symmetric] s2_def [symmetric] s3_def [symmetric]
      s4_def [symmetric] s5_def [symmetric] by (simp add: s6_def log2_line_def word_gt_0)
  have 0: "log_ok x (8 * ts) (0, x)" using assms unfolding log_ok_def by simp
  have 1: "log_ok x (min 32 (8 * ts)) s1"
    using assms(2) log_line [OF _ _ log_masks(1), of x "(0, x)"] 0 by (auto simp: s1_def log2_line_False)
  have 2: "log_ok x (min 16 (8 * ts)) s2"
    using assms(2) log_line [OF _ _ log_masks(2), of x s1] 1 by (auto simp: s2_def log2_line_False)
  have 3: "log_ok x 8 s3"
    using assms(2) log_line [OF _ _ log_masks(3), of x s2] 2 by (auto simp: s3_def log2_line_False)
  have 4: "log_ok x 4 s4" unfolding s4_def by (rule log_line [OF _ _ log_masks(4)]) (use 3 in simp_all)
  have 5: "log_ok x 2 s5" unfolding s5_def by (rule log_line [OF _ _ log_masks(5)]) (use 4 in simp_all)
  have 6: "log_ok x 1 s6" unfolding s6_def by (rule log_line [OF _ _ log_masks(6)]) (use 5 in simp_all)
  have "2 ^ fst s6 \<le> unat x \<and> unat x < 2 ^ (fst s6 + 1)" by (rule log_done [of x _ "snd s6"]) (use 6 in simp)
  then show ?thesis using f by blast
qed
subsection \<open>Properties\<close>

lemma alignDown_eq: "k < 64 \<Longrightarrow> alignDown v (2 ^ k) = Some (of_nat (unat v div 2 ^ k * 2 ^ k))"
proof -
  assume k: "k < 64"
  have "isPowerOf2 (2 ^ k :: u64)" using k by (auto simp: isPowerOf2_iff)
  moreover have "v AND NOT (2 ^ k - 1) = of_nat (unat v div 2 ^ k * 2 ^ k)"
    using alignDown_pow2 [OF k, of v] by (metis of_nat_unat ucast_id)
  ultimately show ?thesis by (simp add: alignDown_def)
qed

lemma align_up_nat: "0 < (a::nat) \<Longrightarrow> (n + a - 1) div a * a = (if a dvd n then n else (n div a + 1) * a)"
proof -
  assume a: "0 < a"
  show ?thesis
  proof (cases "a dvd n")
    case True
    then obtain q where q: "n = a * q" by blast
    have "(n + a - 1) div a = q" using a q by (intro div_nat_eqI) (simp_all add: algebra_simps)
    then show ?thesis using True q by simp
  next
    case False
    then have pos: "0 < n mod a" by (simp add: dvd_eq_mod_eq_0)
    have e: "n div a * a + n mod a = n" by simp
    have "n + a - 1 = (n div a * a + a) + (n mod a - 1)" using e pos by linarith
    moreover have "n mod a - 1 < a" using a by (meson less_imp_diff_less mod_less_divisor)
    ultimately have "(n + a - 1) div a = n div a + 1" by (intro div_nat_eqI) (simp_all add: algebra_simps)
    then show ?thesis using False by simp
  qed
qed

text \<open>For every power of two \<open>a\<close> below \<open>2^64\<close>, \<open>alignDown\<close>, \<open>roundDown\<close>, \<open>alignUp\<close> and \<open>roundUp\<close> return
  the nearest multiple of \<open>a\<close> below and above, the latter when that multiple is representable;
  \<open>isMultipleOf\<close> then decides divisibility; any other non-zero alignment fails the assertion.\<close>

lemma align_correct:
  assumes "unat v + 2 ^ k \<le> 2 ^ 64" and "k < 64"
  shows "alignDown v (2 ^ k) = Some (of_nat (unat v div 2 ^ k * 2 ^ k)) \<and>
    roundDown v (2 ^ k) = alignDown v (2 ^ k) \<and>
    alignUp v (2 ^ k) = Some (of_nat (if 2 ^ k dvd unat v then unat v else (unat v div 2 ^ k + 1) * 2 ^ k)) \<and>
    roundUp v (2 ^ k) = alignUp v (2 ^ k) \<and>
    isMultipleOf v (2 ^ k) = Some (2 ^ k dvd unat v) \<and>
    (\<forall>a. a \<noteq> 0 \<and> (\<forall>j < 64. a \<noteq> 2 ^ j) \<longrightarrow> alignDown v a = None \<and> roundUp v a = None)"
proof -
  have u: "unat (v + 2 ^ k - 1) = unat v + 2 ^ k - 1"
  proof -
    have "v + 2 ^ k - 1 = of_nat (unat v + 2 ^ k - 1)" by (subst of_nat_diff) (simp_all add: Suc_le_eq)
    moreover have "unat v + 2 ^ k - 1 < 2 ^ 64" using assms(1) by simp
    ultimately show ?thesis by (simp only: unat_of_nat_u64)
  qed
  have up: "alignUp v (2 ^ k) = Some (of_nat (if 2 ^ k dvd unat v then unat v else (unat v div 2 ^ k + 1) * 2 ^ k))"
    unfolding alignUp_def alignDown_eq [OF assms(2)] u by (simp only: align_up_nat [of "2 ^ k"] zero_less_power zero_less_numeral)
  have p: "isPowerOf2 (2 ^ k :: u64)" using assms(2) by (auto simp: isPowerOf2_iff)
  have "roundUp v (2 ^ k) = alignUp v (2 ^ k)" by (simp add: roundUp_def alignUp_def alignDown_def Let_def add_diff_eq)
  moreover have "roundDown v (2 ^ k) = alignDown v (2 ^ k)" by (simp add: roundDown_def alignDown_def Let_def)
  moreover have "isMultipleOf v (2 ^ k) = Some (2 ^ k dvd unat v)"
  proof (cases "2 ^ k dvd unat v")
    case False
    let ?m = "(unat v div 2 ^ k + 1) * 2 ^ k"
    have lt: "unat v < ?m" by (simp add: dividend_less_div_times)
    have le: "?m \<le> 2 ^ 64" using assms(1) div_times_less_eq_dividend [of "unat v" "2 ^ k"] unfolding add_mult_distrib by linarith
    have "of_nat ?m \<noteq> v"
    proof
      assume "of_nat ?m = v"
      then have "unat v = ?m mod 2 ^ 64" using unat_of_nat [where 'a = 64, of ?m] by (simp only: take_bit_eq_mod) simp
      moreover obtain m where m: "m = ?m" by blast
      ultimately have "unat v = m mod 2 ^ 64" "m \<le> 2 ^ 64" "unat v < m" using le lt by auto
      then have "unat v = 0" by (cases "m = 2 ^ 64") auto
      then show False using False by simp
    qed
    then show ?thesis using False by (simp add: isMultipleOf_def up)
  qed (simp add: isMultipleOf_def up)
  moreover have "alignDown v a = None \<and> roundUp v a = None" if "a \<noteq> 0" "\<forall>j < 64. a \<noteq> 2 ^ j" for a
    using that by (simp add: alignDown_def roundUp_def isPowerOf2_iff)
  ultimately show ?thesis using up alignDown_eq [OF assms(2)] by simp
qed

text \<open>\<open>NextPow2\<close> returns the smallest power of two that is not below its argument, on 32 and on 64
  bits; above the largest representable power it wraps to zero.\<close>

lemma NextPow2_correct:
  "(if unat x \<le> 2 ^ 31 then \<exists>k < 32. NextPow2_32 x = 2 ^ k \<and> unat x \<le> 2 ^ k \<and> (\<forall>j. unat x \<le> 2 ^ j \<longrightarrow> k \<le> j)
    else NextPow2_32 x = 0) \<and>
   (if unat y \<le> 2 ^ 63 then \<exists>k < 64. NextPow2_64 y = 2 ^ k \<and> unat y \<le> 2 ^ k \<and> (\<forall>j. unat y \<le> 2 ^ j \<longrightarrow> k \<le> j)
    else NextPow2_64 y = 0)"
proof (rule conjI)
  show "if unat x \<le> 2 ^ 31 then \<exists>k < 32. NextPow2_32 x = 2 ^ k \<and> unat x \<le> 2 ^ k \<and> (\<forall>j. unat x \<le> 2 ^ j \<longrightarrow> k \<le> j)
    else NextPow2_32 x = 0"
  proof (cases "x = 0")
    case False
    then show ?thesis using smear_plus_one [of x, OF False smear32 [of "x - 1", folded len32]] by (simp add: NextPow2_32_def Let_def split: if_split_asm)
  qed (auto simp: NextPow2_32_def intro: exI [of _ 0])
  show "if unat y \<le> 2 ^ 63 then \<exists>k < 64. NextPow2_64 y = 2 ^ k \<and> unat y \<le> 2 ^ k \<and> (\<forall>j. unat y \<le> 2 ^ j \<longrightarrow> k \<le> j)
    else NextPow2_64 y = 0"
  proof (cases "y = 0")
    case False
    then show ?thesis using smear_plus_one [of y, OF False bit_smear [OF smear32 [of "y - 1"], folded len64]] by (simp add: NextPow2_64_def Let_def split: if_split_asm)
  qed (auto simp: NextPow2_64_def intro: exI [of _ 0])
qed

text \<open>\<open>power\<close> computes the power modulo \<open>2^64\<close>, whatever the exponent.\<close>

lemma power_correct: "power_u n e = of_nat (unat n ^ unat e)"
  by (simp add: power_u_def power_loop_eq)

text \<open>On a positive value that fits its type, of 1, 2, 4 or 8 bytes, \<open>floorLog2\<close> and \<open>ceilLog2\<close> return
  the logarithm to base two rounded down and up.\<close>

lemma log2_correct:
  assumes "x \<noteq> 0" and "ts = 1 \<or> ts = 2 \<or> ts = 4 \<or> ts = 8" and "unat x < 2 ^ (8 * ts)"
  shows "(\<exists>y. floorLog2 ts x = Some y \<and> 2 ^ y \<le> unat x \<and> unat x < 2 ^ (y + 1)) \<and>
    (\<exists>z. ceilLog2 ts x = Some z \<and> unat x \<le> 2 ^ z \<and> (\<forall>j. unat x \<le> 2 ^ j \<longrightarrow> z \<le> j))"
proof (rule conjI [OF floorLog2_ok [OF assms]])
  have pos: "0 < x" using assms(1) by (simp add: word_gt_0)
  show "\<exists>z. ceilLog2 ts x = Some z \<and> unat x \<le> 2 ^ z \<and> (\<forall>j. unat x \<le> 2 ^ j \<longrightarrow> z \<le> j)"
  proof (cases "x = 1")
    case False
    then have ne: "x - 1 \<noteq> 0" by simp
    have u: "unat (x - 1) = unat x - 1" using assms(1) by (rule unat_minus_one)
    obtain y where y: "floorLog2 ts (x - 1) = Some y" "2 ^ y \<le> unat (x - 1)" "unat (x - 1) < 2 ^ (y + 1)"
      using floorLog2_ok [OF ne assms(2)] assms(3) u by (metis less_imp_diff_less)
    have "0 < unat x" using assms(1) by (simp add: unat_gt_0)
    note n = next_pow2_nat [OF this, of "y + 1"]
    have "unat x \<le> 2 ^ (y + 1)" and "\<forall>j. unat x \<le> 2 ^ j \<longrightarrow> y + 1 \<le> j" using n y(2,3) u by auto
    then show ?thesis using pos False y(1) by (intro exI [of _ "y + 1"]) (simp add: ceilLog2_def)
  qed (auto simp: ceilLog2_def)
qed

end
