(* ===== verification/Aql_Queues.thy ===== *)
theory Aql_Queues
  imports Int_Math Atomic_Ops
begin

unbundle bit_operations_syntax

text \<open>
  The packet queues: the layout of an AQL packet and of its header (\<open>include/stream_api.h\<close>), the
  hardware queue (\<open>include/HardQueue.h\<close>, \<open>src/core/HardQueue.cpp\<close>) with its doorbell, and the
  software queue (\<open>include/SoftQueue.h\<close>, \<open>src/core/SoftQueue.cpp\<close>). The device driver and the
  runtime's memory functions are outside these files: what they answer (a buffer, a doorbell
  register, a queue number) is an argument of the constructors, what they are told is a log.
\<close>

subsection \<open>Packets\<close>

datatype memory_model = LargeModel | SmallLittle | SmallBig

text \<open>A field is its size and alignment; fields are placed in order, the struct is padded at its end.\<close>

type_synonym field = "nat \<times> nat"

definition place :: "nat \<Rightarrow> nat \<Rightarrow> nat" where
  "place off al = (off + al - 1) div al * al"

fun layout :: "nat \<Rightarrow> field list \<Rightarrow> nat" where
  "layout off [] = off"
| "layout off ((sz, al) # fs) = layout (place off al + sz) fs"

definition align_of :: "field list \<Rightarrow> nat" where
  "align_of fs = foldr (\<lambda>(_, al) m. max al m) fs 1"

definition size_of :: "field list \<Rightarrow> nat" where
  "size_of fs = place (layout 0 fs) (align_of fs)"

abbreviation f16 :: field where "f16 \<equiv> (2, 2)"
abbreviation f32 :: field where "f32 \<equiv> (4, 4)"
abbreviation f64 :: field where "f64 \<equiv> (8, 8)"

definition ptr_and_reserved :: "nat \<Rightarrow> memory_model \<Rightarrow> field list" where
  "ptr_and_reserved p m = (case m of LargeModel \<Rightarrow> [(p, p)] | SmallLittle \<Rightarrow> [(p, p), f32] | SmallBig \<Rightarrow> [f32, (p, p)])"

definition kernel_dispatch_packet_t :: "nat \<Rightarrow> memory_model \<Rightarrow> field list" where
  "kernel_dispatch_packet_t p m =
     [f16, f16, f16, f16, f16, f32, f16, f16, f16, f32, f32, f64, f64] @ ptr_and_reserved p m @ [(p, p)]"

definition device_dispatch_packet_t :: "nat \<Rightarrow> memory_model \<Rightarrow> field list" where
  "device_dispatch_packet_t p m = [f16, f16, f32] @ ptr_and_reserved p m @ [(32, 8), (p, p), f64]"

definition barrier_packet_t :: "nat \<Rightarrow> field list" where
  "barrier_packet_t p = [f16, f16, f32, (40, 8), (p, p), f64]"

definition dma_copy_packet_t :: "nat \<Rightarrow> field list" where
  "dma_copy_packet_t p = [f16, f16, (8, 8), (p, p), (p, p), f64, f64, (12, 4)]"

definition task_packet_t :: "nat \<Rightarrow> field list" where
  "task_packet_t p = [f16, f16, (8, 8), (p, p), (p, p), f64, f64, (12, 4)]"

definition sizeof_AqlPacket :: "nat \<Rightarrow> memory_model \<Rightarrow> nat" where
  "sizeof_AqlPacket p m = foldr max (map size_of
     [kernel_dispatch_packet_t p m, barrier_packet_t p, barrier_packet_t p, device_dispatch_packet_t p m,
      dma_copy_packet_t p, task_packet_t p]) 0"

definition PACKET_TYPE_INVALID :: u16 where "PACKET_TYPE_INVALID = 1"
definition PACKET_TYPE_TASK :: u16 where "PACKET_TYPE_TASK = 7"
definition PACKET_TYPE_MAX :: u8 where "PACKET_TYPE_MAX = 5"
definition PACKET_HEADER_TYPE :: nat where "PACKET_HEADER_TYPE = 0"
definition PACKET_HEADER_WIDTH_TYPE :: nat where "PACKET_HEADER_WIDTH_TYPE = 8"

definition packet_type :: "u16 \<Rightarrow> u8" where
  "packet_type header = ucast (drop_bit PACKET_HEADER_TYPE header AND (push_bit PACKET_HEADER_WIDTH_TYPE 1 - 1))"

definition packet_IsValid :: "u16 \<Rightarrow> bool" where
  "packet_IsValid header \<longleftrightarrow> packet_type header \<le> PACKET_TYPE_MAX \<and> packet_type header \<noteq> ucast PACKET_TYPE_INVALID"

subsection \<open>The shared queue structure\<close>

record co_queue =
  qtype :: u32
  qsize :: u32                          \<comment> \<open>\<open>size\<close>: packets of the ring\<close>
  qid :: u64
  write_dispatch_id :: u64
  read_dispatch_id :: u64
  max_legacy :: u64                     \<comment> \<open>\<open>max_legacy_doorbell_dispatch_id_plus_1\<close>\<close>
  doorbell_lock :: u32                  \<comment> \<open>\<open>legacy_doorbell_lock\<close>\<close>
  queue_properties :: u32

definition co_queue_zero :: co_queue where
  "co_queue_zero = \<lparr>qtype = 0, qsize = 0, qid = 0, write_dispatch_id = 0, read_dispatch_id = 0, max_legacy = 0,
     doorbell_lock = 0, queue_properties = 0\<rparr>"

text \<open>\<open>BITS_SET\<close> on a field of width one at \<open>shift\<close>.\<close>

definition BITS_SET :: "u32 \<Rightarrow> nat \<Rightarrow> u32 \<Rightarrow> u32" where
  "BITS_SET dst shift val =
     (let m = push_bit shift 1 in (dst AND (NOT (push_bit shift 1) AND NOT m)) OR (push_bit shift val AND m))"

definition QUEUE_PROPERTIES_IS_PTR64 :: nat where "QUEUE_PROPERTIES_IS_PTR64 = 1"
definition QUEUE_PROPERTIES_ENABLE_PROFILING :: nat where "QUEUE_PROPERTIES_ENABLE_PROFILING = 3"

datatype queue_error = ERROR_INVALID_QUEUE_CREATION | ERROR_OUT_OF_RESOURCES | Queue_Bad_Alloc | Queue_Assert
datatype status = SUCCESS | ERROR | ERROR_INVALID_QUEUE | ERROR_INVALID_ARGUMENT

subsection \<open>HardQueue\<close>

record hard_queue =
  hq :: co_queue
  hq_address :: ptr
  hq_pkts :: u32                        \<comment> \<open>\<open>queue_size_pkts_\<close>\<close>
  hq_bytes :: u32                       \<comment> \<open>\<open>queue_size_bytes_\<close>\<close>
  hq_headers :: "u16 list"              \<comment> \<open>headers of the packets of the ring\<close>
  doorbell_type :: nat
  hq_active :: bool
  hq_suspended :: bool
  hq_priority :: int
  hq_queue_id :: nat
  hw_destroyed :: nat                   \<comment> \<open>calls of the device's \<open>DestroyQueue\<close>\<close>
  inactive_signal :: bool               \<comment> \<open>whether \<open>queue_inactive_signal\<close> was created\<close>

definition min_bytes :: nat where "min_bytes = 0x400"
definition max_bytes :: nat where "max_bytes = 0x100000000"

definition clamp_pkts :: "nat \<Rightarrow> u32 \<Rightarrow> u32" where
  "clamp_pkts sz ring_size =
     (let min_pkts = of_nat (min_bytes div sz); max_pkts = of_nat (max_bytes div sz)
      in Max2 (Min2 ring_size max_pkts) min_pkts)"

text \<open>
  The constructor: \<open>sz\<close> is \<open>sizeof(AqlPacket)\<close>, \<open>buffer\<close> the answer of the device's buffer
  allocator, \<open>hwid\<close> the queue number of the device, \<open>counter\<close> the value of \<open>queue_counter_\<close>,
  \<open>susp\<close> and \<open>prio\<close> what the members \<open>suspended_\<close> and \<open>priority_\<close>, which it does not set, hold before.
\<close>

definition HardQueue_new :: "nat \<Rightarrow> u32 \<Rightarrow> nat \<Rightarrow> ptr \<Rightarrow> nat \<Rightarrow> u64 \<Rightarrow> bool \<Rightarrow> bool \<Rightarrow> int \<Rightarrow> queue_error + hard_queue" where
  "HardQueue_new sz ring_size dbtype buffer hwid counter use_interrupt susp prio =
     (let pkts = clamp_pkts sz ring_size;
          bytes = (of_nat (unat pkts * sz) :: u32)
      in if bytes AND (bytes - 1) \<noteq> 0 then Inl ERROR_INVALID_QUEUE_CREATION
         else case buffer of
           None \<Rightarrow> Inl Queue_Bad_Alloc
         | Some a \<Rightarrow>
           if isMultipleOf (of_nat a) 64 \<noteq> Some True then Inl Queue_Assert
           else let q1 = co_queue_zero\<lparr>qtype := 0, qsize := pkts, qid := counter\<rparr>;
                    q2 = q1\<lparr>queue_properties := BITS_SET (queue_properties q1) QUEUE_PROPERTIES_ENABLE_PROFILING 0\<rparr>;
                    q3 = q2\<lparr>queue_properties := BITS_SET (queue_properties q2) QUEUE_PROPERTIES_IS_PTR64 1\<rparr>
                in Inr \<lparr>hq = q3, hq_address = buffer, hq_pkts = pkts, hq_bytes = bytes,
                        hq_headers = replicate (unat pkts) (push_bit PACKET_HEADER_TYPE PACKET_TYPE_INVALID),
                        doorbell_type = dbtype, hq_active = True, hq_suspended = susp, hq_priority = prio,
                        hq_queue_id = hwid, hw_destroyed = 0, inactive_signal = (\<not> use_interrupt)\<rparr>)"

definition Hard_LoadReadIndex :: "memory_order \<Rightarrow> hard_queue \<Rightarrow> u64" where
  "Hard_LoadReadIndex ord q = aret (Load ord (read_dispatch_id (hq q)))"

definition Hard_LoadWriteIndex :: "memory_order \<Rightarrow> hard_queue \<Rightarrow> u64" where
  "Hard_LoadWriteIndex ord q = aret (Load ord (write_dispatch_id (hq q)))"

text \<open>\<open>assert(false)\<close>: only the device moves the read index of a hardware queue.\<close>

definition Hard_StoreReadIndex :: "memory_order \<Rightarrow> u64 \<Rightarrow> hard_queue \<Rightarrow> hard_queue option" where
  "Hard_StoreReadIndex ord value q = None"

definition Hard_StoreWriteIndex :: "memory_order \<Rightarrow> u64 \<Rightarrow> hard_queue \<Rightarrow> hard_queue" where
  "Hard_StoreWriteIndex ord value q =
     q\<lparr>hq := (hq q)\<lparr>write_dispatch_id := anew (Store ord value (write_dispatch_id (hq q)))\<rparr>\<rparr>"

definition Hard_CasWriteIndex :: "memory_order \<Rightarrow> u64 \<Rightarrow> u64 \<Rightarrow> hard_queue \<Rightarrow> u64 \<times> hard_queue" where
  "Hard_CasWriteIndex ord expected value q =
     (let r = Cas ord value expected (write_dispatch_id (hq q)) in (aret r, q\<lparr>hq := (hq q)\<lparr>write_dispatch_id := anew r\<rparr>\<rparr>))"

definition Hard_AddWriteIndex :: "memory_order \<Rightarrow> u64 \<Rightarrow> hard_queue \<Rightarrow> u64 \<times> hard_queue" where
  "Hard_AddWriteIndex ord value q =
     (let r = Add ord value (write_dispatch_id (hq q)) in (aret r, q\<lparr>hq := (hq q)\<lparr>write_dispatch_id := anew r\<rparr>\<rparr>))"

definition HardQueue_Suspend :: "hard_queue \<Rightarrow> hard_queue" where
  "HardQueue_Suspend q = q\<lparr>hq_suspended := True\<rparr>"

definition HardQueue_Inactivate :: "hard_queue \<Rightarrow> status \<times> hard_queue" where
  "HardQueue_Inactivate q =
     (SUCCESS, let active = hq_active q; q1 = q\<lparr>hq_active := False\<rparr>
               in if active then q1\<lparr>hw_destroyed := Suc (hw_destroyed q1)\<rparr> else q1)"

definition HardQueue_SetPriority :: "int \<Rightarrow> hard_queue \<Rightarrow> status \<times> hard_queue" where
  "HardQueue_SetPriority priority q = (if hq_suspended q then (ERROR, q) else (SUCCESS, q\<lparr>hq_priority := priority\<rparr>))"

text \<open>The destructor; \<open>valid\<close> is what \<open>IsValid()\<close> of the doorbell signal returns.\<close>

definition HardQueue_destroy :: "bool \<Rightarrow> hard_queue \<Rightarrow> hard_queue" where
  "HardQueue_destroy valid q =
     (let q1 = snd (HardQueue_Inactivate q)
      in if \<not> valid then q1
         else q1\<lparr>hw_destroyed := Suc (hw_destroyed q1), hq_address := None\<rparr>)"

subsection \<open>SoftQueue\<close>

record soft_queue =
  sq :: co_queue
  sq_address :: ptr
  sq_pkts :: u32
  sq_bytes :: u32
  sq_headers :: "u16 list"

definition SoftQueue_new :: "nat \<Rightarrow> u32 \<Rightarrow> u32 \<Rightarrow> ptr \<Rightarrow> u32 \<Rightarrow> queue_error + soft_queue" where
  "SoftQueue_new sz ring_size type buffer counter =
     (let bytes = (of_nat (unat ring_size * sz) :: u32)
      in case buffer of
           None \<Rightarrow> Inl ERROR_OUT_OF_RESOURCES
         | Some a \<Rightarrow>
           if isMultipleOf (of_nat a) 256 \<noteq> Some True \<or> a = 0 then Inl Queue_Assert
           else let q1 = co_queue_zero\<lparr>qsize := ring_size, qid := ucast counter, qtype := type\<rparr>;
                    q2 = q1\<lparr>queue_properties := BITS_SET (queue_properties q1) QUEUE_PROPERTIES_IS_PTR64 0\<rparr>;
                    q3 = q2\<lparr>queue_properties := BITS_SET (queue_properties q2) QUEUE_PROPERTIES_ENABLE_PROFILING 0\<rparr>
                in Inr \<lparr>sq = q3, sq_address = buffer, sq_pkts = ring_size, sq_bytes = bytes,
                        sq_headers = replicate (unat ring_size) PACKET_TYPE_INVALID\<rparr>)"

definition Soft_Inactivate :: "soft_queue \<Rightarrow> status \<times> soft_queue" where
  "Soft_Inactivate q = (SUCCESS, q)"

definition Soft_SetPriority :: "int \<Rightarrow> soft_queue \<Rightarrow> status \<times> soft_queue" where
  "Soft_SetPriority priority q = (ERROR_INVALID_QUEUE, q)"

definition Soft_LoadReadIndex :: "memory_order \<Rightarrow> soft_queue \<Rightarrow> u64" where
  "Soft_LoadReadIndex ord q = aret (Load ord (read_dispatch_id (sq q)))"

definition Soft_LoadWriteIndex :: "memory_order \<Rightarrow> soft_queue \<Rightarrow> u64" where
  "Soft_LoadWriteIndex ord q = aret (Load ord (write_dispatch_id (sq q)))"

definition Soft_StoreReadIndex :: "memory_order \<Rightarrow> u64 \<Rightarrow> soft_queue \<Rightarrow> soft_queue option" where
  "Soft_StoreReadIndex ord value q =
     Some (q\<lparr>sq := (sq q)\<lparr>read_dispatch_id := anew (Store ord value (read_dispatch_id (sq q)))\<rparr>\<rparr>)"

definition Soft_StoreWriteIndex :: "memory_order \<Rightarrow> u64 \<Rightarrow> soft_queue \<Rightarrow> soft_queue" where
  "Soft_StoreWriteIndex ord value q =
     q\<lparr>sq := (sq q)\<lparr>write_dispatch_id := anew (Store ord value (write_dispatch_id (sq q)))\<rparr>\<rparr>"

definition Soft_CasWriteIndex :: "memory_order \<Rightarrow> u64 \<Rightarrow> u64 \<Rightarrow> soft_queue \<Rightarrow> u64 \<times> soft_queue" where
  "Soft_CasWriteIndex ord expected value q =
     (let r = Cas ord value expected (write_dispatch_id (sq q)) in (aret r, q\<lparr>sq := (sq q)\<lparr>write_dispatch_id := anew r\<rparr>\<rparr>))"

definition Soft_AddWriteIndex :: "memory_order \<Rightarrow> u64 \<Rightarrow> soft_queue \<Rightarrow> u64 \<times> soft_queue" where
  "Soft_AddWriteIndex ord value q =
     (let r = Add ord value (write_dispatch_id (sq q)) in (aret r, q\<lparr>sq := (sq q)\<lparr>write_dispatch_id := anew r\<rparr>\<rparr>))"

subsection \<open>Reserving packets\<close>

text \<open>
  Producers reserve packets of a ring through the write index, by adding to it or by a
  compare-and-swap from the value they read; each call is atomic, so the calls of all
  producers form one sequence.
\<close>

datatype reserve_op = RAdd memory_order u64 | RCas memory_order u64 u64

fun reserve_len :: "reserve_op \<Rightarrow> u64" where
  "reserve_len (RAdd _ n) = n"
| "reserve_len (RCas _ _ n) = n"

definition slots :: "u64 \<times> u64 \<Rightarrow> nat list" where
  "slots = (\<lambda>(r, n). [unat r..<unat r + unat n])"

locale write_index =
  fixes widx :: "memory_order \<Rightarrow> 'q \<Rightarrow> u64"
    and add :: "memory_order \<Rightarrow> u64 \<Rightarrow> 'q \<Rightarrow> u64 \<times> 'q"
    and cas :: "memory_order \<Rightarrow> u64 \<Rightarrow> u64 \<Rightarrow> 'q \<Rightarrow> u64 \<times> 'q"
  assumes widx_order: "widx o1 q = widx o2 q"
    and add_law: "fst (add ord n q) = widx relaxed q \<and> widx relaxed (snd (add ord n q)) = widx relaxed q + n"
    and cas_law: "fst (cas ord e v q) = widx relaxed q \<and>
      widx relaxed (snd (cas ord e v q)) = (if widx relaxed q = e then v else widx relaxed q)"
begin

text \<open>What one call reserves, and the state after it.\<close>

fun reserve :: "reserve_op \<Rightarrow> 'q \<Rightarrow> (u64 \<times> u64) list \<times> 'q" where
  "reserve (RAdd ord n) q = (let (r, q') = add ord n q in ([(r, n)], q'))"
| "reserve (RCas ord e n) q = (let (r, q') = cas ord e (e + n) q in (if r = e then [(e, n)] else [], q'))"

fun reserves :: "reserve_op list \<Rightarrow> 'q \<Rightarrow> (u64 \<times> u64) list \<times> 'q" where
  "reserves [] q = ([], q)"
| "reserves (c # cs) q = (let (rs, q1) = reserve c q; (rs', q2) = reserves cs q1 in (rs @ rs', q2))"

lemma reserve_one:
  assumes "unat (widx relaxed q) + unat (reserve_len c) < 2 ^ 64"
  shows "concat (map slots (fst (reserve c q))) = [unat (widx relaxed q)..<unat (widx relaxed (snd (reserve c q)))] \<and>
    unat (widx relaxed q) \<le> unat (widx relaxed (snd (reserve c q))) \<and>
    unat (widx relaxed (snd (reserve c q))) \<le> unat (widx relaxed q) + unat (reserve_len c)"
proof (cases c)
  case (RAdd ord n)
  have "unat (widx relaxed q + n) = unat (widx relaxed q) + unat n"
    using assms RAdd by (simp add: unat_word_ariths)
  then show ?thesis using RAdd add_law [of ord n q] by (simp add: slots_def case_prod_beta)
next
  case (RCas ord e n)
  have "unat (e + n) = unat e + unat n" if "widx relaxed q = e"
    using assms RCas that by (simp add: unat_word_ariths)
  then show ?thesis using RCas cas_law [of ord e "e + n" q] by (simp add: slots_def case_prod_beta)
qed

lemma reserves_partition:
  assumes "unat (widx relaxed q) + sum_list (map (\<lambda>c. unat (reserve_len c)) cs) < 2 ^ 64"
  shows "concat (map slots (fst (reserves cs q))) = [unat (widx relaxed q)..<unat (widx relaxed (snd (reserves cs q)))] \<and>
    unat (widx relaxed q) \<le> unat (widx relaxed (snd (reserves cs q)))"
  using assms
proof (induction cs arbitrary: q)
  case (Cons c cs)
  obtain rs q1 where 1: "reserve c q = (rs, q1)" by (metis surj_pair)
  have r: "concat (map slots rs) = [unat (widx relaxed q)..<unat (widx relaxed q1)]"
      "unat (widx relaxed q) \<le> unat (widx relaxed q1)"
      "unat (widx relaxed q1) \<le> unat (widx relaxed q) + unat (reserve_len c)"
    using reserve_one [of q c] Cons.prems 1 by simp_all
  have "unat (widx relaxed q1) + sum_list (map (\<lambda>c. unat (reserve_len c)) cs) < 2 ^ 64" using Cons.prems r(3) by simp
  from Cons.IH [OF this] show ?case using r(1,2) 1
    by (simp add: case_prod_beta) (metis le_Suc_ex upt_add_eq_append)
qed simp

end

lemmas index_defs = Hard_LoadWriteIndex_def Hard_AddWriteIndex_def Hard_CasWriteIndex_def
  Soft_LoadWriteIndex_def Soft_AddWriteIndex_def Soft_CasWriteIndex_def atomic_defs

interpretation hardq: write_index Hard_LoadWriteIndex Hard_AddWriteIndex Hard_CasWriteIndex
  by unfold_locales (simp_all add: index_defs Let_def)

interpretation softq: write_index Soft_LoadWriteIndex Soft_AddWriteIndex Soft_CasWriteIndex
  by unfold_locales (simp_all add: index_defs Let_def)

text \<open>C38: Whatever atomic additions and compare-and-swaps producers make on the write index of a queue,
  in any order, the packets they reserve follow each other without gap or overlap from the
  old write index to the new one, as long as the 64-bit index does not wrap; for both kinds of queue.\<close>

theorem reservations_partition:
  assumes "unat (write_dispatch_id (hq q)) + sum_list (map (\<lambda>c. unat (reserve_len c)) cs) < 2 ^ 64"
    and "unat (write_dispatch_id (sq s)) + sum_list (map (\<lambda>c. unat (reserve_len c)) ds) < 2 ^ 64"
  shows "concat (map slots (fst (hardq.reserves cs q))) =
      [unat (write_dispatch_id (hq q))..<unat (write_dispatch_id (hq (snd (hardq.reserves cs q))))] \<and>
    concat (map slots (fst (softq.reserves ds s))) =
      [unat (write_dispatch_id (sq s))..<unat (write_dispatch_id (sq (snd (softq.reserves ds s))))]"
  using hardq.reserves_partition [of q cs] softq.reserves_partition [of s ds] assms by (simp add: index_defs)

theorem reservations_partition_witness:
  "\<exists>q s. concat (map slots (fst (hardq.reserves [RAdd acq_rel 3, RCas relaxed 7 2, RCas release 3 2, RAdd acquire 1] q))) = [0..<6] \<and>
     concat (map slots (fst (softq.reserves [RCas acquire 0 1] s))) = [0..<1]"
proof -
  obtain q where q: "HardQueue_new 64 16 1 (Some 4096) 0 0 False False 0 = Inr q" "write_dispatch_id (hq q) = 0"
    by (simp add: HardQueue_new_def Let_def clamp_pkts_def Min2_def Max2_def min_bytes_def max_bytes_def isMultipleOf_def
        alignUp_def alignDown_def isPowerOf2_def co_queue_zero_def)
  obtain s where s: "SoftQueue_new 64 16 0 (Some 4096) 0 = Inr s" "write_dispatch_id (sq s) = 0"
    by (simp add: SoftQueue_new_def Let_def isMultipleOf_def alignUp_def alignDown_def isPowerOf2_def co_queue_zero_def)
  have "concat (map slots (fst (hardq.reserves [RAdd acq_rel 3, RCas relaxed 7 2, RCas release 3 2, RAdd acquire 1] q))) = [0..<6]"
    using reservations_partition [of q "[RAdd acq_rel 3, RCas relaxed 7 2, RCas release 3 2, RAdd acquire 1]" s "[]"] q s
    by (simp add: index_defs)
  moreover have "concat (map slots (fst (softq.reserves [RCas acquire 0 1] s))) = [0..<1]"
    using reservations_partition [of q "[]" s "[RCas acquire 0 1]"] q s by (simp add: index_defs)
  ultimately show ?thesis by blast
qed

subsection \<open>Sizes of a hardware queue\<close>

lemma sizeof_AqlPacket_values:
  "sizeof_AqlPacket 8 LargeModel = 64" "sizeof_AqlPacket 8 SmallLittle = 72" "sizeof_AqlPacket 8 SmallBig = 72"
  by (simp_all add: sizeof_AqlPacket_def size_of_def align_of_def place_def kernel_dispatch_packet_t_def
      device_dispatch_packet_t_def barrier_packet_t_def dma_copy_packet_t_def task_packet_t_def ptr_and_reserved_def)

lemma clamp_pkts_64: "unat (clamp_pkts 64 r) = min (max (unat r) 16) (2 ^ 26)"
  by (simp add: clamp_pkts_def Let_def Min2_def Max2_def min_bytes_def max_bytes_def word_less_nat_alt)

lemma clamp_pkts_72: "unat (clamp_pkts 72 r) = min (max (unat r) 14) 59652323"
  by (simp add: clamp_pkts_def Let_def Min2_def Max2_def min_bytes_def max_bytes_def word_less_nat_alt)

lemma queue_bytes_exact: "n < 2 ^ 32 \<Longrightarrow> unat (of_nat n :: u32) = n"
  by (simp add: unat_of_nat take_bit_nat_eq_self)

lemma isPowerOf2_u32: "n < 2 ^ 32 \<Longrightarrow> isPowerOf2 (of_nat n :: u32) \<longleftrightarrow> n = 0 \<or> (\<exists>k. n = 2 ^ k)"
proof -
  assume n: "n < 2 ^ 32"
  have e: "(of_nat n :: u32) = 2 ^ k \<longleftrightarrow> n = 2 ^ k" if "k < 32" for k
  proof -
    have "(2::nat) ^ k < 2 ^ 32" using that by (intro power_strict_increasing) simp_all
    then have "unat (of_nat (2 ^ k) :: u32) = 2 ^ k" by (rule queue_bytes_exact)
    then show ?thesis using queue_bytes_exact [OF n] by (metis of_nat_numeral of_nat_power)
  qed
  have z: "(of_nat n :: u32) = 0 \<longleftrightarrow> n = 0" using queue_bytes_exact [OF n] by (metis unat_eq_zero)
  have "k < 32" if "n = 2 ^ k" for k using n that by (metis nat_power_less_imp_less zero_less_numeral)
  then show ?thesis unfolding isPowerOf2_iff using e z by auto
qed

lemma times64_pow2: "0 < n \<Longrightarrow> (\<exists>k. n * 64 = (2::nat) ^ k) \<longleftrightarrow> (\<exists>j. n = 2 ^ j)"
proof (safe)
  fix k assume "n * 64 = 2 ^ k" and "0 < n"
  then have "64 dvd (2::nat) ^ k" by (metis dvd_triv_right)
  then have "(2::nat) ^ 6 dvd 2 ^ k" by simp
  then have "6 \<le> k" using power_dvd_imp_le [of 2 6 k] by simp
  then obtain i where "k = i + 6" using le_Suc_ex by (metis add.commute)
  then have "(2::nat) ^ k = 2 ^ i * 64" by (simp add: power_add)
  then show "\<exists>j. n = 2 ^ j" using \<open>n * 64 = 2 ^ k\<close> by auto
next
  fix j show "\<exists>k. 2 ^ j * 64 = (2::nat) ^ k" by (intro exI [of _ "j + 6"]) (simp add: power_add)
qed

lemma pow2_mod_3: "(2::nat) ^ k mod 3 \<noteq> 0"
  by (induction k) (simp_all, presburger)

lemma times72_not_pow2: "n * 72 \<noteq> (2::nat) ^ k"
  using pow2_mod_3 [of k] by presburger

text \<open>In the large model an AQL packet has 64 bytes, and for an aligned buffer the constructor of a hardware
  queue succeeds exactly when the requested size, clamped to \<open>16 .. 2^26\<close> packets, is a power of two; every
  packet of the ring is then marked invalid, both indices are zero, and the buffer requested from the device
  holds the ring, except at the largest size, where its byte count wraps to zero.\<close>

lemma hard_queue_size:
  assumes "isMultipleOf (of_nat a) 64 = Some True" and n_def: "n = min (max (unat ring_size) 16) (2 ^ 26)"
  shows "case HardQueue_new (sizeof_AqlPacket 8 LargeModel) ring_size db (Some a) hwid counter ui susp prio of
      Inl e \<Rightarrow> e = ERROR_INVALID_QUEUE_CREATION \<and> (\<forall>k. n \<noteq> 2 ^ k)
    | Inr q \<Rightarrow> (\<exists>k. n = 2 ^ k) \<and> unat (qsize (hq q)) = n \<and> hq_headers q = replicate n PACKET_TYPE_INVALID \<and>
        \<not> packet_IsValid PACKET_TYPE_INVALID \<and>
        write_dispatch_id (hq q) = 0 \<and> read_dispatch_id (hq q) = 0 \<and> doorbell_lock (hq q) = 0 \<and>
        unat (hq_bytes q) = (if n = 2 ^ 26 then 0 else n * 64)"
proof -
  have pk: "unat (clamp_pkts 64 ring_size) = n" by (simp add: clamp_pkts_64 n_def)
  have n: "0 < n" "n \<le> 2 ^ 26" by (simp_all add: n_def)
  have b: "isPowerOf2 (of_nat (n * 64) :: u32) \<longleftrightarrow> (\<exists>k. n = 2 ^ k)"
    and u: "unat (of_nat (n * 64) :: u32) = (if n = 2 ^ 26 then 0 else n * 64)"
  proof (atomize (full), cases "n = 2 ^ 26")
    case True
    have "isPowerOf2 (of_nat (n * 64) :: u32)" using True by (simp add: isPowerOf2_def)
    then show "(isPowerOf2 (of_nat (n * 64) :: u32) \<longleftrightarrow> (\<exists>k. n = 2 ^ k)) \<and>
        unat (of_nat (n * 64) :: u32) = (if n = 2 ^ 26 then 0 else n * 64)" using True by (simp add: exI [of _ 26])
  next
    case False
    then have "n * 64 < 2 ^ 32" using n(2) by simp
    then show "(isPowerOf2 (of_nat (n * 64) :: u32) \<longleftrightarrow> (\<exists>k. n = 2 ^ k)) \<and>
        unat (of_nat (n * 64) :: u32) = (if n = 2 ^ 26 then 0 else n * 64)"
      using isPowerOf2_u32 [of "n * 64"] queue_bytes_exact [of "n * 64"] times64_pow2 [OF n(1)] n(1) False by simp
  qed
  define w where w: "w = (of_nat (n * 64) :: u32)"
  note b = b [folded w] and u = u [folded w]
  show ?thesis
  proof (cases "\<exists>k. n = 2 ^ k")
    case True
    then have "w AND (w - 1) = 0" using b by (simp add: isPowerOf2_def)
    then show ?thesis using True u assms(1) unfolding HardQueue_new_def sizeof_AqlPacket_values Let_def pk w [symmetric]
      by (simp add: pk co_queue_zero_def PACKET_HEADER_TYPE_def PACKET_HEADER_WIDTH_TYPE_def packet_IsValid_def packet_type_def
          PACKET_TYPE_INVALID_def)
  next
    case False
    then have "w AND (w - 1) \<noteq> 0" using b by (simp add: isPowerOf2_def)
    then show ?thesis using False unfolding HardQueue_new_def sizeof_AqlPacket_values Let_def pk w [symmetric] by simp
  qed
qed

text \<open>In the small model, which is the one the build selects, an AQL packet has 72 bytes on a 64-bit host, so
  the byte size of a ring is never a power of two and the constructor of a hardware queue rejects every request.\<close>

lemma hard_queue_small_model:
  "m \<noteq> LargeModel \<Longrightarrow>
   HardQueue_new (sizeof_AqlPacket 8 m) ring_size db buffer hwid counter ui susp prio = Inl ERROR_INVALID_QUEUE_CREATION"
proof -
  assume m: "m \<noteq> LargeModel"
  define n where "n = min (max (unat ring_size) 14) 59652323"
  have n: "n * 72 < 2 ^ 32" "0 < n" unfolding n_def by (auto simp: min_def max_def)
  define w where w: "w = (of_nat (n * 72) :: u32)"
  have "\<not> isPowerOf2 w" unfolding w isPowerOf2_u32 [OF n(1)] using times72_not_pow2 n(2) by auto
  moreover have "sizeof_AqlPacket 8 m = 72" using m by (cases m) (simp_all add: sizeof_AqlPacket_values)
  moreover have "unat (clamp_pkts 72 ring_size) = n" by (simp only: clamp_pkts_72 n_def)
  ultimately show ?thesis unfolding HardQueue_new_def Let_def by (simp add: w [symmetric] isPowerOf2_def del: of_nat_mult)
qed

end
