(* ===== verification/Doorbell.thy ===== *)
theory Doorbell
  imports Aql_Queues Signals
begin

unbundle bit_operations_syntax

text \<open>
  The doorbell of a hardware queue (\<open>HardQueue::StoreRelaxed\<close> and \<open>StoreRelease\<close> of
  \<open>include/HardQueue.h\<close>), rung by many producers at once. The small model ignores the value
  passed and submits the write index, clamped to one ring beyond the read index. The step
  relation has one step per access to shared memory; other producers move the write index and
  the device moves the read index in between.
\<close>

definition legacy_dispatch_id :: "u64 \<Rightarrow> u64 \<Rightarrow> u32 \<Rightarrow> u64" where
  "legacy_dispatch_id w r n = Min2 w (r + ucast n)"

text \<open>One call that meets no interference; \<open>None\<close> when the spinlock is held or the device has no
  supported doorbell. The first component lists the values stored to the device.\<close>

definition HardQueue_StoreRelaxed :: "u32 \<Rightarrow> hard_queue \<Rightarrow> (u64 list \<times> hard_queue) option" where
  "HardQueue_StoreRelaxed value q =
     (if doorbell_type q = 2 then Some ([scast value], q)
      else if doorbell_lock (hq q) \<noteq> 0 then None
      else let c = (hq q)\<lparr>doorbell_lock := 1\<rparr>;
               d = legacy_dispatch_id (write_dispatch_id c) (read_dispatch_id c) (qsize c)
           in if max_legacy c < d then
                if doorbell_type q = 1
                then Some ([ucast (ucast d :: u32)], q\<lparr>hq := c\<lparr>max_legacy := d, doorbell_lock := 0\<rparr>\<rparr>)
                else None
              else Some ([], q\<lparr>hq := c\<lparr>doorbell_lock := 0\<rparr>\<rparr>))"

definition HardQueue_StoreRelease :: "u32 \<Rightarrow> hard_queue \<Rightarrow> (u64 list \<times> hard_queue) option" where
  "HardQueue_StoreRelease value q = HardQueue_StoreRelaxed value q"

text \<open>A queue as a signal: \<open>HardQueue\<close> overrides the two stores; every other operation is the one of \<open>DoorbellSignal\<close>, whose body is
  \<open>assert(false)\<close>.\<close>

fun DoorbellSignal_exec :: "sig_op \<Rightarrow> hard_queue \<Rightarrow> (u64 list \<times> hard_queue) option" where
  "DoorbellSignal_exec (OStore ord v) q = (if ord = release then HardQueue_StoreRelease v q else HardQueue_StoreRelaxed v q)"
| "DoorbellSignal_exec op q = None"

lemma doorbell_only_rung: "DoorbellSignal_exec op q = Some (vs, q') \<Longrightarrow> (\<exists>ord v. op = OStore ord v) \<and> length vs \<le> 1"
  by (cases op) (auto simp: HardQueue_StoreRelease_def HardQueue_StoreRelaxed_def Let_def split: if_splits)

subsection \<open>Concurrent doorbells\<close>

datatype db_pc = DIdle | DLocked | DWrite u64 | DHave u64 | DRing u64 | DRelease

record doorbell =
  dq :: co_queue
  mmio :: "u32 list"                    \<comment> \<open>values stored to the legacy doorbell register\<close>
  rung :: "u64 list"                    \<comment> \<open>the dispatch ids they were made from\<close>
  pcs :: "nat \<Rightarrow> db_pc"

inductive db_step :: "doorbell \<Rightarrow> doorbell \<Rightarrow> bool" where
  acquire: "pcs s i = DIdle \<Longrightarrow> doorbell_lock (dq s) = 0 \<Longrightarrow>
    db_step s (s\<lparr>dq := (dq s)\<lparr>doorbell_lock := 1\<rparr>, pcs := (pcs s)(i := DLocked)\<rparr>)"
| load_write: "pcs s i = DLocked \<Longrightarrow> db_step s (s\<lparr>pcs := (pcs s)(i := DWrite (write_dispatch_id (dq s)))\<rparr>)"
| load_read: "pcs s i = DWrite w \<Longrightarrow>
    db_step s (s\<lparr>pcs := (pcs s)(i := DHave (legacy_dispatch_id w (read_dispatch_id (dq s)) (qsize (dq s))))\<rparr>)"
| advance: "pcs s i = DHave d \<Longrightarrow> max_legacy (dq s) < d \<Longrightarrow>
    db_step s (s\<lparr>dq := (dq s)\<lparr>max_legacy := d\<rparr>, pcs := (pcs s)(i := DRing d)\<rparr>)"
| discard: "pcs s i = DHave d \<Longrightarrow> \<not> max_legacy (dq s) < d \<Longrightarrow> db_step s (s\<lparr>pcs := (pcs s)(i := DRelease)\<rparr>)"
| ring: "pcs s i = DRing d \<Longrightarrow>
    db_step s (s\<lparr>mmio := mmio s @ [ucast d], rung := rung s @ [d], pcs := (pcs s)(i := DRelease)\<rparr>)"
| unlock: "pcs s i = DRelease \<Longrightarrow> db_step s (s\<lparr>dq := (dq s)\<lparr>doorbell_lock := 0\<rparr>, pcs := (pcs s)(i := DIdle)\<rparr>)"
| produce: "unat (write_dispatch_id (dq s)) + unat n < 2 ^ 63 \<Longrightarrow>
    db_step s (s\<lparr>dq := (dq s)\<lparr>write_dispatch_id := write_dispatch_id (dq s) + n\<rparr>\<rparr>)"
| device_read: "read_dispatch_id (dq s) \<le> r \<Longrightarrow> r \<le> max_legacy (dq s) \<Longrightarrow>
    db_step s (s\<lparr>dq := (dq s)\<lparr>read_dispatch_id := r\<rparr>\<rparr>)"

definition db_init :: "co_queue \<Rightarrow> doorbell" where
  "db_init c = \<lparr>dq = c, mmio = [], rung = [], pcs = (\<lambda>_. DIdle)\<rparr>"

text \<open>The lock: a producer inside the critical section excludes all others.\<close>

definition db_excl :: "doorbell \<Rightarrow> bool" where
  "db_excl s \<longleftrightarrow> (\<forall>i. pcs s i \<noteq> DIdle \<longrightarrow> doorbell_lock (dq s) \<noteq> 0 \<and> (\<forall>j. j \<noteq> i \<longrightarrow> pcs s j = DIdle))"

lemma db_excl_step: "db_step s t \<Longrightarrow> db_excl s \<Longrightarrow> db_excl t"
  by (induction rule: db_step.induct) (auto simp: db_excl_def)

text \<open>The indices, and the value a producer carries.\<close>

definition db_bounds :: "doorbell \<Rightarrow> bool" where
  "db_bounds s \<longleftrightarrow> (let c = dq s; w = unat (write_dispatch_id c); r = unat (read_dispatch_id c); m = unat (max_legacy c)
     in w < 2 ^ 63 \<and> r \<le> m \<and> m \<le> w \<and> m \<le> r + unat (qsize c))"

definition db_carried :: "doorbell \<Rightarrow> bool" where
  "db_carried s \<longleftrightarrow> (let c = dq s; w = unat (write_dispatch_id c); r = unat (read_dispatch_id c)
     in (\<forall>i v. pcs s i = DWrite v \<longrightarrow> unat v \<le> w) \<and> (\<forall>i d. pcs s i = DHave d \<longrightarrow> unat d \<le> w \<and> unat d \<le> r + unat (qsize c)))"

lemma legacy_dispatch_id_unat:
  "unat (r::u64) < 2 ^ 63 \<Longrightarrow> unat (legacy_dispatch_id w r n) = min (unat w) (unat r + unat n)"
proof -
  assume r: "unat r < 2 ^ 63"
  have n: "unat n < 2 ^ 32" using unsigned_less [of n, where 'a = nat] by simp
  have c: "unat (ucast n :: u64) = unat n" by (simp add: unsigned_ucast_eq take_bit_nat_eq_self less_trans [OF n])
  have "unat (r + ucast n) = unat r + unat n" using r n c by (simp add: unat_word_ariths)
  then show ?thesis by (auto simp: legacy_dispatch_id_def Min2_def word_less_nat_alt)
qed

lemma db_bounds_step:
  assumes "db_step s t" and "db_excl s" and "db_bounds s" and "db_carried s"
  shows "db_bounds t \<and> db_carried t"
  using assms
proof (induction rule: db_step.induct)
  case (load_read s i w)
  have "unat (read_dispatch_id (dq s)) < 2 ^ 63" using load_read by (simp add: db_bounds_def Let_def)
  note d = legacy_dispatch_id_unat [OF this, of w "qsize (dq s)"]
  moreover have "min (unat w) n \<le> unat (write_dispatch_id (dq s))" for n
    using load_read by (intro min.coboundedI1) (simp add: db_carried_def Let_def)
  ultimately show ?case using load_read by (auto simp: db_bounds_def db_carried_def Let_def)
next
  case (produce s n)
  have "unat (write_dispatch_id (dq s) + n) = unat (write_dispatch_id (dq s)) + unat n"
    using produce.hyps by (simp add: unat_word_ariths)
  then show ?case using produce by (fastforce simp: db_bounds_def db_carried_def Let_def)
next
  case (device_read s r)
  then show ?case by (fastforce simp: db_bounds_def db_carried_def Let_def word_le_nat_alt)
qed (auto simp: db_bounds_def db_carried_def Let_def word_less_nat_alt)

text \<open>What was rung: strictly increasing, up to the recorded maximum.\<close>

definition db_rung :: "doorbell \<Rightarrow> bool" where
  "db_rung s \<longleftrightarrow> sorted_wrt (<) (0 # map unat (rung s)) \<and> mmio s = map ucast (rung s) \<and>
     (\<forall>i d. pcs s i = DRing d \<longrightarrow> max_legacy (dq s) = d \<and> last (0 # map unat (rung s)) < unat d) \<and>
     ((\<forall>i d. pcs s i \<noteq> DRing d) \<longrightarrow> unat (max_legacy (dq s)) = last (0 # map unat (rung s)))"

lemma sorted_last: "sorted_wrt (<) xs \<Longrightarrow> x \<in> set xs \<Longrightarrow> x \<le> last (xs::nat list)"
  by (cases xs rule: rev_cases) (auto simp: sorted_wrt_append)

lemma sorted_snoc: "sorted_wrt (<) xs \<Longrightarrow> xs \<noteq> [] \<Longrightarrow> last xs < (y::nat) \<Longrightarrow> sorted_wrt (<) (xs @ [y])"
proof -
  assume s: "sorted_wrt (<) xs" and ne: "xs \<noteq> []" and y: "last xs < y"
  then show ?thesis using sorted_last [OF s] y s by (simp add: sorted_wrt_append) (meson le_less_trans)
qed

lemma db_rung_step:
  assumes "db_step s t" and "db_excl s" and "db_rung s"
  shows "db_rung t"
  using assms
proof (induction rule: db_step.induct)
  case (acquire s i)
  then have "\<forall>j. pcs s j = DIdle" by (auto simp: db_excl_def)
  then show ?case using acquire by (auto simp: db_rung_def)
next
  case (advance s i d)
  then have "\<forall>j e. pcs s j \<noteq> DRing e" unfolding db_excl_def by (metis db_pc.distinct)
  then show ?case using advance by (auto simp: db_rung_def word_less_nat_alt)
next
  case (ring s i d)
  have o: "\<forall>j. j \<noteq> i \<longrightarrow> pcs s j = DIdle" using ring by (auto simp: db_excl_def)
  have "sorted_wrt (<) ((0 # map unat (rung s)) @ [unat d])"
    using ring by (intro sorted_snoc) (auto simp: db_rung_def)
  moreover have "max_legacy (dq s) = d" using ring by (auto simp: db_rung_def)
  ultimately show ?case using ring.prems(2) o by (auto simp: db_rung_def)
qed (auto simp: db_rung_def split: if_splits, (metis db_pc.distinct)+)

text \<open>C37: With any number of producers ringing at once, while the write index moves and the device consumes,
  the dispatch ids submitted to the doorbell register strictly increase, each is stored truncated to 32 bits,
  none exceeds the write index or runs more than one ring ahead of the read index, at most one producer is
  inside the critical section, and when none is, the recorded maximum is the last id submitted.\<close>

theorem doorbell_monotone:
  assumes "db_step\<^sup>*\<^sup>* (db_init c) s" and "write_dispatch_id c = 0" and "read_dispatch_id c = 0" and "max_legacy c = 0"
  shows "sorted_wrt (<) (0 # map unat (rung s)) \<and> mmio s = map ucast (rung s) \<and>
    (\<forall>d \<in> set (rung s). unat d \<le> unat (write_dispatch_id (dq s)) \<and>
       unat d \<le> unat (read_dispatch_id (dq s)) + unat (qsize (dq s))) \<and>
    (\<forall>i j. pcs s i \<noteq> DIdle \<and> pcs s j \<noteq> DIdle \<longrightarrow> i = j) \<and>
    ((\<forall>i. pcs s i = DIdle) \<longrightarrow> unat (max_legacy (dq s)) = last (0 # map unat (rung s)))"
proof -
  have inv: "db_excl s \<and> db_bounds s \<and> db_carried s \<and> db_rung s"
    using assms(1)
  proof (induction rule: rtranclp_induct)
    case base
    then show ?case using assms(2-4) by (simp add: db_excl_def db_bounds_def db_carried_def db_rung_def db_init_def Let_def)
  next
    case (step s t)
    then show ?case using db_excl_step db_bounds_step db_rung_step by blast
  qed
  have top: "unat d \<le> unat (max_legacy (dq s))" if "d \<in> set (rung s)" for d
  proof -
    have "unat d \<le> last (0 # map unat (rung s))"
      by (rule sorted_last) (use inv that in \<open>auto simp: db_rung_def\<close>)
    also have "\<dots> \<le> unat (max_legacy (dq s))" using inv by (cases "\<exists>i d. pcs s i = DRing d") (fastforce simp: db_rung_def)+
    finally show ?thesis .
  qed
  then show ?thesis using inv by (fastforce simp: db_excl_def db_bounds_def db_rung_def Let_def)
qed

theorem doorbell_monotone_witness:
  "let c = co_queue_zero\<lparr>qsize := 16\<rparr>
   in \<exists>s. db_step\<^sup>*\<^sup>* (db_init c) s \<and> rung s = [16] \<and> write_dispatch_id (dq s) = 40 \<and> mmio s = [16]"
proof -
  let ?c = "co_queue_zero\<lparr>qsize := 16\<rparr>"
  let ?q = "\<lambda>w m l. ?c\<lparr>write_dispatch_id := w, max_legacy := m, doorbell_lock := l\<rparr>"
  let ?s = "\<lambda>w m l b r pc. \<lparr>dq = ?q w m l, mmio = b, rung = r, pcs = (\<lambda>_. DIdle)(3 := pc)\<rparr>"
  have i: "db_init ?c = ?s 0 0 0 [] [] DIdle" by (simp add: db_init_def co_queue_zero_def fun_eq_iff)
  have 1: "db_step (?s 0 0 0 [] [] DIdle) (?s 40 0 0 [] [] DIdle)"
    using db_step.produce [of "?s 0 0 0 [] [] DIdle" 40] by (simp add: co_queue_zero_def)
  have 2: "db_step (?s 40 0 0 [] [] DIdle) (?s 40 0 1 [] [] DLocked)"
    using db_step.acquire [of "?s 40 0 0 [] [] DIdle" 3] by (simp add: co_queue_zero_def)
  have 3: "db_step (?s 40 0 1 [] [] DLocked) (?s 40 0 1 [] [] (DWrite 40))"
    using db_step.load_write [of "?s 40 0 1 [] [] DLocked" 3] by (simp add: co_queue_zero_def)
  have 4: "db_step (?s 40 0 1 [] [] (DWrite 40)) (?s 40 0 1 [] [] (DHave 16))"
    using db_step.load_read [of "?s 40 0 1 [] [] (DWrite 40)" 3 40] by (simp add: co_queue_zero_def legacy_dispatch_id_def Min2_def)
  have 5: "db_step (?s 40 0 1 [] [] (DHave 16)) (?s 40 16 1 [] [] (DRing 16))"
    using db_step.advance [of "?s 40 0 1 [] [] (DHave 16)" 3 16] by (simp add: co_queue_zero_def)
  have 6: "db_step (?s 40 16 1 [] [] (DRing 16)) (?s 40 16 1 [16] [16] DRelease)"
    using db_step.ring [of "?s 40 16 1 [] [] (DRing 16)" 3 16] by (simp add: co_queue_zero_def)
  have r: "db_step\<^sup>*\<^sup>* (db_init ?c) (?s 40 16 1 [16] [16] DRelease)"
    unfolding i using 1 2 3 4 5 6 by (meson converse_rtranclp_into_rtranclp rtranclp.rtrancl_refl)
  have "mmio (?s 40 16 1 [16] [16] DRelease) = map ucast (rung (?s 40 16 1 [16] [16] DRelease))"
    using doorbell_monotone [OF r] by (simp add: co_queue_zero_def)
  then show ?thesis unfolding Let_def using r by (intro exI [of _ "?s 40 16 1 [16] [16] DRelease"]) (simp add: co_queue_zero_def)
qed

text \<open>One call without interference records the larger of the old maximum and the clamped write index, and
  releases the lock.\<close>

lemma StoreRelaxed_result:
  assumes "doorbell_type q = 1" and "doorbell_lock (hq q) = 0" and "unat (read_dispatch_id (hq q)) < 2 ^ 63"
  shows "\<exists>ws q'. HardQueue_StoreRelaxed v q = Some (ws, q') \<and> doorbell_lock (hq q') = 0 \<and>
    unat (max_legacy (hq q')) = max (unat (max_legacy (hq q)))
      (min (unat (write_dispatch_id (hq q))) (unat (read_dispatch_id (hq q)) + unat (qsize (hq q))))"
  using assms legacy_dispatch_id_unat [OF assms(3), of "write_dispatch_id (hq q)" "qsize (hq q)"]
  by (auto simp: HardQueue_StoreRelaxed_def Let_def word_less_nat_alt)

end
