(* ===== verification/Task_Packets.thy ===== *)
theory Task_Packets
  imports Aql_Queues
begin

unbundle bit_operations_syntax

text \<open>
  How a task reaches a processor: \<open>Processor::AddTask(Task*)\<close> writes a task packet into the ring of
  the processor's software queue and \<open>Processor::AddNewTasks\<close> reads it back
  (\<open>src/processor/Processor.cpp\<close>). The ring is modelled as the bytes it has, in halfwords, because
  the writer indexes it as an array of \<open>task_packet_t\<close> and the reader as an array of \<open>AqlPacket\<close>:
  \<open>sz\<close> is \<open>sizeof(AqlPacket)\<close>. An access outside the buffer is \<open>None\<close>.
\<close>

type_synonym ring_mem = "nat \<Rightarrow> u16"

record up_queue =
  uq :: soft_queue
  umem :: ring_mem
  up_size :: u64                        \<comment> \<open>\<open>up_queue_size_\<close> of the processor\<close>

definition sizeof_task_packet :: nat where
  "sizeof_task_packet = size_of (task_packet_t 8)"

text \<open>The members \<open>up_queue_size_\<close> start from the byte size of the queue.\<close>

definition up_queue_new :: "soft_queue \<Rightarrow> ring_mem \<Rightarrow> up_queue" where
  "up_queue_new q m = \<lparr>uq = q, umem = m, up_size = ucast (sq_bytes q)\<rparr>"

definition halfword :: "u64 \<Rightarrow> nat \<Rightarrow> u16" where
  "halfword tk k = ucast (drop_bit (16 * k) tk)"

text \<open>The zeroed packet with header and task pointer, assigned at a byte offset.\<close>

definition put_task_packet :: "nat \<Rightarrow> u64 \<Rightarrow> ring_mem \<Rightarrow> ring_mem" where
  "put_task_packet off tk m = (\<lambda>a. let d = off div 2 in
     if a < d \<or> d + 32 \<le> a then m a
     else if a = d then push_bit PACKET_HEADER_TYPE PACKET_TYPE_TASK
     else if d + 8 \<le> a \<and> a < d + 12 then halfword tk (a - (d + 8))
     else 0)"

definition AddTask :: "u64 \<Rightarrow> up_queue \<Rightarrow> up_queue option" where
  "AddTask tk p =
     (let mask = (ucast (up_size p - 1) :: u32);
          index = Soft_LoadWriteIndex relaxed (uq p);
          p1 = p\<lparr>up_size := ucast (sq_bytes (uq p))\<rparr>;
          off = unat (index AND ucast mask) * sizeof_task_packet
      in guarded (off + sizeof_task_packet \<le> unat (sq_bytes (uq p)))
           (Some (p1\<lparr>umem := put_task_packet off tk (umem p1), uq := Soft_StoreWriteIndex relaxed (index + 1) (uq p1)\<rparr>)))"

definition get_header :: "nat \<Rightarrow> ring_mem \<Rightarrow> u16" where
  "get_header off m = m (off div 2)"

definition get_task :: "nat \<Rightarrow> ring_mem \<Rightarrow> u64" where
  "get_task off m = (let d = off div 2 + 8 in
     ucast (m d) OR push_bit 16 (ucast (m (d + 1))) OR push_bit 32 (ucast (m (d + 2))) OR push_bit 48 (ucast (m (d + 3))))"

lemma index_decreases: "index \<noteq> (write :: u64) \<Longrightarrow> unat (write - (index + 1)) < unat (write - index)"
proof -
  assume "index \<noteq> write"
  then have ne: "write - index \<noteq> 0" by simp
  then have "unat (write - index - 1) < unat (write - index)" using unat_gt_0 [of "write - index"] by (simp add: unat_minus_one)
  then show ?thesis by (simp add: diff_diff_eq)
qed

text \<open>The loop of \<open>AddNewTasks\<close>: the index reached, the tasks pushed and the ring.\<close>

function new_tasks_loop :: "nat \<Rightarrow> u64 \<Rightarrow> nat \<Rightarrow> u64 \<Rightarrow> u64 \<Rightarrow> ring_mem \<Rightarrow> (u64 \<times> u64 list \<times> ring_mem) option" where
  "new_tasks_loop sz qsz bytes write index m =
     (if index = write then Some (index, [], m)
      else let off = unat (index mod qsz) * sz;
               header = get_header off m;
               ty = (ucast (drop_bit PACKET_HEADER_TYPE header) :: u8)
           in if qsz = 0 \<or> bytes < off + sz then None
              else if ty = ucast PACKET_TYPE_INVALID then Some (index, [], m)
              else let m' = m(off div 2 := (header AND 0xFF00) OR push_bit PACKET_HEADER_TYPE PACKET_TYPE_INVALID)
                   in map_option (\<lambda>(i, ts, m''). (i, (if ty = ucast PACKET_TYPE_TASK then [get_task off m] else []) @ ts, m''))
                        (new_tasks_loop sz qsz bytes write (index + 1) m'))"
  by pat_completeness auto
termination
  by (relation "measure (\<lambda>(_, _, _, write, index, _). unat (write - index))") (simp_all add: index_decreases)

declare new_tasks_loop.simps [simp del]

definition AddNewTasks :: "nat \<Rightarrow> up_queue \<Rightarrow> (bool \<times> u64 list \<times> up_queue) option" where
  "AddNewTasks sz p =
     (let write_index = Soft_LoadWriteIndex relaxed (uq p); read_index = Soft_LoadReadIndex relaxed (uq p)
      in case new_tasks_loop sz (up_size p) (unat (sq_bytes (uq p))) write_index read_index (umem p) of
           None \<Rightarrow> None
         | Some (index, ts, m) \<Rightarrow>
             let q = (if read_index \<noteq> index then the (Soft_StoreReadIndex relaxed index (uq p)) else uq p)
             in Some (True, ts, p\<lparr>umem := m, uq := q\<rparr>))"

fun AddTasks :: "u64 list \<Rightarrow> up_queue \<Rightarrow> up_queue option" where
  "AddTasks [] p = Some p"
| "AddTasks (tk # tks) p = Option.bind (AddTask tk p) (AddTasks tks)"

subsection \<open>Reading back what was written\<close>

lemma sizeof_task_packet_64: "sizeof_task_packet = 64"
  by (simp add: sizeof_task_packet_def size_of_def align_of_def place_def task_packet_t_def)

lemma get_task_halfwords: "m d = halfword tk 0 \<Longrightarrow> m (d + 1) = halfword tk 1 \<Longrightarrow> m (d + 2) = halfword tk 2 \<Longrightarrow>
    m (d + 3) = halfword tk 3 \<Longrightarrow>
    ucast (m d) OR push_bit 16 (ucast (m (d + 1))) OR push_bit 32 (ucast (m (d + 2))) OR push_bit 48 (ucast (m (d + 3))) = tk"
proof -
  assume *: "m d = halfword tk 0" "m (d + 1) = halfword tk 1" "m (d + 2) = halfword tk 2" "m (d + 3) = halfword tk 3"
  show ?thesis unfolding *
  proof (rule bit_word_eqI)
    fix i assume i: "i < LENGTH(64)"
    show "bit (ucast (halfword tk 0) OR push_bit 16 (ucast (halfword tk 1)) OR push_bit 32 (ucast (halfword tk 2)) OR
        push_bit 48 (ucast (halfword tk 3)) :: u64) i \<longleftrightarrow> bit tk i"
    proof -
      consider "i < 16" | "16 \<le> i" "i < 32" | "32 \<le> i" "i < 48" | "48 \<le> i" "i < 64" using i by fastforce
      then show ?thesis by cases (auto simp: halfword_def bit_simps)
    qed
  qed
qed

lemma get_put [simp]:
  "even off \<Longrightarrow> get_header off (put_task_packet off tk m) = PACKET_TYPE_TASK"
  "even off \<Longrightarrow> get_task off (put_task_packet off tk m) = tk"
  using get_task_halfwords [of "put_task_packet off tk m" "off div 2 + 8" tk]
  by (simp_all add: get_header_def get_task_def put_task_packet_def Let_def PACKET_HEADER_TYPE_def)

lemma get_cong:
  assumes "\<And>c. c < 32 \<Longrightarrow> m (32 * i + c) = m' (32 * i + c)"
  shows "get_header (64 * i) m = get_header (64 * i) m'" and "get_task (64 * i) m = get_task (64 * i) m'"
proof -
  show "get_header (64 * i) m = get_header (64 * i) m'" using assms [of 0] by (simp add: get_header_def)
  have "32 * i + 8 + 1 = 32 * i + 9" "32 * i + 8 + 2 = 32 * i + 10" "32 * i + 8 + 3 = 32 * i + 11" by simp_all
  then show "get_task (64 * i) m = get_task (64 * i) m'"
    using assms [of 8] assms [of 9] assms [of 10] assms [of 11] by (simp add: get_task_def Let_def add.commute [of "32 * i"])
qed

lemma get_put_other:
  assumes "i \<noteq> j"
  shows "get_header (64 * i) (put_task_packet (64 * j) tk m) = get_header (64 * i) m"
    and "get_task (64 * i) (put_task_packet (64 * j) tk m) = get_task (64 * i) m"
proof -
  have far: "put_task_packet (64 * j) tk m (32 * i + c) = m (32 * i + c)" if "c < 32" for c
    using assms that by (cases "i < j") (auto simp: put_task_packet_def Let_def)
  show "get_header (64 * i) (put_task_packet (64 * j) tk m) = get_header (64 * i) m" by (rule get_cong(1)) (rule far)
  show "get_task (64 * i) (put_task_packet (64 * j) tk m) = get_task (64 * i) m" by (rule get_cong(2)) (rule far)
qed

lemma get_clear_other:
  assumes "i \<noteq> j"
  shows "get_header (64 * i) (m(32 * j := h)) = get_header (64 * i) m"
    and "get_task (64 * i) (m(32 * j := h)) = get_task (64 * i) m"
proof -
  have far: "(m(32 * j := h)) (32 * i + c) = m (32 * i + c)" if "c < 32" for c
    using assms that by (cases "i < j") auto
  show "get_header (64 * i) (m(32 * j := h)) = get_header (64 * i) m" by (rule get_cong(1)) (rule far)
  show "get_task (64 * i) (m(32 * j := h)) = get_task (64 * i) m" by (rule get_cong(2)) (rule far)
qed

text \<open>The task packets of \<open>tks\<close> lie in the ring from slot \<open>i\<close> on.\<close>

definition packets_at :: "ring_mem \<Rightarrow> nat \<Rightarrow> u64 list \<Rightarrow> bool" where
  "packets_at m i tks \<longleftrightarrow> (\<forall>j < length tks. get_header (64 * (i + j)) m = PACKET_TYPE_TASK \<and> get_task (64 * (i + j)) m = tks ! j)"

lemma packets_at_put:
  assumes "packets_at m i tks"
  shows "packets_at (put_task_packet (64 * (i + length tks)) tk m) i (tks @ [tk])"
  unfolding packets_at_def
proof (intro allI impI)
  fix j assume j: "j < length (tks @ [tk])"
  let ?m = "put_task_packet (64 * (i + length tks)) tk m"
  show "get_header (64 * (i + j)) ?m = PACKET_TYPE_TASK \<and> get_task (64 * (i + j)) ?m = (tks @ [tk]) ! j"
  proof (cases "j = length tks")
    case False
    then have ne: "i + j \<noteq> i + length tks" and "j < length tks" using j by simp_all
    then show ?thesis unfolding get_put_other [OF ne] using assms by (simp add: packets_at_def nth_append)
  qed (simp del: distrib_left_numeral)
qed

lemma packets_at_Cons:
  assumes "packets_at m i (tk # tks)"
  shows "get_header (64 * i) m = PACKET_TYPE_TASK \<and> get_task (64 * i) m = tk \<and> packets_at (m(32 * i := h)) (Suc i) tks"
proof -
  have p: "get_header (64 * (i + j)) m = PACKET_TYPE_TASK \<and> get_task (64 * (i + j)) m = (tk # tks) ! j"
    if "j < Suc (length tks)" for j using assms that unfolding packets_at_def by simp
  have "get_header (64 * (Suc i + j)) (m(32 * i := h)) = PACKET_TYPE_TASK \<and> get_task (64 * (Suc i + j)) (m(32 * i := h)) = tks ! j"
    if "j < length tks" for j
    using p [of "Suc j"] that get_clear_other [of "Suc i + j" i m h] by simp
  then show ?thesis using p [of 0] unfolding packets_at_def by simp
qed

text \<open>A ring of \<open>2 ^ k\<close> packets of 64 bytes.\<close>

definition ring_ok :: "nat \<Rightarrow> up_queue \<Rightarrow> bool" where
  "ring_ok k p \<longleftrightarrow> k \<le> 25 \<and> unat (sq_bytes (uq p)) = 2 ^ k * 64 \<and> up_size p = ucast (sq_bytes (uq p))"

abbreviation up_write :: "up_queue \<Rightarrow> nat" where "up_write p \<equiv> unat (write_dispatch_id (sq (uq p)))"
abbreviation up_read :: "up_queue \<Rightarrow> nat" where "up_read p \<equiv> unat (read_dispatch_id (sq (uq p)))"

lemma ring_size: "ring_ok k p \<Longrightarrow> up_size p = 2 ^ (k + 6) \<and> k + 6 < 32"
proof -
  assume r: "ring_ok k p"
  then have k: "k + 6 < 32" and b: "unat (sq_bytes (uq p)) = 2 ^ (k + 6)" by (simp_all add: ring_ok_def power_add)
  have "unat (ucast (sq_bytes (uq p)) :: u64) = unat (sq_bytes (uq p))"
    using unsigned_less [of "sq_bytes (uq p)", where 'a = nat] by (simp add: unsigned_ucast_eq take_bit_nat_eq_self)
  then have "(ucast (sq_bytes (uq p)) :: u64) = of_nat (2 ^ (k + 6))" using b by (metis of_nat_unat ucast_id)
  then have "(ucast (sq_bytes (uq p)) :: u64) = 2 ^ (k + 6)" by simp
  then show ?thesis using r k by (simp add: ring_ok_def)
qed

lemma bit_below: "bit (i::u64) j \<Longrightarrow> unat i < 2 ^ n \<Longrightarrow> j < n"
proof (rule ccontr)
  assume b: "bit i j" and u: "unat i < 2 ^ n" and "\<not> j < n"
  then have "unat i < 2 ^ j" by (meson less_le_trans not_less one_le_numeral power_increasing)
  then have "\<not> bit (unat i) j" by (simp add: bit_iff_odd)
  then show False using b by (simp add: bit_unsigned_iff)
qed

lemma and_mask_small:
  assumes "unat (i::u64) < 2 ^ n" and "n < 32"
  shows "i AND ucast (ucast (2 ^ n - 1 :: u64) :: u32) = i"
proof -
  have "ucast (ucast (2 ^ n - 1 :: u64) :: u32) = (mask n :: u64)"
    using assms(2) by (intro bit_word_eqI) (auto simp: mask_eq_exp_minus_1 [symmetric] bit_simps)
  moreover have "i AND mask n = take_bit n i" by (simp add: take_bit_eq_mask)
  moreover have "take_bit n i = i"
    using assms by (intro bit_word_eqI) (auto simp: bit_simps dest: bit_below)
  ultimately show ?thesis by simp
qed

lemma AddTask_ok:
  assumes "ring_ok k p" and "up_write p < 2 ^ k"
  shows "\<exists>p'. AddTask tk p = Some p' \<and> ring_ok k p' \<and> up_write p' = up_write p + 1 \<and> up_read p' = up_read p \<and>
    umem p' = put_task_packet (64 * up_write p) tk (umem p)"
proof -
  let ?w = "write_dispatch_id (sq (uq p))"
  note s = ring_size [OF assms(1)]
  have w: "unat ?w < 2 ^ (k + 6)" using assms(2) by (rule less_le_trans) simp
  have i: "?w AND ucast (ucast (up_size p - 1) :: u32) = ?w" using and_mask_small [OF w] s by simp
  have "up_write p * 64 + 64 \<le> 2 ^ k * 64" using assms(2) by simp
  moreover have "(2::nat) ^ (k + 6) \<le> 2 ^ 32" using s by (intro power_increasing) simp_all
  then have "unat ?w + 1 < 2 ^ 64" using w by simp
  then have "unat (?w + 1) = unat ?w + 1" by (rule unat_Suc_u64)
  ultimately show ?thesis using assms(1) i
    by (simp add: AddTask_def Let_def Soft_LoadWriteIndex_def Soft_StoreWriteIndex_def atomic_defs sizeof_task_packet_64 ring_ok_def mult.commute)
qed

lemma unat_pow2_u64: "n < 64 \<Longrightarrow> unat ((2::u64) ^ n) = 2 ^ n"
proof -
  assume "n < 64"
  then have "(2::nat) ^ n < 2 ^ 64" by (intro power_strict_increasing) simp_all
  then show ?thesis using unat_of_nat_u64 [of "2 ^ n"] by simp
qed

lemma AddTasks_ok:
  assumes "ring_ok k p" and "up_write p + length tks \<le> 2 ^ k" and "packets_at (umem p) r done" and "up_write p = r + length done"
  shows "\<exists>p'. AddTasks tks p = Some p' \<and> ring_ok k p' \<and> up_write p' = up_write p + length tks \<and> up_read p' = up_read p \<and>
    packets_at (umem p') r (done @ tks)"
  using assms
proof (induction tks arbitrary: p "done")
  case (Cons tk tks)
  obtain p1 where p1: "AddTask tk p = Some p1" "ring_ok k p1" "up_write p1 = up_write p + 1" "up_read p1 = up_read p"
      "umem p1 = put_task_packet (64 * up_write p) tk (umem p)"
    using AddTask_ok [OF Cons.prems(1), of tk] Cons.prems(2) by auto
  have "packets_at (umem p1) r (done @ [tk])" using packets_at_put [OF Cons.prems(3), of tk] Cons.prems(4) p1(5) by simp
  then show ?case using Cons.IH [OF p1(2), of "done @ [tk]"] Cons.prems(2,4) p1 by auto
qed simp

lemma new_tasks_loop_ok:
  assumes "packets_at m (unat index) tks" and "unat write = unat index + length tks" and "unat write \<le> 2 ^ k" and "k \<le> 25"
  shows "\<exists>m'. new_tasks_loop 64 (2 ^ (k + 6)) (2 ^ k * 64) write index m = Some (write, tks, m')"
  using assms
proof (induction tks arbitrary: index m)
  case Nil
  then have "index = write" by (simp add: word_unat_eq_iff)
  then show ?case by (simp add: new_tasks_loop.simps)
next
  case (Cons tk tks)
  let ?i = "unat index"
  have ne: "index \<noteq> write" and lt: "?i < 2 ^ k" using Cons.prems(2,3) by auto
  have s: "?i < 2 ^ (k + 6)" using lt by (rule less_le_trans) simp
  have z: "unat ((2::u64) ^ (k + 6)) = 2 ^ (k + 6)" using Cons.prems(4) by (intro unat_pow2_u64) simp
  then have md: "index mod 2 ^ (k + 6) = index" using s by (simp add: word_unat_eq_iff unat_mod_distrib)
  have nz: "(2::u64) ^ (k + 6) \<noteq> 0" using z by (metis unat_eq_zero power_not_zero zero_neq_numeral)
  define h where "h = (PACKET_TYPE_TASK AND 0xFF00) OR push_bit PACKET_HEADER_TYPE PACKET_TYPE_INVALID"
  define m1 where "m1 = m(32 * ?i := h)"
  have c: "get_header (64 * ?i) m = PACKET_TYPE_TASK" "get_task (64 * ?i) m = tk" "packets_at m1 (Suc ?i) tks"
    using packets_at_Cons [OF Cons.prems(1), of h] by (simp_all add: m1_def)
  have "unat (index + 1) = Suc ?i" using unat_Suc_u64 [of index] Cons.prems(2) unsigned_less [of "write", where 'a = nat] by simp
  then obtain m' where "new_tasks_loop 64 (2 ^ (k + 6)) (2 ^ k * 64) write (index + 1) m1 = Some (write, tks, m')"
    using Cons.IH [of m1 "index + 1"] c(3) Cons.prems(2-4) by auto
  moreover have "?i * 64 + 64 \<le> 2 ^ k * 64" using lt by simp
  moreover have "(ucast (drop_bit PACKET_HEADER_TYPE PACKET_TYPE_TASK) :: u8) = ucast PACKET_TYPE_TASK"
      "(ucast PACKET_TYPE_TASK :: u8) \<noteq> ucast PACKET_TYPE_INVALID"
    by (simp_all add: PACKET_HEADER_TYPE_def PACKET_TYPE_TASK_def PACKET_TYPE_INVALID_def)
  moreover have "m(64 * ?i div 2 := (PACKET_TYPE_TASK AND 0xFF00) OR push_bit PACKET_HEADER_TYPE PACKET_TYPE_INVALID) = m1"
    by (simp add: m1_def h_def)
  ultimately show ?case using c ne nz
    unfolding new_tasks_loop.simps [of _ _ _ _ index m] Let_def md mult.commute [of ?i 64] by simp
qed

text \<open>C3: In the large model, tasks added to an empty ring come out of \<open>AddNewTasks\<close> in the order they were added,
  none lost and none twice, as long as the write index stays below the number of packets of the ring; the
  ring is empty again afterwards. At that number the next addition writes outside the buffer, because the
  index is masked with the size in bytes.\<close>

theorem task_packets_roundtrip:
  assumes "ring_ok k p" and "up_read p = up_write p" and "up_write p + length tks \<le> 2 ^ k"
  shows "\<exists>p1 p2. AddTasks tks p = Some p1 \<and> AddNewTasks (sizeof_AqlPacket 8 LargeModel) p1 = Some (True, tks, p2) \<and>
    up_read p2 = up_write p2 \<and> up_write p2 = up_write p + length tks \<and>
    (up_write p + length tks = 2 ^ k \<longrightarrow> AddTask tk p2 = None)"
proof -
  have "packets_at (umem p) (up_write p) []" by (simp add: packets_at_def)
  from AddTasks_ok [OF assms(1,3) this] obtain p1 where p1: "AddTasks tks p = Some p1" "ring_ok k p1"
      "up_write p1 = up_write p + length tks" "up_read p1 = up_read p" "packets_at (umem p1) (up_write p) tks"
    by auto
  note s = ring_size [OF p1(2)]
  let ?r = "read_dispatch_id (sq (uq p1))" and ?w = "write_dispatch_id (sq (uq p1))"
  obtain m' where m': "new_tasks_loop 64 (2 ^ (k + 6)) (2 ^ k * 64) ?w ?r (umem p1) = Some (?w, tks, m')"
    using new_tasks_loop_ok [of "umem p1" ?r tks ?w k] p1(3-5) assms s by auto
  define p2 where "p2 = p1\<lparr>umem := m', uq := (if ?r \<noteq> ?w then the (Soft_StoreReadIndex relaxed ?w (uq p1)) else uq p1)\<rparr>"
  have "AddNewTasks (sizeof_AqlPacket 8 LargeModel) p1 = Some (True, tks, p2)"
    using p1(2) s m' by (simp add: AddNewTasks_def sizeof_AqlPacket_values Let_def Soft_LoadWriteIndex_def Soft_LoadReadIndex_def
        atomic_defs ring_ok_def p2_def)
  moreover have f: "sq_bytes (uq p2) = sq_bytes (uq p1)" "up_size p2 = up_size p1" "write_dispatch_id (sq (uq p2)) = ?w"
      "up_read p2 = up_write p2"
    by (simp_all add: p2_def Soft_StoreReadIndex_def atomic_defs)
  moreover have "AddTask tk p2 = None" if "unat ?w = 2 ^ k"
  proof -
    have "unat ?w < 2 ^ (k + 6)" using that by simp
    then have "?w AND ucast (ucast (up_size p2 - 1) :: u32) = ?w" using and_mask_small s f(2) by simp
    then show ?thesis using that f p1(2)
      by (simp add: AddTask_def Let_def Soft_LoadWriteIndex_def atomic_defs sizeof_task_packet_64 ring_ok_def)
  qed
  ultimately show ?thesis using p1(1,3) by (intro exI [of _ p1] exI [of _ p2]) auto
qed

text \<open>The queue a processor gets: 1024 packets, requested without an agent.\<close>

definition fresh_queue :: "nat \<Rightarrow> up_queue" where
  "fresh_queue sz = up_queue_new \<lparr>sq = co_queue_zero\<lparr>qsize := 1024\<rparr>, sq_address = Some 4096, sq_pkts = 1024,
     sq_bytes = of_nat (1024 * sz), sq_headers = replicate 1024 PACKET_TYPE_INVALID\<rparr> (\<lambda>a. 1)"

theorem task_packets_roundtrip_witness:
  "\<exists>p1 p2. AddTasks [10, 20, 30] (fresh_queue 64) = Some p1 \<and>
     AddNewTasks (sizeof_AqlPacket 8 LargeModel) p1 = Some (True, [10, 20, 30], p2) \<and> up_read p2 = up_write p2"
proof -
  have "ring_ok 10 (fresh_queue 64)" by (simp add: ring_ok_def fresh_queue_def up_queue_new_def)
  moreover have "up_read (fresh_queue 64) = up_write (fresh_queue 64)" "up_write (fresh_queue 64) + length [10, 20, 30 :: u64] \<le> 2 ^ 10"
    by (simp_all add: fresh_queue_def up_queue_new_def co_queue_zero_def)
  ultimately show ?thesis using task_packets_roundtrip [of 10 "fresh_queue 64" "[10, 20, 30]" 0] by blast
qed

text \<open>In the small model the writer steps by the 64 bytes of a task packet and the reader by the 72 bytes of an
  AQL packet: of two tasks added to the queue a processor is created with, only the first is received; the
  second is skipped, and the read index still passes both.\<close>

lemma task_packet_lost_small:
  "m \<noteq> LargeModel \<Longrightarrow>
   \<exists>p1 p2. AddTasks [t1, t2] (fresh_queue (sizeof_AqlPacket 8 m)) = Some p1 \<and>
     AddNewTasks (sizeof_AqlPacket 8 m) p1 = Some (True, [t1], p2) \<and> up_read p2 = 2 \<and> up_write p2 = 2"
proof -
  assume m: "m \<noteq> LargeModel"
  define q where "q = fresh_queue 72"
  define m2 where "m2 = put_task_packet 64 t2 (put_task_packet 0 t1 (umem q))"
  have b: "sq_bytes (uq q) = 73728" "up_size q = 73728" "write_dispatch_id (sq (uq q)) = 0" "read_dispatch_id (sq (uq q)) = 0"
    by (simp_all add: q_def fresh_queue_def up_queue_new_def co_queue_zero_def)
  define p1 where "p1 = q\<lparr>umem := m2, uq := Soft_StoreWriteIndex relaxed 2 (uq q)\<rparr>"
  have a: "AddTasks [t1, t2] q = Some p1"
    using b by (simp add: AddTask_def Let_def Soft_LoadWriteIndex_def Soft_StoreWriteIndex_def atomic_defs sizeof_task_packet_64
        p1_def m2_def)
  have h: "get_header 0 m2 = PACKET_TYPE_TASK" "get_task 0 m2 = t1"
    using get_put_other [of 0 1 t2 "put_task_packet 0 t1 (umem q)"] by (simp_all add: m2_def)
  have z: "get_header 72 (m2(0 := c)) = 0" for c
    by (simp add: get_header_def m2_def put_task_packet_def Let_def)
  have "\<exists>m'. new_tasks_loop 72 73728 73728 2 0 m2 = Some (2, [t1], m')"
    unfolding new_tasks_loop.simps [of _ _ _ _ 0] new_tasks_loop.simps [of _ _ _ _ 1] new_tasks_loop.simps [of _ _ _ _ 2]
    using h z by (simp add: Let_def PACKET_HEADER_TYPE_def PACKET_TYPE_TASK_def PACKET_TYPE_INVALID_def new_tasks_loop.simps)
  then obtain m' where "new_tasks_loop 72 73728 73728 2 0 m2 = Some (2, [t1], m')" by blast
  moreover define p2 where "p2 = p1\<lparr>umem := m', uq := the (Soft_StoreReadIndex relaxed 2 (uq p1))\<rparr>"
  ultimately have "AddNewTasks 72 p1 = Some (True, [t1], p2)"
    using b by (simp add: p2_def AddNewTasks_def Let_def p1_def Soft_LoadWriteIndex_def Soft_LoadReadIndex_def Soft_StoreWriteIndex_def atomic_defs)
  moreover have "sizeof_AqlPacket 8 m = 72" using m by (cases m) (simp_all add: sizeof_AqlPacket_values)
  moreover have "up_read p2 = 2" "up_write p2 = 2"
    by (simp_all add: p2_def p1_def Soft_StoreReadIndex_def Soft_StoreWriteIndex_def atomic_defs)
  ultimately show ?thesis using a by (intro exI [of _ p1] exI [of _ p2]) (simp add: q_def)
qed

end
