(* ===== verification/Processor.thy ===== *)
theory Processor
  imports Co_Prelude "HOL-Library.Multiset"
begin

text \<open>
  The processor, the thread that runs coroutines: \<open>src/processor/Processor.cpp\<close> and \<open>Processor.h\<close>, with the
  parts of \<open>src/task/Task.h\<close> it uses. A task is named by its address. The four intrusive queues are
  modelled by the lists of their elements, which is what the queue operations were shown to
  implement (\<open>push\<close> appends, \<open>next\<close> is the successor, \<open>erase\<close> removes one element and, with the check
  flag, succeeds exactly when the element is in the queue). Tasks that arrive through the packet
  queue are the argument \<open>ins\<close> of the operations that call \<open>AddNewTasks\<close>.
\<close>

type_synonym tid = nat

datatype task_state = TS_runnable | TS_block | TS_done

record task =
  tstate :: task_state
  tproc :: "nat option"                 \<comment> \<open>\<open>proc_\<close>\<close>
  suspendId :: u64
  yieldCount :: u64
  trefs :: nat                          \<comment> \<open>the reference count of the task\<close>

type_synonym tasks = "tid \<Rightarrow> task"

record processor =
  pid :: nat
  active :: bool
  runningTask :: "tid option"
  nextTask :: "tid option"
  addNewQuota :: int
  markTick :: int
  markSwitch :: u64
  switchCount :: u64
  runnableQ :: "tid list"
  waitQ :: "tid list"
  gcQ :: "tid list"
  newQ :: "tid list"
  pwaiting :: bool
  notified :: bool
  wakeups :: nat                        \<comment> \<open>calls of \<open>cv_.notify_all\<close>\<close>

definition new_processor :: "nat \<Rightarrow> processor" where
  "new_processor i = \<lparr>pid = i, active = True, runningTask = None, nextTask = None, addNewQuota = 0, markTick = 0,
     markSwitch = 0, switchCount = 0, runnableQ = [], waitQ = [], gcQ = [], newQ = [], pwaiting = False, notified = False,
     wakeups = 0\<rparr>"

definition Task_new :: task where
  "Task_new = \<lparr>tstate = TS_runnable, tproc = None, suspendId = 0, yieldCount = 0, trefs = 1\<rparr>"

definition upd_task :: "tid \<Rightarrow> (task \<Rightarrow> task) \<Rightarrow> tasks \<Rightarrow> tasks" where
  "upd_task t f ts = ts(t := f (ts t))"

definition incr_ref :: "tid \<Rightarrow> tasks \<Rightarrow> tasks" where
  "incr_ref t = upd_task t (\<lambda>k. k\<lparr>trefs := trefs k + 1\<rparr>)"

definition decr_ref :: "tid \<Rightarrow> tasks \<Rightarrow> tasks" where
  "decr_ref t = upd_task t (\<lambda>k. k\<lparr>trefs := trefs k - 1\<rparr>)"

text \<open>The first element of a queue, and its last \<open>max 1 n\<close> elements.\<close>

definition front :: "tid list \<Rightarrow> tid option" where
  "front q = (case q of [] \<Rightarrow> None | t # _ \<Rightarrow> Some t)"

definition pop_back :: "nat \<Rightarrow> tid list \<Rightarrow> tid list \<times> tid list" where
  "pop_back n q = (let k = length q - max 1 n in (take k q, drop k q))"

subsection \<open>Adding tasks and notification\<close>

definition NotifyCondition :: "processor \<Rightarrow> processor" where
  "NotifyCondition p = (if pwaiting p then p\<lparr>wakeups := Suc (wakeups p)\<rparr> else p\<lparr>notified := True\<rparr>)"

definition AddTask_list :: "tid list \<Rightarrow> processor \<Rightarrow> processor" where
  "AddTask_list slist p = NotifyCondition (p\<lparr>newQ := newQ p @ slist\<rparr>)"

text \<open>\<open>AddNewTasks\<close> pushes what the packets carry; it always returns true, and it does not touch \<open>newQueue_\<close>.\<close>

definition AddNew :: "tid list \<Rightarrow> processor \<Rightarrow> processor" where
  "AddNew ins p = p\<lparr>runnableQ := runnableQ p @ ins\<rparr>"

definition RunnableSize :: "processor \<Rightarrow> nat" where
  "RunnableSize p = length (runnableQ p) + length (newQ p)"

definition GC :: "processor \<Rightarrow> tasks \<Rightarrow> processor \<times> tasks" where
  "GC p ts = (p\<lparr>gcQ := []\<rparr>, fold decr_ref (gcQ p) (fold decr_ref (gcQ p) ts))"

subsection \<open>The scheduling loop\<close>

text \<open>The head of the outer loop: the task found, if any.\<close>

definition Process_outer :: "tid list \<Rightarrow> processor \<Rightarrow> processor" where
  "Process_outer ins p =
     (let p1 = p\<lparr>runningTask := front (runnableQ p)\<rparr>;
          p2 = (if runningTask p1 = None then let q = AddNew ins p1 in q\<lparr>runningTask := front (runnableQ q)\<rparr> else p1)
      in if runningTask p2 = None then p2 else p2\<lparr>addNewQuota := 1\<rparr>)"

text \<open>Entering a task, up to \<open>SwapIn\<close>.\<close>

definition Process_enter :: "tid \<Rightarrow> processor \<Rightarrow> tasks \<Rightarrow> processor \<times> tasks" where
  "Process_enter r p ts =
     (p\<lparr>switchCount := switchCount p + 1\<rparr>, upd_task r (\<lambda>k. k\<lparr>tstate := TS_runnable, tproc := Some (pid p)\<rparr>) ts)"

text \<open>What the loop does after \<open>SwapIn\<close> returns, by the state of the task.\<close>

definition leave_runnable :: "tid list \<Rightarrow> tid \<Rightarrow> processor \<Rightarrow> processor" where
  "leave_runnable ins r p = (case next_in (runnableQ p) r of
      Some t \<Rightarrow> p\<lparr>runningTask := Some t\<rparr>
    | None \<Rightarrow> if addNewQuota p < 1 \<or> newQ p = [] then p\<lparr>runningTask := None\<rparr>
              else let q = AddNew ins p
                   in q\<lparr>runningTask := next_in (runnableQ q) r, addNewQuota := addNewQuota q - 1\<rparr>)"

definition leave_block :: "processor \<Rightarrow> processor" where
  "leave_block p = p\<lparr>runningTask := nextTask p, nextTask := None\<rparr>"

definition leave_done :: "tid list \<Rightarrow> tid \<Rightarrow> processor \<Rightarrow> tasks \<Rightarrow> processor \<times> tasks" where
  "leave_done ins r p ts =
     (let p1 = p\<lparr>nextTask := next_in (runnableQ p) r\<rparr>;
          p2 = (if nextTask p1 = None \<and> 0 < addNewQuota p1
                then let q = AddNew ins p1 in q\<lparr>nextTask := next_in (runnableQ q) r, addNewQuota := addNewQuota q - 1\<rparr>
                else p1);
          p3 = p2\<lparr>runnableQ := remove1 r (runnableQ p2)\<rparr>;
          ts3 = decr_ref r ts;
          (p4, ts4) = (if 16 < length (gcQ p3) then GC p3 ts3 else (p3, ts3));
          p5 = p4\<lparr>gcQ := gcQ p4 @ [r]\<rparr>;
          ts5 = incr_ref r ts4
      in (p5\<lparr>runningTask := nextTask p5, nextTask := None\<rparr>, ts5))"

definition Process_leave :: "tid list \<Rightarrow> tid \<Rightarrow> processor \<Rightarrow> tasks \<Rightarrow> processor \<times> tasks" where
  "Process_leave ins r p ts = (case tstate (ts r) of
      TS_runnable \<Rightarrow> (leave_runnable ins r p, ts)
    | TS_block \<Rightarrow> (leave_block p, ts)
    | TS_done \<Rightarrow> leave_done ins r p ts)"

definition CoYield :: "tid \<Rightarrow> tasks \<Rightarrow> tasks" where
  "CoYield r ts = upd_task r (\<lambda>k. k\<lparr>yieldCount := yieldCount k + 1\<rparr>) ts"

text \<open>The end of \<open>Task::Run\<close>: the task is done and yields for the last time.\<close>

definition Task_finish :: "tid \<Rightarrow> tasks \<Rightarrow> tasks" where
  "Task_finish r ts = CoYield r (upd_task r (\<lambda>k. k\<lparr>tstate := TS_done\<rparr>) ts)"

subsection \<open>Suspending and waking\<close>

type_synonym suspend_entry = "tid \<times> u64"

definition SuspendBySelf :: "tid \<Rightarrow> processor \<Rightarrow> tasks \<Rightarrow> (suspend_entry \<times> processor \<times> tasks) option" where
  "SuspendBySelf tk p ts =
     guarded (runningTask p = Some tk \<and> tstate (ts tk) = TS_runnable)
       (let ts1 = upd_task tk (\<lambda>k. k\<lparr>tstate := TS_block, suspendId := suspendId k + 1\<rparr>) ts;
            p1 = p\<lparr>nextTask := next_in (runnableQ p) tk\<rparr>;
            p2 = p1\<lparr>runnableQ := remove1 tk (runnableQ p1)\<rparr>;
            p3 = p2\<lparr>waitQ := waitQ p2 @ [tk]\<rparr>
        in Some ((tk, suspendId (ts1 tk)), p3, ts1))"

definition IsExpire :: "tasks \<Rightarrow> suspend_entry \<Rightarrow> bool" where
  "IsExpire ts e = (if trefs (ts (fst e)) = 0 then True else snd e \<noteq> suspendId (ts (fst e)))"

text \<open>\<open>self\<close>: the caller runs on this processor. The assertion fails when the task is not in the wait queue.\<close>

definition WakeupBySelf :: "bool \<Rightarrow> tid \<Rightarrow> u64 \<Rightarrow> processor \<Rightarrow> tasks \<Rightarrow> (bool \<times> processor \<times> tasks) option" where
  "WakeupBySelf self tk i p ts =
     (if i \<noteq> suspendId (ts tk) then Some (False, p, ts)
      else let ts1 = upd_task tk (\<lambda>k. k\<lparr>suspendId := suspendId k + 1\<rparr>) ts
           in guarded (tk \<in> set (waitQ p))
                (let p1 = p\<lparr>waitQ := remove1 tk (waitQ p), runnableQ := runnableQ p @ [tk]\<rparr>
                 in Some (True, if length (runnableQ p1) = 1 \<and> \<not> self then NotifyCondition p1 else p1, ts1)))"

definition Wakeup :: "bool \<Rightarrow> suspend_entry \<Rightarrow> processor \<Rightarrow> tasks \<Rightarrow> (bool \<times> processor \<times> tasks) option" where
  "Wakeup self e p ts =
     (if trefs (ts (fst e)) = 0 then Some (False, p, ts)
      else if tproc (ts (fst e)) = Some (pid p) then WakeupBySelf self (fst e) (snd e) p ts
      else Some (False, p, ts))"

subsection \<open>Stealing and marking\<close>

definition erase_checked :: "tid option \<Rightarrow> tid list \<Rightarrow> bool \<times> tid list" where
  "erase_checked t q = (case t of None \<Rightarrow> (False, q) | Some x \<Rightarrow> (x \<in> set q, remove1 x q))"

text \<open>Taking the running and the next task out of the queues while the rest is taken.\<close>

definition steal_hide :: "tid option \<Rightarrow> tid list \<Rightarrow> tid list \<Rightarrow> bool \<times> tid list \<times> tid list" where
  "steal_hide t q sl = (let (a, q') = erase_checked t q in
     if a then (True, q', sl) else let (b, sl') = erase_checked t sl in (b, q', sl'))"

definition Steal :: "nat \<Rightarrow> processor \<Rightarrow> tid list \<times> processor" where
  "Steal n p =
     (let (nq, sl) = (if 0 < n then (if newQ p = [] then ([], []) else pop_back n (newQ p)) else ([], newQ p))
      in if 0 < n \<and> n \<le> length sl then (sl, p\<lparr>newQ := nq\<rparr>)
         else let (pr, q1, sl1) = steal_hide (runningTask p) (runnableQ p) sl;
                  (pn, q2, sl2) = steal_hide (nextTask p) q1 sl1;
                  (q3, st) = (if 0 < n then (if q2 = [] then ([], []) else pop_back (n - length sl2) q2) else ([], q2));
                  q4 = q3 @ (if pr then [the (runningTask p)] else []) @ (if pn then [the (nextTask p)] else [])
              in (st @ sl2, p\<lparr>newQ := nq, runnableQ := q4\<rparr>))"

definition Mark :: "int \<Rightarrow> processor \<Rightarrow> processor" where
  "Mark now p = (if runningTask p \<noteq> None \<and> markSwitch p \<noteq> switchCount p
     then p\<lparr>markSwitch := switchCount p, markTick := now\<rparr> else p)"

definition IsBlocking :: "int \<Rightarrow> int \<Rightarrow> processor \<Rightarrow> bool" where
  "IsBlocking now cycle_timeout_us p =
     (if markSwitch p = 0 \<or> markSwitch p \<noteq> switchCount p then False else markTick p + cycle_timeout_us < now)"

subsection \<open>What stealing keeps\<close>

lemma pop_back_parts: "q \<noteq> [] \<Longrightarrow> pop_back n q = (a, b) \<Longrightarrow> a @ b = q \<and> length b = min (max 1 n) (length q)"
  by (auto simp: pop_back_def Let_def)

lemma steal_hide_spec:
  assumes "steal_hide t q sl = (b, q', sl')"
  shows "mset (q' @ sl' @ (if b then [the t] else [])) = mset (q @ sl)"
    and "b \<longleftrightarrow> (\<exists>x. t = Some x \<and> x \<in> set q \<union> set sl)"
    and "distinct (q @ sl) \<Longrightarrow> t = Some x \<Longrightarrow> x \<notin> set q' \<union> set sl'"
    and "length sl' \<le> length sl"
  using assms by (auto simp: steal_hide_def erase_checked_def length_remove1 split: option.splits if_splits)

text \<open>The last part of a steal, after the two tasks in use are hidden.\<close>

lemma Steal_cases:
  obtains (new) nq sl where "0 < n" "newQ p = nq @ sl" "length sl = n" "Steal n p = (sl, p\<lparr>newQ := nq\<rparr>)"
  | (both) nq sl pr q1 sl1 pn q2 sl2 q3 st where
      "newQ p = nq @ sl" "steal_hide (runningTask p) (runnableQ p) sl = (pr, q1, sl1)"
      "steal_hide (nextTask p) q1 sl1 = (pn, q2, sl2)" "q2 = q3 @ st" "0 < n \<longrightarrow> length (st @ sl2) \<le> n" "n = 0 \<longrightarrow> nq = [] \<and> q3 = []"
      "Steal n p = (st @ sl2, p\<lparr>newQ := nq, runnableQ := q3 @ (if pr then [the (runningTask p)] else []) @
         (if pn then [the (nextTask p)] else [])\<rparr>)"
proof -
  obtain nq sl where ns: "(if 0 < n then (if newQ p = [] then ([], []) else pop_back n (newQ p)) else ([], newQ p)) = (nq, sl)"
    by (metis surj_pair)
  then have app: "newQ p = nq @ sl" and len: "0 < n \<longrightarrow> length sl \<le> n" and z: "n = 0 \<longrightarrow> nq = []"
    using pop_back_parts [of "newQ p" n nq sl] by (auto split: if_splits)
  show thesis
  proof (cases "0 < n \<and> n \<le> length sl")
    case True
    then have "Steal n p = (sl, p\<lparr>newQ := nq\<rparr>)" using ns by (simp add: Steal_def)
    then show ?thesis using that(1) app len True by simp
  next
    case False
    obtain pr q1 sl1 where h1: "steal_hide (runningTask p) (runnableQ p) sl = (pr, q1, sl1)" by (metis prod_cases3)
    obtain pn q2 sl2 where h2: "steal_hide (nextTask p) q1 sl1 = (pn, q2, sl2)" by (metis prod_cases3)
    obtain q3 st where qs: "(if 0 < n then (if q2 = [] then ([], []) else pop_back (n - length sl2) q2) else ([], q2)) = (q3, st)"
      by (metis surj_pair)
    have l: "length sl2 \<le> length sl" using steal_hide_spec(4) [OF h1] steal_hide_spec(4) [OF h2] by simp
    have q2: "q2 = q3 @ st" and "0 < n \<longrightarrow> length (st @ sl2) \<le> n" and "n = 0 \<longrightarrow> q3 = []"
      using qs pop_back_parts [of q2 "n - length sl2" q3 st] False l by (auto split: if_splits)
    moreover have "Steal n p = (st @ sl2, p\<lparr>newQ := nq, runnableQ := q3 @ (if pr then [the (runningTask p)] else []) @
         (if pn then [the (nextTask p)] else [])\<rparr>)"
      unfolding Steal_def ns Let_def split_conv if_not_P [OF False] h1 h2 qs by simp
    ultimately show ?thesis using that(2) [OF app h1 h2] z by blast
  qed
qed

lemma steal_keep:
  assumes "steal_hide rt q sl = (pr, q1, sl1)" and "steal_hide nt q1 sl1 = (pn, q2, sl2)" and "distinct (q @ sl)"
    and "rt = Some x \<or> nt = Some x" and "x \<in> set q"
  shows "(pr \<and> the rt = x \<or> pn \<and> the nt = x) \<and> x \<notin> set (q2 @ sl2)"
proof -
  note h1 = steal_hide_spec [OF assms(1)] and h2 = steal_hide_spec [OF assms(2)]
  have s1: "set q1 \<union> set sl1 \<union> set (if pr then [the rt] else []) = set q \<union> set sl"
    using mset_eq_setD [OF h1(1)] by auto
  have s2: "set q2 \<union> set sl2 \<subseteq> set q1 \<union> set sl1" using mset_eq_setD [OF h2(1)] by auto
  have d1: "distinct (q1 @ sl1)" using mset_eq_imp_distinct_iff [OF h1(1)] assms(3) by auto
  show ?thesis
  proof (cases "rt = Some x")
    case True
    then have "pr" and "x \<notin> set q1 \<union> set sl1" using h1(2) h1(3) [OF assms(3)] assms(5) by auto
    then show ?thesis using True s2 by auto
  next
    case False
    then have nt: "nt = Some x" using assms(4) by simp
    have "x \<in> set q1 \<union> set sl1 \<union> set (if pr then [the rt] else [])" unfolding s1 using assms(5) by blast
    moreover have "x \<notin> set (if pr then [the rt] else [])" using False h1(2) by auto
    ultimately have "x \<in> set q1 \<union> set sl1" by blast
    then show ?thesis using nt h2(2) h2(3) [OF d1 nt] by auto
  qed
qed

lemma Steal_spec:
  assumes "Steal n p = (st, p')" and "distinct (runnableQ p @ newQ p)"
  shows "mset (st @ runnableQ p' @ newQ p') = mset (runnableQ p @ newQ p) \<and>
    (\<forall>x. (runningTask p = Some x \<or> nextTask p = Some x) \<and> x \<in> set (runnableQ p) \<longrightarrow> x \<in> set (runnableQ p') \<and> x \<notin> set st) \<and>
    (0 < n \<longrightarrow> length st \<le> n) \<and> p' = p\<lparr>newQ := newQ p', runnableQ := runnableQ p'\<rparr> \<and>
    (n = 0 \<longrightarrow> newQ p' = [] \<and> (\<forall>y \<in> set (runnableQ p'). runningTask p = Some y \<or> nextTask p = Some y))"
proof (cases n p rule: Steal_cases)
  case (new nq sl)
  then have "st = sl" "p' = p\<lparr>newQ := nq\<rparr>" using assms(1) by simp_all
  then show ?thesis using new assms(2) by auto
next
  case (both nq sl pr q1 sl1 pn q2 sl2 q3 st')
  define r where "r = (if pr then [the (runningTask p)] else [])"
  define u where "u = (if pn then [the (nextTask p)] else [])"
  have s: "st = st' @ sl2" "p' = p\<lparr>newQ := nq, runnableQ := q3 @ r @ u\<rparr>" using both(7) assms(1) by (simp_all add: r_def u_def)
  note h1 = steal_hide_spec [OF both(2), folded r_def] and h2 = steal_hide_spec [OF both(3), folded u_def]
  have a: "mset q1 + mset sl1 + mset r = mset (runnableQ p) + mset sl" using h1(1) by (simp only: mset_append add.assoc)
  have b: "mset q2 + mset sl2 + mset u = mset q1 + mset sl1" using h2(1) by (simp only: mset_append add.assoc)
  have "mset (st @ runnableQ p' @ newQ p') = (mset q2 + mset sl2 + mset u) + mset r + mset nq"
    using both(4) s by (simp add: ac_simps)
  also have "\<dots> = mset (runnableQ p @ newQ p)" unfolding b a using both(1) by (simp add: ac_simps)
  finally have ms: "mset (st @ runnableQ p' @ newQ p') = mset (runnableQ p @ newQ p)" .
  have d: "distinct (runnableQ p @ sl)" using assms(2) both(1) by auto
  have keep: "x \<in> set (runnableQ p') \<and> x \<notin> set st" if "runningTask p = Some x \<or> nextTask p = Some x" "x \<in> set (runnableQ p)" for x
    using steal_keep [OF both(2,3) d that] s both(4) by (auto simp: r_def u_def)
  have small: "runningTask p = Some y \<or> nextTask p = Some y" if "n = 0" "y \<in> set (runnableQ p')" for y
    using that both(6) s h1(2) h2(2) by (auto simp: r_def u_def split: if_splits)
  show ?thesis using ms keep both(5,6) small s by simp
qed

text \<open>C2: Stealing conserves tasks: what it takes and what it leaves are together the tasks the processor had, it takes
  at most the number asked for, or everything when asked for all, and never the task that is running or the
  one chosen to run next.\<close>

theorem steal_conserves:
  assumes "distinct (runnableQ p @ newQ p)"
  shows "case Steal n p of (st, p') \<Rightarrow>
    mset (st @ runnableQ p' @ newQ p') = mset (runnableQ p @ newQ p) \<and>
    (\<forall>x. (runningTask p = Some x \<or> nextTask p = Some x) \<and> x \<in> set (runnableQ p) \<longrightarrow> x \<in> set (runnableQ p') \<and> x \<notin> set st) \<and>
    (0 < n \<longrightarrow> length st \<le> n) \<and>
    (n = 0 \<longrightarrow> newQ p' = [] \<and> (\<forall>y \<in> set (runnableQ p'). runningTask p = Some y \<or> nextTask p = Some y))"
  using Steal_spec [of n p "fst (Steal n p)" "snd (Steal n p)"] assms by (simp add: case_prod_beta)

theorem steal_conserves_witness:
  "let p = (new_processor 0)\<lparr>runnableQ := [1, 2, 3, 4], newQ := [5], runningTask := Some 3, nextTask := Some 4\<rparr>
   in distinct (runnableQ p @ newQ p) \<and> fst (Steal 2 p) = [2, 5] \<and> runnableQ (snd (Steal 2 p)) = [1, 3, 4] \<and>
      mset (fst (Steal 2 p) @ runnableQ (snd (Steal 2 p)) @ newQ (snd (Steal 2 p))) = mset [1, 2, 3, 4, 5]"
  using steal_conserves [of "(new_processor 0)\<lparr>runnableQ := [1, 2, 3, 4], newQ := [5], runningTask := Some 3, nextTask := Some 4\<rparr>" 2]
  by (simp add: Let_def new_processor_def Steal_def steal_hide_def erase_checked_def pop_back_def)

end
