(* ===== verification/Processor_Runs.thy ===== *)
theory Processor_Runs
  imports Processor
begin

text \<open>
  Runs of one processor: the scheduling loop of \<open>src/processor/Processor.cpp\<close> interleaved with the tasks it
  runs and with the threads that wake, steal and add tasks, and what stays true in every run.
\<close>

subsection \<open>Runs of a processor\<close>

text \<open>
  A processor thread and everybody else, step by step. The phase is where the thread is in
  \<open>Process\<close>: looking for a task, about to enter one, inside it, back from it. Others wake
  suspended tasks through the entries issued so far, steal, add stolen tasks, and change
  tasks that are not in this processor's queues. The label tells the steals apart.
\<close>

datatype phase = POuter | PEnter | PTask | PLeave

record pstate =
  proc :: processor
  tsk :: tasks
  ph :: phase
  issued :: "suspend_entry set"

definition queued :: "processor \<Rightarrow> tid list" where
  "queued p = runnableQ p @ waitQ p @ gcQ p @ newQ p"

text \<open>Tasks that arrive are in none of the queues and not suspended.\<close>

definition arrivals :: "tid list \<Rightarrow> pstate \<Rightarrow> bool" where
  "arrivals ins s \<longleftrightarrow> distinct ins \<and> set ins \<inter> set (queued (proc s)) = {} \<and> (\<forall>t \<in> set ins. even (suspendId (tsk s t)))"

definition phase_of :: "processor \<Rightarrow> phase" where
  "phase_of p = (if runningTask p = None then POuter else PEnter)"

inductive pstep :: "bool \<Rightarrow> pstate \<Rightarrow> pstate \<Rightarrow> bool" where
  outer: "ph s = POuter \<Longrightarrow> arrivals ins s \<Longrightarrow> p = Process_outer ins (proc s) \<Longrightarrow>
    pstep False s (s\<lparr>proc := p, ph := phase_of p\<rparr>)"
| idle: "ph s = POuter \<Longrightarrow> arrivals ins s \<Longrightarrow> GC (proc s) (tsk s) = (p, ts) \<Longrightarrow>
    pstep False s (s\<lparr>proc := AddNew ins p, tsk := ts\<rparr>)"
| enter: "ph s = PEnter \<Longrightarrow> runningTask (proc s) = Some r \<Longrightarrow> Process_enter r (proc s) (tsk s) = (p, ts) \<Longrightarrow>
    pstep False s (s\<lparr>proc := p, tsk := ts, ph := PTask\<rparr>)"
| suspend: "ph s = PTask \<Longrightarrow> runningTask (proc s) = Some r \<Longrightarrow> SuspendBySelf r (proc s) (tsk s) = Some (e, p, ts) \<Longrightarrow>
    pstep False s (s\<lparr>proc := p, tsk := ts, issued := insert e (issued s)\<rparr>)"
| yield: "ph s = PTask \<Longrightarrow> runningTask (proc s) = Some r \<Longrightarrow>
    pstep False s (s\<lparr>tsk := CoYield r (tsk s), ph := PLeave\<rparr>)"
| finish: "ph s = PTask \<Longrightarrow> runningTask (proc s) = Some r \<Longrightarrow> tstate (tsk s r) = TS_runnable \<Longrightarrow>
    pstep False s (s\<lparr>tsk := Task_finish r (tsk s), ph := PLeave\<rparr>)"
| leave: "ph s = PLeave \<Longrightarrow> runningTask (proc s) = Some r \<Longrightarrow> arrivals ins s \<Longrightarrow>
    Process_leave ins r (proc s) (tsk s) = (p, ts) \<Longrightarrow> pstep False s (s\<lparr>proc := p, tsk := ts, ph := phase_of p\<rparr>)"
| wakeup: "e \<in> issued s \<Longrightarrow> Wakeup self e (proc s) (tsk s) = Some (b, p, ts) \<Longrightarrow> pstep False s (s\<lparr>proc := p, tsk := ts\<rparr>)"
| add: "arrivals sl s \<Longrightarrow> pstep False s (s\<lparr>proc := AddTask_list sl (proc s)\<rparr>)"
| steal: "Steal n (proc s) = (st, p) \<Longrightarrow> pstep True s (s\<lparr>proc := p\<rparr>)"
| elsewhere: "t \<notin> set (queued (proc s)) \<Longrightarrow> tproc k = Some (pid (proc s)) \<longrightarrow> even (suspendId k) \<Longrightarrow>
    pstep False s (s\<lparr>tsk := (tsk s)(t := k)\<rparr>)"

definition pstart :: "nat \<Rightarrow> tasks \<Rightarrow> pstate" where
  "pstart i ts = \<lparr>proc = new_processor i, tsk = ts, ph = POuter, issued = {}\<rparr>"

text \<open>The invariant, in three parts: the queues; where the running and the next task are; the parity
  of the suspend counter, odd exactly while a task waits.\<close>

definition inv_place :: "pstate \<Rightarrow> bool" where
  "inv_place s \<longleftrightarrow> distinct (queued (proc s)) \<and> (ph s = POuter \<longleftrightarrow> runningTask (proc s) = None) \<and>
     (\<forall>r. runningTask (proc s) = Some r \<longrightarrow> r \<in> set (runnableQ (proc s)) \<or>
        (r \<in> set (waitQ (proc s)) \<and> tstate (tsk s r) = TS_block \<and> ph s \<in> {PTask, PLeave})) \<and>
     (\<forall>t. nextTask (proc s) = Some t \<longrightarrow> t \<in> set (runnableQ (proc s)) \<and> ph s \<in> {PTask, PLeave} \<and>
        (\<forall>r. runningTask (proc s) = Some r \<longrightarrow> tstate (tsk s r) = TS_block \<and> t \<noteq> r))"

definition inv_parity :: "pstate \<Rightarrow> bool" where
  "inv_parity s \<longleftrightarrow> (\<forall>t \<in> set (waitQ (proc s)). odd (suspendId (tsk s t))) \<and>
     (\<forall>t \<in> set (runnableQ (proc s)) \<union> set (gcQ (proc s)) \<union> set (newQ (proc s)). even (suspendId (tsk s t))) \<and>
     (\<forall>t. tproc (tsk s t) = Some (pid (proc s)) \<longrightarrow> odd (suspendId (tsk s t)) \<longrightarrow> t \<in> set (waitQ (proc s))) \<and>
     (\<forall>(t, i) \<in> issued s. odd i)"

lemma decr_refs_frame:
  "tstate (fold decr_ref xs ts t) = tstate (ts t) \<and> tproc (fold decr_ref xs ts t) = tproc (ts t) \<and>
   suspendId (fold decr_ref xs ts t) = suspendId (ts t)"
  by (induction xs arbitrary: ts) (simp_all add: decr_ref_def upd_task_def)

lemma GC_frame:
  "GC p ts = (p', ts') \<Longrightarrow> p' = p\<lparr>gcQ := []\<rparr> \<and> (\<forall>t. tstate (ts' t) = tstate (ts t) \<and> tproc (ts' t) = tproc (ts t) \<and>
     suspendId (ts' t) = suspendId (ts t))"
  by (auto simp: GC_def decr_refs_frame)

lemma front_set: "front q = Some t \<Longrightarrow> t \<in> set q"
  by (auto simp: front_def split: list.splits)

lemma leave_done_spec:
  assumes "leave_done ins r p ts = (p', ts')"
  shows "\<exists>q. (q = runnableQ p \<or> q = runnableQ p @ ins) \<and> runnableQ p' = remove1 r q \<and> runningTask p' = next_in q r \<and>
    nextTask p' = None \<and> waitQ p' = waitQ p \<and> newQ p' = newQ p \<and> pid p' = pid p \<and> (gcQ p' = gcQ p @ [r] \<or> gcQ p' = [r]) \<and>
    (\<forall>t. tstate (ts' t) = tstate (ts t) \<and> tproc (ts' t) = tproc (ts t) \<and> suspendId (ts' t) = suspendId (ts t))"
proof -
  define q where "q = (if next_in (runnableQ p) r = None \<and> 0 < addNewQuota p then runnableQ p @ ins else runnableQ p)"
  define p3 where "p3 = (let p1 = p\<lparr>nextTask := next_in (runnableQ p) r\<rparr>;
      p2 = (if nextTask p1 = None \<and> 0 < addNewQuota p1
            then let q = AddNew ins p1 in q\<lparr>nextTask := next_in (runnableQ q) r, addNewQuota := addNewQuota q - 1\<rparr>
            else p1)
      in p2\<lparr>runnableQ := remove1 r (runnableQ p2)\<rparr>)"
  have q3: "runnableQ p3 = remove1 r q" "nextTask p3 = next_in q r" "waitQ p3 = waitQ p" "newQ p3 = newQ p" "gcQ p3 = gcQ p" "pid p3 = pid p"
    by (simp_all add: p3_def q_def Let_def AddNew_def)
  obtain p4 ts4 where g: "(if 16 < length (gcQ p3) then GC p3 (decr_ref r ts) else (p3, decr_ref r ts)) = (p4, ts4)"
    by (metis surj_pair)
  have p: "p' = p4\<lparr>gcQ := gcQ p4 @ [r], runningTask := nextTask p4, nextTask := None\<rparr>" "ts' = incr_ref r ts4"
    using assms g unfolding leave_done_def Let_def p3_def [unfolded Let_def, symmetric] by simp_all
  have "p4 = p3 \<or> p4 = p3\<lparr>gcQ := []\<rparr>"
      "\<forall>t. tstate (ts4 t) = tstate (ts t) \<and> tproc (ts4 t) = tproc (ts t) \<and> suspendId (ts4 t) = suspendId (ts t)"
    using g GC_frame [of p3 "decr_ref r ts" p4 ts4] by (auto simp: decr_ref_def upd_task_def split: if_split_asm)
  then show ?thesis unfolding p by (intro exI [of _ q]) (auto simp: q3 q_def incr_ref_def upd_task_def)
qed

lemma leave_runnable_spec:
  "\<exists>q. (q = runnableQ p \<or> q = runnableQ p @ ins) \<and> runnableQ (leave_runnable ins r p) = q \<and>
    (runningTask (leave_runnable ins r p) = None \<or> runningTask (leave_runnable ins r p) = next_in q r) \<and>
    nextTask (leave_runnable ins r p) = nextTask p \<and> waitQ (leave_runnable ins r p) = waitQ p \<and>
    newQ (leave_runnable ins r p) = newQ p \<and> gcQ (leave_runnable ins r p) = gcQ p \<and> pid (leave_runnable ins r p) = pid p"
  by (auto simp: leave_runnable_def AddNew_def Let_def split: option.splits)

lemma phase_of_simps [simp]: "phase_of p = POuter \<longleftrightarrow> runningTask p = None" "phase_of p \<noteq> PTask" "phase_of p \<noteq> PLeave"
  by (simp_all add: phase_of_def)

definition pinv :: "pstate \<Rightarrow> bool" where
  "pinv s \<longleftrightarrow> inv_place s \<and> inv_parity s"

lemmas pinv_defs = pinv_def inv_place_def inv_parity_def queued_def

lemma pinv_outer:
  assumes "pinv s" and "ph s = POuter" and "arrivals ins s"
  shows "pinv (s\<lparr>proc := Process_outer ins (proc s), ph := phase_of (Process_outer ins (proc s))\<rparr>)"
proof -
  let ?p = "Process_outer ins (proc s)"
  have q: "(runnableQ ?p = runnableQ (proc s) \<or> runnableQ ?p = runnableQ (proc s) @ ins) \<and> waitQ ?p = waitQ (proc s) \<and>
      gcQ ?p = gcQ (proc s) \<and> newQ ?p = newQ (proc s) \<and> nextTask ?p = nextTask (proc s) \<and> pid ?p = pid (proc s) \<and>
      (\<forall>r. runningTask ?p = Some r \<longrightarrow> r \<in> set (runnableQ ?p))"
    by (auto simp: Process_outer_def AddNew_def Let_def dest!: front_set)
  have n: "nextTask (proc s) = None" using assms(1,2) by (auto simp: pinv_defs)
  show ?thesis using assms q n by (auto simp: pinv_defs arrivals_def)
qed

lemma pinv_idle:
  assumes "pinv s" and "ph s = POuter" and "arrivals ins s" and "GC (proc s) (tsk s) = (p, ts)"
  shows "pinv (s\<lparr>proc := AddNew ins p, tsk := ts\<rparr>)"
  using assms GC_frame [OF assms(4)] by (auto simp: pinv_defs arrivals_def AddNew_def)

lemma pinv_enter:
  assumes "pinv s" and "ph s = PEnter" and "runningTask (proc s) = Some r" and "Process_enter r (proc s) (tsk s) = (p, ts)"
  shows "pinv (s\<lparr>proc := p, tsk := ts, ph := PTask\<rparr>)"
  using assms by (auto simp: pinv_defs Process_enter_def upd_task_def split: if_splits)

lemma inv_placeI:
  "distinct (queued (proc s)) \<Longrightarrow> (ph s = POuter \<longleftrightarrow> runningTask (proc s) = None) \<Longrightarrow>
   (\<And>r. runningTask (proc s) = Some r \<Longrightarrow> r \<in> set (runnableQ (proc s)) \<or>
      (r \<in> set (waitQ (proc s)) \<and> tstate (tsk s r) = TS_block \<and> ph s \<in> {PTask, PLeave})) \<Longrightarrow>
   (\<And>t. nextTask (proc s) = Some t \<Longrightarrow> t \<in> set (runnableQ (proc s)) \<and> ph s \<in> {PTask, PLeave} \<and>
      (\<forall>r. runningTask (proc s) = Some r \<longrightarrow> tstate (tsk s r) = TS_block \<and> t \<noteq> r)) \<Longrightarrow> inv_place s"
  by (simp add: inv_place_def)

lemma inv_parityI:
  "(\<And>t. t \<in> set (waitQ (proc s)) \<Longrightarrow> odd (suspendId (tsk s t))) \<Longrightarrow>
   (\<And>t. t \<in> set (runnableQ (proc s)) \<union> set (gcQ (proc s)) \<union> set (newQ (proc s)) \<Longrightarrow> even (suspendId (tsk s t))) \<Longrightarrow>
   (\<And>t. tproc (tsk s t) = Some (pid (proc s)) \<Longrightarrow> odd (suspendId (tsk s t)) \<Longrightarrow> t \<in> set (waitQ (proc s))) \<Longrightarrow>
   (\<And>t i. (t, i) \<in> issued s \<Longrightarrow> odd i) \<Longrightarrow> inv_parity s"
  by (auto simp: inv_parity_def)

text \<open>The invariant in elimination form, one fact per clause.\<close>

lemma pinvD:
  assumes "pinv s"
  shows "distinct (queued (proc s))" "ph s = POuter \<longleftrightarrow> runningTask (proc s) = None"
    "runningTask (proc s) = Some r \<Longrightarrow> r \<in> set (runnableQ (proc s)) \<or>
       (r \<in> set (waitQ (proc s)) \<and> tstate (tsk s r) = TS_block \<and> ph s \<in> {PTask, PLeave})"
    "nextTask (proc s) = Some t \<Longrightarrow> t \<in> set (runnableQ (proc s)) \<and> ph s \<in> {PTask, PLeave} \<and>
       (\<forall>r. runningTask (proc s) = Some r \<longrightarrow> tstate (tsk s r) = TS_block \<and> t \<noteq> r)"
    "t \<in> set (waitQ (proc s)) \<Longrightarrow> odd (suspendId (tsk s t))"
    "t \<in> set (runnableQ (proc s)) \<union> set (gcQ (proc s)) \<union> set (newQ (proc s)) \<Longrightarrow> even (suspendId (tsk s t))"
    "tproc (tsk s t) = Some (pid (proc s)) \<Longrightarrow> odd (suspendId (tsk s t)) \<Longrightarrow> t \<in> set (waitQ (proc s))"
    "(t, i) \<in> issued s \<Longrightarrow> odd i"
  using assms by (auto simp: pinv_def inv_place_def inv_parity_def)

lemma pinv_suspend:
  assumes "pinv s" and "ph s = PTask" and "runningTask (proc s) = Some r" and "SuspendBySelf r (proc s) (tsk s) = Some (e, p, ts)"
  shows "pinv (s\<lparr>proc := p, tsk := ts, issued := insert e (issued s)\<rparr>)"
proof -
  note i = pinvD [OF assms(1)]
  have st: "tstate (tsk s r) = TS_runnable" using assms(4) by (auto simp: SuspendBySelf_def split: if_splits)
  then have r: "r \<in> set (runnableQ (proc s))" using i(3) [OF assms(3)] by auto
  have d: "distinct (runnableQ (proc s))" "r \<notin> set (waitQ (proc s)) \<union> set (gcQ (proc s)) \<union> set (newQ (proc s))"
    using i(1) r by (auto simp: queued_def)
  have ev: "even (suspendId (tsk s r))" using i(6) r by blast
  have p: "p = (proc s)\<lparr>nextTask := next_in (runnableQ (proc s)) r, runnableQ := remove1 r (runnableQ (proc s)), waitQ := waitQ (proc s) @ [r]\<rparr>"
      "ts = upd_task r (\<lambda>k. k\<lparr>tstate := TS_block, suspendId := suspendId k + 1\<rparr>) (tsk s)" "e = (r, suspendId (tsk s r) + 1)"
    using assms(3,4) st by (simp_all add: SuspendBySelf_def Let_def upd_task_def)
  let ?s = "s\<lparr>proc := p, tsk := ts, issued := insert e (issued s)\<rparr>"
  have "inv_place ?s"
  proof (rule inv_placeI)
    have "mset (queued (proc ?s)) = mset (queued (proc s))" using r by (simp add: p queued_def)
    then show "distinct (queued (proc ?s))" using i(1) mset_eq_imp_distinct_iff by blast
    show "ph ?s = POuter \<longleftrightarrow> runningTask (proc ?s) = None" using i(2) by (simp add: p)
  next
    fix x assume "runningTask (proc ?s) = Some x"
    then show "x \<in> set (runnableQ (proc ?s)) \<or> (x \<in> set (waitQ (proc ?s)) \<and> tstate (tsk ?s x) = TS_block \<and> ph ?s \<in> {PTask, PLeave})"
      using assms(2,3) by (simp add: p upd_task_def)
  next
    fix x assume "nextTask (proc ?s) = Some x"
    then have "next_in (runnableQ (proc s)) r = Some x" by (simp add: p)
    from next_in_set [OF this] next_in_neq [OF d(1) this]
    show "x \<in> set (runnableQ (proc ?s)) \<and> ph ?s \<in> {PTask, PLeave} \<and>
        (\<forall>y. runningTask (proc ?s) = Some y \<longrightarrow> tstate (tsk ?s y) = TS_block \<and> x \<noteq> y)"
      using assms(2,3) d(1) by (simp add: p upd_task_def)
  qed
  moreover have "inv_parity ?s"
    by (rule inv_parityI) (use i(5-8) ev d in \<open>auto simp: p upd_task_def split: if_split_asm\<close>)
  ultimately show ?thesis by (simp add: pinv_def)
qed

text \<open>After a task that did not block: the queue \<open>q\<close> may have received arrivals, the finished task leaves it.\<close>

lemma arrivals_queue:
  assumes "pinv s" and "arrivals ins s" and "q = runnableQ (proc s) \<or> q = runnableQ (proc s) @ ins"
  shows "distinct (q @ waitQ (proc s) @ gcQ (proc s) @ newQ (proc s))" and "t \<in> set q \<Longrightarrow> even (suspendId (tsk s t))"
  using pinvD(1,6) [OF assms(1)] assms(2,3) by (auto simp: queued_def arrivals_def)

lemma pinv_leave_runnable:
  assumes "pinv s" and "runningTask (proc s) = Some r" and "arrivals ins s" and "tstate (tsk s r) = TS_runnable"
    and "p = leave_runnable ins r (proc s)"
  shows "pinv (s\<lparr>proc := p, ph := phase_of p\<rparr>)"
proof -
  note i = pinvD [OF assms(1)]
  obtain q where q: "q = runnableQ (proc s) \<or> q = runnableQ (proc s) @ ins" "runnableQ p = q"
      "runningTask p = None \<or> runningTask p = next_in q r" "nextTask p = nextTask (proc s)" "waitQ p = waitQ (proc s)"
      "newQ p = newQ (proc s)" "gcQ p = gcQ (proc s)" "pid p = pid (proc s)"
    using leave_runnable_spec [of "proc s" ins r] unfolding assms(5) by blast
  note aq = arrivals_queue [OF assms(1,3) q(1)]
  let ?s = "s\<lparr>proc := p, ph := phase_of p\<rparr>"
  have "inv_place ?s"
  proof (rule inv_placeI)
    show "distinct (queued (proc ?s))" using aq(1) by (simp add: queued_def q)
    show "x \<in> set (runnableQ (proc ?s)) \<or> (x \<in> set (waitQ (proc ?s)) \<and> tstate (tsk ?s x) = TS_block \<and> ph ?s \<in> {PTask, PLeave})"
      if "runningTask (proc ?s) = Some x" for x
      using that next_in_set [of q r x] q(2,3) by auto
    show "x \<in> set (runnableQ (proc ?s)) \<and> ph ?s \<in> {PTask, PLeave} \<and>
        (\<forall>y. runningTask (proc ?s) = Some y \<longrightarrow> tstate (tsk ?s y) = TS_block \<and> x \<noteq> y)" if "nextTask (proc ?s) = Some x" for x
      using that i(4) [of x] assms(2,4) q(4) by simp
  qed simp
  moreover have "inv_parity ?s"
    by (rule inv_parityI) (use i(5-8) aq(2) q in auto)
  ultimately show ?thesis by (simp add: pinv_def)
qed

lemma pinv_leave_done:
  assumes "pinv s" and "runningTask (proc s) = Some r" and "arrivals ins s" and "tstate (tsk s r) = TS_done"
    and "leave_done ins r (proc s) (tsk s) = (p, ts)"
  shows "pinv (s\<lparr>proc := p, tsk := ts, ph := phase_of p\<rparr>)"
proof -
  note i = pinvD [OF assms(1)]
  obtain q where q: "q = runnableQ (proc s) \<or> q = runnableQ (proc s) @ ins" "runnableQ p = remove1 r q" "runningTask p = next_in q r"
      "nextTask p = None" "waitQ p = waitQ (proc s)" "newQ p = newQ (proc s)" "pid p = pid (proc s)"
      "gcQ p = gcQ (proc s) @ [r] \<or> gcQ p = [r]"
    and fr: "\<And>t. tstate (ts t) = tstate (tsk s t)" "\<And>t. tproc (ts t) = tproc (tsk s t)" "\<And>t. suspendId (ts t) = suspendId (tsk s t)"
    using leave_done_spec [OF assms(5)] by blast
  note aq = arrivals_queue [OF assms(1,3) q(1)]
  have "r \<in> set (runnableQ (proc s))" using i(3) [OF assms(2)] assms(4) by simp
  then have r: "r \<in> set q" using q(1) by auto
  let ?s = "s\<lparr>proc := p, tsk := ts, ph := phase_of p\<rparr>"
  have "inv_place ?s"
  proof (rule inv_placeI)
    show "distinct (queued (proc ?s))" using aq(1) r q(2,5,6,8) by (auto simp: queued_def)
    show "x \<in> set (runnableQ (proc ?s)) \<or> (x \<in> set (waitQ (proc ?s)) \<and> tstate (tsk ?s x) = TS_block \<and> ph ?s \<in> {PTask, PLeave})"
      if "runningTask (proc ?s) = Some x" for x
      using that next_in_set [of q r x] next_in_neq [of q r x] aq(1) q(2,3) by simp
  qed (simp_all add: q(4))
  moreover have "inv_parity ?s"
  proof (rule inv_parityI)
    show "even (suspendId (tsk ?s t))" if "t \<in> set (runnableQ (proc ?s)) \<union> set (gcQ (proc ?s)) \<union> set (newQ (proc ?s))" for t
    proof -
      have "t \<in> set q \<or> t \<in> set (gcQ (proc s)) \<or> t \<in> set (newQ (proc s))"
        using that q(2,6,8) r set_remove1_subset [of r q] by auto
      then show ?thesis using aq(2) [of t] i(6) [of t] fr(3) by auto
    qed
  qed (use i(5,7,8) q(5,7) fr in auto)
  ultimately show ?thesis by (simp add: pinv_def)
qed

lemma pinv_leave:
  assumes "pinv s" and "ph s = PLeave" and "runningTask (proc s) = Some r" and "arrivals ins s"
    and "Process_leave ins r (proc s) (tsk s) = (p, ts)"
  shows "pinv (s\<lparr>proc := p, tsk := ts, ph := phase_of p\<rparr>)"
proof (cases "tstate (tsk s r)")
  case TS_runnable
  then show ?thesis using pinv_leave_runnable [OF assms(1,3,4)] assms(5) by (auto simp: Process_leave_def)
next
  case TS_block
  then have "p = leave_block (proc s)" "ts = tsk s" using assms(5) by (simp_all add: Process_leave_def)
  then show ?thesis using assms(1) by (auto simp: pinv_defs leave_block_def)
next
  case TS_done
  then show ?thesis using pinv_leave_done [OF assms(1,3,4)] assms(5) by (simp add: Process_leave_def)
qed

lemma pinv_yield:
  assumes "pinv s" and "ph s = PTask" and "runningTask (proc s) = Some r"
  shows "pinv (s\<lparr>tsk := CoYield r (tsk s), ph := PLeave\<rparr>)"
proof -
  note i = pinvD [OF assms(1)]
  let ?s = "s\<lparr>tsk := CoYield r (tsk s), ph := PLeave\<rparr>"
  have fr: "tstate (tsk ?s t) = tstate (tsk s t)" "suspendId (tsk ?s t) = suspendId (tsk s t)" "tproc (tsk ?s t) = tproc (tsk s t)" for t
    by (simp_all add: CoYield_def upd_task_def)
  have "inv_place ?s" by (rule inv_placeI) (use i(1-4) fr assms(2,3) in auto)
  moreover have "inv_parity ?s" by (rule inv_parityI) (use i(5-8) fr in auto)
  ultimately show ?thesis by (simp add: pinv_def)
qed

lemma pinv_finish:
  assumes "pinv s" and "ph s = PTask" and "runningTask (proc s) = Some r" and "tstate (tsk s r) = TS_runnable"
  shows "pinv (s\<lparr>tsk := Task_finish r (tsk s), ph := PLeave\<rparr>)"
proof -
  note i = pinvD [OF assms(1)]
  let ?s = "s\<lparr>tsk := Task_finish r (tsk s), ph := PLeave\<rparr>"
  have fr: "suspendId (tsk ?s t) = suspendId (tsk s t)" "tproc (tsk ?s t) = tproc (tsk s t)" for t
    by (simp_all add: Task_finish_def CoYield_def upd_task_def)
  have r: "r \<in> set (runnableQ (proc s))" using i(3) [OF assms(3)] assms(4) by simp
  have n: "nextTask (proc s) = None" using i(4) assms(3,4) by (cases "nextTask (proc s)") auto
  have "inv_place ?s" by (rule inv_placeI) (use i(1,2) r n assms(2,3) in auto)
  moreover have "inv_parity ?s" by (rule inv_parityI) (use i(5-8) fr in auto)
  ultimately show ?thesis by (simp add: pinv_def)
qed

lemma NotifyCondition_frame [simp]:
  "runnableQ (NotifyCondition p) = runnableQ p" "waitQ (NotifyCondition p) = waitQ p" "gcQ (NotifyCondition p) = gcQ p"
  "newQ (NotifyCondition p) = newQ p" "runningTask (NotifyCondition p) = runningTask p" "nextTask (NotifyCondition p) = nextTask p"
  "pid (NotifyCondition p) = pid p"
  by (simp_all add: NotifyCondition_def)

text \<open>A wakeup that succeeds, and one that does not.\<close>

lemma Wakeup_cases:
  assumes "Wakeup self (t, i) p ts = Some (b, p', ts')"
  obtains (no) "\<not> b" "p' = p" "ts' = ts" "trefs (ts t) = 0 \<or> tproc (ts t) \<noteq> Some (pid p) \<or> i \<noteq> suspendId (ts t)"
  | (yes) "b" "t \<in> set (waitQ p)" "suspendId (ts t) = i" "tproc (ts t) = Some (pid p)" "0 < trefs (ts t)"
      "waitQ p' = remove1 t (waitQ p)" "runnableQ p' = runnableQ p @ [t]"
      "gcQ p' = gcQ p" "newQ p' = newQ p" "runningTask p' = runningTask p" "nextTask p' = nextTask p" "pid p' = pid p"
      "ts' = upd_task t (\<lambda>k. k\<lparr>suspendId := suspendId k + 1\<rparr>) ts"
proof (cases "trefs (ts t) = 0 \<or> tproc (ts t) \<noteq> Some (pid p) \<or> i \<noteq> suspendId (ts t)")
  case True
  then show ?thesis using assms no by (auto simp: Wakeup_def WakeupBySelf_def split: if_split_asm)
next
  case False
  then have w: "t \<in> set (waitQ p)" using assms by (auto simp: Wakeup_def WakeupBySelf_def Let_def split: if_split_asm)
  let ?p = "p\<lparr>waitQ := remove1 t (waitQ p), runnableQ := runnableQ p @ [t]\<rparr>"
  have "b" "p' = (if length (runnableQ ?p) = 1 \<and> \<not> self then NotifyCondition ?p else ?p)"
      "ts' = upd_task t (\<lambda>k. k\<lparr>suspendId := suspendId k + 1\<rparr>) ts"
    using assms False w by (auto simp: Wakeup_def WakeupBySelf_def Let_def split: if_split_asm)
  then show ?thesis using yes w False by simp
qed

lemma pinv_wakeup:
  assumes "pinv s" and "Wakeup self (t, i) (proc s) (tsk s) = Some (b, p, ts)"
  shows "pinv (s\<lparr>proc := p, tsk := ts\<rparr>)"
  using assms(2)
proof (cases rule: Wakeup_cases)
  case no
  then show ?thesis using assms(1) by simp
next
  case yes
  note i = pinvD [OF assms(1)]
  let ?s = "s\<lparr>proc := p, tsk := ts\<rparr>"
  have d: "t \<notin> set (runnableQ (proc s)) \<union> set (gcQ (proc s)) \<union> set (newQ (proc s))" "distinct (waitQ (proc s))"
    using i(1) yes(2) by (auto simp: queued_def)
  have fr: "tstate (tsk ?s x) = tstate (tsk s x)" "tproc (tsk ?s x) = tproc (tsk s x)" for x
    by (simp_all add: yes(13) upd_task_def)
  have "inv_place ?s"
  proof (rule inv_placeI)
    have "mset (queued (proc ?s)) = mset (queued (proc s))" using yes(2) by (simp add: queued_def yes)
    then show "distinct (queued (proc ?s))" using i(1) mset_eq_imp_distinct_iff by blast
    show "ph ?s = POuter \<longleftrightarrow> runningTask (proc ?s) = None" using i(2) by (simp add: yes)
    show "x \<in> set (runnableQ (proc ?s)) \<or> (x \<in> set (waitQ (proc ?s)) \<and> tstate (tsk ?s x) = TS_block \<and> ph ?s \<in> {PTask, PLeave})"
      if "runningTask (proc ?s) = Some x" for x
      using that i(3) [of x] fr d(2) by (auto simp: yes)
    show "x \<in> set (runnableQ (proc ?s)) \<and> ph ?s \<in> {PTask, PLeave} \<and>
        (\<forall>y. runningTask (proc ?s) = Some y \<longrightarrow> tstate (tsk ?s y) = TS_block \<and> x \<noteq> y)" if "nextTask (proc ?s) = Some x" for x
      using that i(4) [of x] fr by (auto simp: yes)
  qed
  moreover have "inv_parity ?s"
  proof (rule inv_parityI)
    have o: "odd (suspendId (tsk s t))" using i(5) yes(2) by blast
    show "odd (suspendId (tsk ?s x))" if "x \<in> set (waitQ (proc ?s))" for x
      using that i(5) [of x] d(2) by (auto simp: yes(6,13) upd_task_def)
    show "even (suspendId (tsk ?s x))" if "x \<in> set (runnableQ (proc ?s)) \<union> set (gcQ (proc ?s)) \<union> set (newQ (proc ?s))" for x
      using that i(6) [of x] o by (auto simp: yes(7-9,13) upd_task_def)
    show "x \<in> set (waitQ (proc ?s))" if "tproc (tsk ?s x) = Some (pid (proc ?s))" "odd (suspendId (tsk ?s x))" for x
      using that i(7) [of x] o d(2) by (auto simp: yes(6,12,13) upd_task_def split: if_split_asm)
    show "odd j" if "(x, j) \<in> issued ?s" for x j using that i(8) by simp
  qed
  ultimately show ?thesis by (simp add: pinv_def)
qed

lemma pinv_add: "pinv s \<Longrightarrow> arrivals sl s \<Longrightarrow> pinv (s\<lparr>proc := AddTask_list sl (proc s)\<rparr>)"
  by (auto simp: pinv_defs AddTask_list_def arrivals_def)

lemma pinv_elsewhere:
  assumes "pinv s" and "t \<notin> set (queued (proc s))" and "tproc k = Some (pid (proc s)) \<longrightarrow> even (suspendId k)"
  shows "pinv (s\<lparr>tsk := (tsk s)(t := k)\<rparr>)"
proof -
  note i = pinvD [OF assms(1)]
  let ?s = "s\<lparr>tsk := (tsk s)(t := k)\<rparr>"
  have t: "t \<notin> set (runnableQ (proc s))" "t \<notin> set (waitQ (proc s))" "t \<notin> set (gcQ (proc s))" "t \<notin> set (newQ (proc s))"
    using assms(2) by (simp_all add: queued_def)
  then have r: "runningTask (proc s) \<noteq> Some t" using i(3) [of t] by auto
  have "inv_place ?s" by (rule inv_placeI) (use i(1-4) t r in auto)
  moreover have "inv_parity ?s"
    by (rule inv_parityI) (use i(5-8) t assms(3) in \<open>auto split: if_split_asm\<close>)
  ultimately show ?thesis by (simp add: pinv_def)
qed

lemma pinv_steal:
  assumes "pinv s" and "Steal n (proc s) = (st, p)"
  shows "pinv (s\<lparr>proc := p\<rparr>)"
proof -
  note i = pinvD [OF assms(1)]
  have dn: "distinct (runnableQ (proc s) @ newQ (proc s))" using i(1) by (auto simp: queued_def)
  note sp = Steal_spec [OF assms(2) dn]
  have eq: "p = (proc s)\<lparr>newQ := newQ p, runnableQ := runnableQ p\<rparr>" and ms: "mset (st @ runnableQ p @ newQ p) = mset (runnableQ (proc s) @ newQ (proc s))"
    using sp by blast+
  have fr: "waitQ p = waitQ (proc s)" "gcQ p = gcQ (proc s)" "runningTask p = runningTask (proc s)" "nextTask p = nextTask (proc s)" "pid p = pid (proc s)"
    by (subst eq, simp)+
  have keep: "x \<in> set (runnableQ p)" if "runningTask (proc s) = Some x \<or> nextTask (proc s) = Some x" "x \<in> set (runnableQ (proc s))" for x
    using sp that by blast
  have sub: "set (runnableQ p) \<union> set (newQ p) \<subseteq> set (runnableQ (proc s)) \<union> set (newQ (proc s))"
    using mset_eq_setD [OF ms] by auto
  have d: "distinct (runnableQ p @ newQ p)" using mset_eq_imp_distinct_iff [OF ms] dn by auto
  let ?s = "s\<lparr>proc := p\<rparr>"
  have "inv_place ?s"
  proof (rule inv_placeI)
    show "distinct (queued (proc ?s))" using i(1) d sub by (auto simp: queued_def fr)
    show "ph ?s = POuter \<longleftrightarrow> runningTask (proc ?s) = None" using i(2) by (simp add: fr)
    show "x \<in> set (runnableQ (proc ?s)) \<or> (x \<in> set (waitQ (proc ?s)) \<and> tstate (tsk ?s x) = TS_block \<and> ph ?s \<in> {PTask, PLeave})"
      if "runningTask (proc ?s) = Some x" for x
      using that i(3) [of x] keep [of x] by (auto simp: fr)
    show "x \<in> set (runnableQ (proc ?s)) \<and> ph ?s \<in> {PTask, PLeave} \<and>
        (\<forall>y. runningTask (proc ?s) = Some y \<longrightarrow> tstate (tsk ?s y) = TS_block \<and> x \<noteq> y)" if "nextTask (proc ?s) = Some x" for x
      using that i(4) [of x] keep [of x] by (auto simp: fr)
  qed
  moreover have "inv_parity ?s" by (rule inv_parityI) (use i(5-8) sub in \<open>auto simp: fr\<close>)
  ultimately show ?thesis by (simp add: pinv_def)
qed

lemma pinv_step: "pstep l s s' \<Longrightarrow> pinv s \<Longrightarrow> pinv s'"
proof (induction rule: pstep.induct)
  case (wakeup e s self b p ts)
  then show ?case using pinv_wakeup by (cases e) blast
qed (blast intro: pinv_outer pinv_idle pinv_enter pinv_suspend pinv_yield pinv_finish pinv_leave pinv_add pinv_steal pinv_elsewhere)+

definition preach :: "pstate \<Rightarrow> pstate \<Rightarrow> bool" where
  "preach = (\<lambda>s s'. \<exists>l. pstep l s s')\<^sup>*\<^sup>*"

lemma preach_refl: "preach s s"
  by (simp add: preach_def)

lemma preach_step: "preach s s' \<Longrightarrow> pstep l s' s'' \<Longrightarrow> preach s s''"
  unfolding preach_def by (rule rtranclp.rtrancl_into_rtrancl) blast+

lemma pinv_reach: "preach s s' \<Longrightarrow> pinv s \<Longrightarrow> pinv s'"
  unfolding preach_def by (induction rule: rtranclp_induct) (auto intro: pinv_step)

lemma pinv_start: "(\<forall>t. tproc (ts t) = Some i \<longrightarrow> even (suspendId (ts t))) \<Longrightarrow> pinv (pstart i ts)"
  by (auto simp: pinv_defs pstart_def new_processor_def)



lemma newQ_kept: "pstep l s s' \<Longrightarrow> \<not> l \<Longrightarrow> t \<in> set (newQ (proc s)) \<Longrightarrow> t \<in> set (newQ (proc s'))"
proof (induction rule: pstep.induct)
  case (idle s ins p ts)
  then show ?case by (auto simp: AddNew_def dest: GC_frame)
next
  case (leave s r ins p ts)
  then show ?case using leave_runnable_spec [of "proc s" ins r] leave_done_spec [of ins r "proc s" "tsk s" p ts]
    by (cases "tstate (tsk s r)") (auto simp: Process_leave_def leave_block_def)
next
  case (wakeup e s self b p ts)
  obtain x j where e: "e = (x, j)" by (cases e)
  from wakeup.hyps(2) [unfolded e] show ?case using wakeup.prems by (cases rule: Wakeup_cases) auto
qed (auto simp: Process_outer_def AddNew_def Let_def Process_enter_def SuspendBySelf_def AddTask_list_def split: if_split_asm)

text \<open>Tasks handed over through \<open>AddTask(SList)\<close>, the way the dispatcher moves stolen tasks, are never run by the
  processor that receives them: until somebody steals them again they stay in the new queue, whatever the
  processor and everybody else do.\<close>

lemma handed_over_tasks_stranded:
  assumes "\<forall>t. tproc (ts t) = None" and "preach (pstart i ts) s" and "t \<in> set (newQ (proc s))" and "(pstep False)\<^sup>*\<^sup>* s s'"
  shows "t \<in> set (newQ (proc s')) \<and> runningTask (proc s') \<noteq> Some t"
proof -
  have inv: "pinv s" by (rule pinv_reach [OF assms(2) pinv_start]) (use assms(1) in simp)
  have "pinv s' \<and> t \<in> set (newQ (proc s'))"
    using assms(4)
  proof (induction rule: rtranclp_induct)
    case base
    then show ?case using inv assms(3) by simp
  next
    case (step s1 s2)
    then show ?case using pinv_step newQ_kept by blast
  qed
  then show ?thesis using pinvD(1,3) [of s'] by (auto simp: queued_def)
qed

end
