(* ===== verification/Proc_Wait.thy ===== *)
theory Proc_Wait
  imports Co_Prelude
begin

text \<open>
  How a processor without work falls asleep and is woken (\<open>src/processor/Processor.cpp\<close>): the idle branch of
  \<open>Process\<close> with \<open>WaitCondition\<close>, against the threads that give it work, one step per access to
  the flags \<open>waiting_\<close> and \<open>notified_\<close>. A waker (\<open>WakeupBySelf\<close>) pushes into the runnable queue
  and, when that queue was empty, calls \<open>NotifyCondition\<close>, which holds the lock of the new queue.
  \<open>AddTask(Task*)\<close> writes a packet and then touches the flags without the lock; the parameter
  \<open>packets\<close> says whether there is such an adder. \<open>AddTask(SList)\<close> acts on this state as \<open>NotifyCondition\<close>
  does: what it adds goes to the new queue.
\<close>

datatype idle_pc = WScan | WEnter | WCheck | WSet | WSleep | WAsleep | WWoken
datatype add_pc = ANone | AAdded | ANotify | AFlag

record wait_world =
  wpc :: idle_pc
  apc :: add_pc
  pend :: nat                           \<comment> \<open>wakers between their push and their notification\<close>
  work :: nat                           \<comment> \<open>tasks queued and not yet seen by the processor\<close>
  wlock :: bool
  wwaiting :: bool
  wnotified :: bool

text \<open>The processor: scan the queues, then \<open>WaitCondition\<close>. A condition variable may also wake spuriously.\<close>

inductive idle_step :: "wait_world \<Rightarrow> wait_world \<Rightarrow> bool" where
  found: "wpc s = WScan \<Longrightarrow> 0 < work s \<Longrightarrow> idle_step s (s\<lparr>work := 0\<rparr>)"
| nothing: "wpc s = WScan \<Longrightarrow> work s = 0 \<Longrightarrow> idle_step s (s\<lparr>wpc := WEnter\<rparr>)"
| lock: "wpc s = WEnter \<Longrightarrow> \<not> wlock s \<Longrightarrow> idle_step s (s\<lparr>wpc := WCheck, wlock := True\<rparr>)"
| was_notified: "wpc s = WCheck \<Longrightarrow> wnotified s \<Longrightarrow> idle_step s (s\<lparr>wpc := WScan, wnotified := False, wlock := False\<rparr>)"
| not_notified: "wpc s = WCheck \<Longrightarrow> \<not> wnotified s \<Longrightarrow> idle_step s (s\<lparr>wpc := WSet\<rparr>)"
| set_waiting: "wpc s = WSet \<Longrightarrow> idle_step s (s\<lparr>wpc := WSleep, wwaiting := True\<rparr>)"
| sleep: "wpc s = WSleep \<Longrightarrow> idle_step s (s\<lparr>wpc := WAsleep, wlock := False\<rparr>)"
| spurious: "wpc s = WAsleep \<Longrightarrow> idle_step s (s\<lparr>wpc := WWoken\<rparr>)"
| woken: "wpc s = WWoken \<Longrightarrow> \<not> wlock s \<Longrightarrow> idle_step s (s\<lparr>wpc := WScan, wwaiting := False\<rparr>)"

text \<open>\<open>cv_.notify_all\<close> reaches a processor that sleeps.\<close>

definition notify_all_cv :: "wait_world \<Rightarrow> wait_world" where
  "notify_all_cv s = (if wpc s = WAsleep then s\<lparr>wpc := WWoken\<rparr> else s)"

definition notify_flags :: "wait_world \<Rightarrow> wait_world" where
  "notify_flags s = (if wwaiting s then notify_all_cv s else s\<lparr>wnotified := True\<rparr>)"

inductive add_step :: "bool \<Rightarrow> wait_world \<Rightarrow> wait_world \<Rightarrow> bool" where
  wake_first: "work s = 0 \<Longrightarrow> add_step b s (s\<lparr>work := 1, pend := Suc (pend s)\<rparr>)"
| wake_more: "0 < work s \<Longrightarrow> add_step b s (s\<lparr>work := Suc (work s)\<rparr>)"
| wake_notify: "0 < pend s \<Longrightarrow> \<not> wlock s \<Longrightarrow> add_step b s ((notify_flags s)\<lparr>pend := pend s - 1\<rparr>)"
| notify: "\<not> wlock s \<Longrightarrow> add_step b s (notify_flags s)"
| add_packet: "apc s = ANone \<Longrightarrow> add_step True s (s\<lparr>apc := AAdded, work := Suc (work s)\<rparr>)"
| read_true: "apc s = AAdded \<Longrightarrow> wwaiting s \<Longrightarrow> add_step True s (s\<lparr>apc := ANotify\<rparr>)"
| read_false: "apc s = AAdded \<Longrightarrow> \<not> wwaiting s \<Longrightarrow> add_step True s (s\<lparr>apc := AFlag\<rparr>)"
| do_notify: "apc s = ANotify \<Longrightarrow> add_step True s ((notify_all_cv s)\<lparr>apc := ANone\<rparr>)"
| do_flag: "apc s = AFlag \<Longrightarrow> add_step True s (s\<lparr>apc := ANone, wnotified := True\<rparr>)"

definition ww_init :: wait_world where
  "ww_init = \<lparr>wpc = WScan, apc = ANone, pend = 0, work = 0, wlock = False, wwaiting = False, wnotified = False\<rparr>"

definition ww_reach :: "bool \<Rightarrow> wait_world \<Rightarrow> bool" where
  "ww_reach packets s \<longleftrightarrow> (\<lambda>a b. idle_step a b \<or> add_step packets a b)\<^sup>*\<^sup>* ww_init s"

text \<open>Work is there, the processor sleeps and nobody is about to wake it.\<close>

definition lost_wakeup :: "wait_world \<Rightarrow> bool" where
  "lost_wakeup s \<longleftrightarrow> wpc s = WAsleep \<and> 0 < work s \<and> apc s = ANone \<and> pend s = 0"

definition ww_inv :: "wait_world \<Rightarrow> bool" where
  "ww_inv s \<longleftrightarrow> (wlock s \<longleftrightarrow> wpc s \<in> {WCheck, WSet, WSleep}) \<and> (wwaiting s \<longleftrightarrow> wpc s \<in> {WSleep, WAsleep, WWoken}) \<and>
     apc s = ANone \<and> (0 < work s \<longrightarrow> (wnotified s \<and> wpc s \<in> {WEnter, WCheck}) \<or> wpc s \<in> {WScan, WWoken} \<or> 0 < pend s)"

lemma ww_inv_wait: "idle_step s t \<Longrightarrow> ww_inv s \<Longrightarrow> ww_inv t"
  by (induction rule: idle_step.induct) (auto simp: ww_inv_def)

lemma ww_inv_add: "add_step b s t \<Longrightarrow> \<not> b \<Longrightarrow> ww_inv s \<Longrightarrow> ww_inv t"
  by (induction rule: add_step.induct; case_tac "wpc s") (auto simp: ww_inv_def notify_flags_def notify_all_cv_def)

lemma ww_inv_reach: "ww_reach False s \<Longrightarrow> ww_inv s"
  unfolding ww_reach_def
proof (induction rule: rtranclp_induct)
  case base
  then show ?case by (simp add: ww_inv_def ww_init_def)
next
  case (step a b)
  then show ?case using ww_inv_wait ww_inv_add by blast
qed

lemma ww_reach_init: "ww_reach l ww_init"
  by (simp add: ww_reach_def)

lemma ww_reach_wait: "ww_reach l s \<Longrightarrow> idle_step s t \<Longrightarrow> ww_reach l t"
  and ww_reach_add: "ww_reach l s \<Longrightarrow> add_step l s t \<Longrightarrow> ww_reach l t"
  unfolding ww_reach_def by (rule rtranclp.rtrancl_into_rtrancl; blast)+

lemma ww_unlocked_trace:
  "ww_reach True (ww_init\<lparr>wpc := WAsleep, work := 1, wwaiting := True, wnotified := True\<rparr>)"
proof -
  let ?s = "\<lambda>w a k l x n. \<lparr>wpc = w, apc = a, pend = 0, work = k, wlock = l, wwaiting = x, wnotified = n\<rparr>"
  have 1: "idle_step ww_init (?s WEnter ANone 0 False False False)"
    using idle_step.nothing [of ww_init] by (simp add: ww_init_def)
  have 2: "idle_step (?s WEnter ANone 0 False False False) (?s WCheck ANone 0 True False False)"
    using idle_step.lock [of "?s WEnter ANone 0 False False False"] by simp
  have 3: "idle_step (?s WCheck ANone 0 True False False) (?s WSet ANone 0 True False False)"
    using idle_step.not_notified [of "?s WCheck ANone 0 True False False"] by simp
  have 4: "add_step True (?s WSet ANone 0 True False False) (?s WSet AAdded 1 True False False)"
    using add_step.add_packet [of "?s WSet ANone 0 True False False"] by simp
  have 5: "add_step True (?s WSet AAdded 1 True False False) (?s WSet AFlag 1 True False False)"
    using add_step.read_false [of "?s WSet AAdded 1 True False False"] by simp
  have 6: "add_step True (?s WSet AFlag 1 True False False) (?s WSet ANone 1 True False True)"
    using add_step.do_flag [of "?s WSet AFlag 1 True False False"] by simp
  have 7: "idle_step (?s WSet ANone 1 True False True) (?s WSleep ANone 1 True True True)"
    using idle_step.set_waiting [of "?s WSet ANone 1 True False True"] by simp
  have 8: "idle_step (?s WSleep ANone 1 True True True) (?s WAsleep ANone 1 False True True)"
    using idle_step.sleep [of "?s WSleep ANone 1 True True True"] by simp
  note r3 = ww_reach_wait [OF ww_reach_wait [OF ww_reach_wait [OF ww_reach_init 1] 2] 3]
  note r6 = ww_reach_add [OF ww_reach_add [OF ww_reach_add [OF r3 4] 5] 6]
  show ?thesis using ww_reach_wait [OF ww_reach_wait [OF r6 7] 8] by (simp add: ww_init_def)
qed

text \<open>C5: When work arrives through wakers only, who notify under the lock of the new queue, a processor never sleeps while
  queued work is unseen and no notification is under way, although the push and the notification are two steps and a waker
  that finds the queue nonempty does not notify at all. \<open>AddTask(Task*)\<close>, which reads \<open>waiting_\<close> and sets \<open>notified_\<close> without the
  lock, loses the wakeup: a run ends with the task queued, the processor asleep and nobody about to notify.\<close>

theorem wakeup_needs_lock:
  "(\<forall>s. ww_reach False s \<longrightarrow> \<not> lost_wakeup s) \<and> (\<exists>s. ww_reach True s \<and> lost_wakeup s)"
  using ww_inv_reach ww_unlocked_trace by (fastforce simp: lost_wakeup_def ww_inv_def ww_init_def)

theorem wakeup_needs_lock_witness:
  "ww_reach False (ww_init\<lparr>wpc := WEnter\<rparr>) \<and> \<not> lost_wakeup (ww_init\<lparr>wpc := WEnter\<rparr>)"
proof -
  have "idle_step ww_init (ww_init\<lparr>wpc := WEnter\<rparr>)" by (rule idle_step.nothing) (simp_all add: ww_init_def)
  then have r: "ww_reach False (ww_init\<lparr>wpc := WEnter\<rparr>)" by (rule ww_reach_wait [OF ww_reach_init])
  then show ?thesis using wakeup_needs_lock by blast
qed

end
