(* ===== verification/Scheduler.thy ===== *)
theory Scheduler
  imports Processor
begin

text \<open>
  The scheduler of \<open>src/scheduler/Scheduler.cpp\<close>: starting and stopping, where a new task goes, and one round of the
  dispatcher thread, which finds blocked processors, takes their tasks away and shares them among the active
  ones. The processors are a list, indexed like \<open>processers_\<close>; what was sent to a processor as a packet and is not yet
  picked up is its inbox. A round reads the clock twice.
\<close>

subsection \<open>State\<close>

record scheduler =
  processers :: "processor list"
  inbox :: "nat \<Rightarrow> tid list"
  lastActive :: "32 word"
  taskCount :: "32 word"
  minThreadNumber :: int
  maxThreadNumber :: int
  started :: bool
  stop :: bool
  dispatching :: bool                   \<comment> \<open>\<open>dispatchThread_\<close> is joinable\<close>

definition new_Scheduler :: scheduler where
  "new_Scheduler = \<lparr>processers = [], inbox = (\<lambda>_. []), lastActive = 0, taskCount = 0, minThreadNumber = 1,
     maxThreadNumber = 1, started = False, stop = False, dispatching = False\<rparr>"

subsection \<open>Starting and stopping\<close>

definition NewProcessThread :: "processor list \<Rightarrow> processor list" where
  "NewProcessThread ps = ps @ [new_processor (length ps)]"

datatype start_error = RepeatedStart

text \<open>\<open>hc\<close> is \<open>std::thread::hardware_concurrency()\<close>.\<close>

definition Start :: "int \<Rightarrow> int \<Rightarrow> int \<Rightarrow> scheduler \<Rightarrow> start_error + scheduler" where
  "Start hc mn mx s =
     (if started s then Inl RepeatedStart
      else let mn1 = (if mn < 1 then hc else mn);
               mx1 = (if mx = 0 \<or> mx < mn1 then mn1 else mx)
           in Inr (s\<lparr>processers := (NewProcessThread ^^ nat (mn1 - 1)) (processers s), minThreadNumber := mn1,
                     maxThreadNumber := mx1, started := True, dispatching := dispatching s \<or> 1 < mx1\<rparr>))"

definition Stop :: "scheduler \<Rightarrow> scheduler" where
  "Stop s = (if stop s then s
     else s\<lparr>stop := True, processers := map NotifyCondition (processers s), dispatching := False\<rparr>)"

subsection \<open>New tasks\<close>

text \<open>The processor the caller runs on: none, one of this scheduler, or one of another scheduler.\<close>

datatype caller = Outside | OwnProc nat | OtherProc

datatype add_target = ToProc nat | ToOther | NullProc

fun find_active :: "processor list \<Rightarrow> nat \<Rightarrow> nat \<Rightarrow> nat \<Rightarrow> nat" where
  "find_active ps 0 idx prc = prc"
| "find_active ps (Suc k) idx prc =
     (let i = idx mod length ps in if active (ps ! i) then i else find_active ps k (Suc i) i)"

definition Scheduler_target :: "caller \<Rightarrow> scheduler \<Rightarrow> add_target" where
  "Scheduler_target c s =
     (case c of
        OwnProc i \<Rightarrow> if active (processers s ! i) then ToProc i
                     else ToProc (find_active (processers s) (length (processers s)) (unat (lastActive s)) i)
      | OtherProc \<Rightarrow> if processers s = [] then ToOther
                     else ToProc (find_active (processers s) (length (processers s)) (unat (lastActive s)) 0)
      | Outside \<Rightarrow> if processers s = [] then NullProc
                   else ToProc (find_active (processers s) (length (processers s)) (unat (lastActive s)) 0))"

text \<open>Calling \<open>AddTask\<close> through a null pointer is the value \<open>None\<close>.\<close>

definition Scheduler_AddTask :: "caller \<Rightarrow> tid \<Rightarrow> scheduler \<Rightarrow> scheduler option" where
  "Scheduler_AddTask c tk s =
     (case Scheduler_target c s of
        NullProc \<Rightarrow> None
      | ToOther \<Rightarrow> Some s
      | ToProc i \<Rightarrow> Some (s\<lparr>inbox := (inbox s)(i := inbox s i @ [tk]),
                           processers := (processers s)[i := NotifyCondition (processers s ! i)]\<rparr>))"

definition CreateTask :: "caller \<Rightarrow> tid \<Rightarrow> scheduler \<Rightarrow> scheduler option" where
  "CreateTask c tk s = Scheduler_AddTask c tk (s\<lparr>taskCount := taskCount s + 1\<rparr>)"

definition DeleteTask :: "scheduler \<Rightarrow> scheduler" where
  "DeleteTask s = s\<lparr>taskCount := taskCount s - 1\<rparr>"

definition Scheduler_IsEmpty :: "scheduler \<Rightarrow> bool" where
  "Scheduler_IsEmpty s \<longleftrightarrow> taskCount s = 0"

subsection \<open>One round of the dispatcher\<close>

text \<open>\<open>std::multimap\<close> from load to index: equal keys stay in insertion order.\<close>

type_synonym active_map = "(nat \<times> nat) list"

fun mm_insert :: "nat \<Rightarrow> nat \<Rightarrow> active_map \<Rightarrow> active_map" where
  "mm_insert k v [] = [(k, v)]"
| "mm_insert k v (e # m) = (if k < fst e then (k, v) # e # m else e # mm_insert k v m)"

definition first_range :: "active_map \<Rightarrow> active_map \<times> active_map" where
  "first_range m = (takeWhile (\<lambda>e. fst e = fst (hd m)) m, dropWhile (\<lambda>e. fst e = fst (hd m)) m)"

text \<open>First pass: which processors block, and how many stay active.\<close>

fun collect :: "int \<Rightarrow> int \<Rightarrow> nat \<Rightarrow> processor list \<Rightarrow> (nat \<times> nat) list \<times> processor list \<times> int" where
  "collect now to i [] = ([], [], 0)"
| "collect now to i (p # ps) =
     (let b = IsBlocking now to p;
          p' = (if b \<and> active p then p\<lparr>active := False\<rparr> else p);
          (bl, ps', c) = collect now to (Suc i) ps
      in ((if b then (i, RunnableSize p) # bl else bl), p' # ps', (if active p' then c + 1 else c)))"

definition activeQuota :: "int \<Rightarrow> int \<Rightarrow> int" where
  "activeQuota mn c = (if c < mn then mn - c else 0)"

text \<open>Second pass: activate processors within the quota, mark them, wake those that sleep on work.\<close>

fun activate :: "int \<Rightarrow> int \<Rightarrow> int \<Rightarrow> nat \<Rightarrow> active_map \<Rightarrow> 32 word \<Rightarrow> processor list \<Rightarrow> active_map \<times> 32 word \<times> processor list" where
  "activate now to q i act la [] = (act, la, [])"
| "activate now to q i act la (p # ps) =
     (let load = RunnableSize p;
          up = (\<not> active p \<and> 0 < q \<and> \<not> IsBlocking now to p);
          p1 = (if up then p\<lparr>active := True\<rparr> else p);
          q1 = (if up then q - 1 else q);
          la1 = (if up then of_nat i else la);
          act1 = (if active p1 then mm_insert load i act else act);
          p2 = (if active p1 then Mark now p1 else p1);
          p3 = (if 0 < load \<and> pwaiting p2 then NotifyCondition p2 else p2);
          (act', la', ps') = activate now to q1 (Suc i) act1 la1 ps
      in (act', la', p3 # ps'))"

definition grow :: "int \<Rightarrow> active_map \<Rightarrow> processor list \<Rightarrow> active_map \<times> processor list" where
  "grow mx act ps = (if act = [] \<and> int (length ps) < mx then (mm_insert 0 (length ps) act, NewProcessThread ps) else (act, ps))"

text \<open>\<open>SList::cut\<close> on the list, and the sharing of tasks in portions.\<close>

definition cut :: "nat \<Rightarrow> tid list \<Rightarrow> tid list \<times> tid list" where
  "cut n ts = (take n ts, drop n ts)"

fun deal :: "nat \<Rightarrow> nat list \<Rightarrow> tid list \<Rightarrow> processor list \<Rightarrow> active_map \<Rightarrow> tid list \<times> processor list \<times> active_map" where
  "deal avg [] ts ps na = (ts, ps, na)"
| "deal avg (i # js) ts ps na =
     (let (inn, rest) = cut avg ts
      in if inn = [] then (rest, ps, na)
         else let p = AddTask_list inn (ps ! i)
              in deal avg js rest (ps[i := p]) (mm_insert (RunnableSize p) i na))"

definition deal_rest :: "nat \<Rightarrow> tid list \<Rightarrow> processor list \<Rightarrow> processor list" where
  "deal_rest i ts ps = (if ts = [] then ps else ps[i := AddTask_list ts (ps ! i)])"

fun steal_blocked :: "nat list \<Rightarrow> processor list \<Rightarrow> tid list \<times> processor list" where
  "steal_blocked [] ps = ([], ps)"
| "steal_blocked (i # js) ps =
     (let (st, p) = Steal 0 (ps ! i); (rest, ps') = steal_blocked js (ps[i := p]) in (st @ rest, ps'))"

definition portion :: "tid list \<Rightarrow> nat \<Rightarrow> nat" where
  "portion ts n = (let avg = length ts div n in if avg = 0 then 1 else avg)"

definition share_blocked :: "nat list \<Rightarrow> active_map \<Rightarrow> processor list \<Rightarrow> active_map \<times> processor list" where
  "share_blocked bl act ps =
     (let (tasks, ps1) = steal_blocked bl ps
      in if tasks = [] then (act, ps1)
         else let (rng, others) = first_range act;
                  (rest, ps2, na) = deal (portion tasks (length rng)) (map snd rng) tasks ps1 others;
                  ps3 = deal_rest (snd (hd rng)) rest ps2
              in (foldl (\<lambda>m e. mm_insert (RunnableSize (ps3 ! snd e)) (snd e) m) na rng, ps3))"

definition feed_waiting :: "active_map \<Rightarrow> processor list \<Rightarrow> processor list" where
  "feed_waiting act ps =
     (if fst (hd act) \<noteq> 0 then ps
      else let (rng, _) = first_range act; waitN = length rng
           in if waitN = length act then ps
              else let m = snd (last act); stealN = min (RunnableSize (ps ! m) div 2) (waitN * 1024)
                   in if stealN = 0 then ps
                      else let (tasks, p) = Steal stealN (ps ! m); ps1 = ps[m := p]
                           in if tasks = [] then ps1
                              else let (rest, ps2, _) = deal (portion tasks waitN) (map snd rng) tasks ps1 []
                                   in deal_rest (snd (hd rng)) rest ps2)"

definition dispatch_round :: "int \<Rightarrow> int \<Rightarrow> int \<Rightarrow> scheduler \<Rightarrow> scheduler" where
  "dispatch_round now1 now2 to s =
     (let (bl, ps1, c) = collect now1 to 0 (processers s);
          (act, la, ps2) = activate now2 to (activeQuota (minThreadNumber s) c) 0 [] (lastActive s) ps1;
          (act2, ps3) = grow (maxThreadNumber s) act ps2
      in if act2 = [] then s\<lparr>processers := ps3, lastActive := la\<rparr>
         else let (act3, ps4) = share_blocked (map fst bl) act2 ps3
              in s\<lparr>processers := feed_waiting act3 ps4, lastActive := la\<rparr>)"

subsection \<open>Holders of tasks\<close>

text \<open>What the dispatcher relies on: a holder keeps what it is given, and what is stolen from it is gone from it.
  \<open>pins p p'\<close> says that \<open>p'\<close> is \<open>p\<close> with some tasks given or stolen.\<close>

locale task_holder =
  fixes held :: "'p \<Rightarrow> 't list" and give :: "'t list \<Rightarrow> 'p \<Rightarrow> 'p" and steal :: "nat \<Rightarrow> 'p \<Rightarrow> 't list \<times> 'p"
    and pins :: "'p \<Rightarrow> 'p \<Rightarrow> bool"
  assumes give_held: "mset (held (give ts p)) = mset (held p) + mset ts"
    and steal_held: "distinct (held p) \<Longrightarrow> steal n p = (ts, p') \<Longrightarrow> mset (held p') + mset ts = mset (held p)"
    and give_pins: "pins p (give ts p)"
    and steal_pins: "distinct (held p) \<Longrightarrow> steal n p = (ts, p') \<Longrightarrow> pins p p'"
    and pins_refl: "pins p p"
    and pins_trans: "pins p q \<Longrightarrow> pins q r \<Longrightarrow> pins p r"
begin

lemma total_update:
  "i < length ps \<Longrightarrow> mset (concat (map held (ps[i := p]))) + mset (held (ps ! i)) = mset (concat (map held ps)) + mset (held p)"
proof (induction ps arbitrary: i)
  case (Cons a ps)
  show ?case
  proof (cases i)
    case 0
    then show ?thesis by simp
  next
    case (Suc j)
    then have "mset (concat (map held (ps[j := p]))) + mset (held (ps ! j)) = mset (concat (map held ps)) + mset (held p)"
      using Cons by simp
    then show ?thesis using Suc by (simp add: add.assoc)
  qed
qed simp

lemma held_distinct: "distinct (concat (map held ps)) \<Longrightarrow> i < length ps \<Longrightarrow> distinct (held (ps ! i))"
  by (simp add: distinct_concat_iff)

lemma give_total:
  assumes "i < length ps"
  shows "mset (concat (map held (ps[i := give ts (ps ! i)]))) = mset (concat (map held ps)) + mset ts"
  using total_update [OF assms, of "give ts (ps ! i)"] by (simp add: give_held)

lemma steal_total:
  assumes "i < length ps" and "distinct (concat (map held ps))" and "steal n (ps ! i) = (ts, p)"
  shows "mset (concat (map held (ps[i := p]))) + mset ts = mset (concat (map held ps))"
proof -
  have h: "mset (held p) + mset ts = mset (held (ps ! i))" using steal_held held_distinct assms by blast
  have "(mset (concat (map held (ps[i := p]))) + mset ts) + mset (held p) = mset (concat (map held ps)) + mset (held p)"
    using total_update [OF assms(1), of p] by (simp only: h [symmetric] ac_simps)
  then show ?thesis by (rule add_right_imp_eq)
qed

lemma all_pins_update: "list_all2 pins qs ps \<Longrightarrow> i < length ps \<Longrightarrow> pins (ps ! i) p \<Longrightarrow> list_all2 pins qs (ps[i := p])"
  by (auto simp: list_all2_conv_all_nth nth_list_update intro: pins_trans)

lemma all_pins_refl: "list_all2 pins ps ps"
  by (simp add: list_all2_conv_all_nth pins_refl)

lemma all_pins_trans: "list_all2 pins ps qs \<Longrightarrow> list_all2 pins qs rs \<Longrightarrow> list_all2 pins ps rs"
  by (rule list_all2_trans [OF pins_trans])

end

text \<open>The processors are such holders: the run queue and the new queue are what they hold, and neither giving nor stealing
  touches the running and the next task, the other queues or the activity of a processor.\<close>

definition ready :: "processor \<Rightarrow> tid list" where
  "ready p = runnableQ p @ newQ p"

definition kept :: "processor \<Rightarrow> processor \<Rightarrow> bool" where
  "kept p p' \<longleftrightarrow> runningTask p' = runningTask p \<and> nextTask p' = nextTask p \<and> waitQ p' = waitQ p \<and> gcQ p' = gcQ p \<and>
     (\<forall>x. (runningTask p = Some x \<or> nextTask p = Some x) \<and> x \<in> set (runnableQ p) \<longrightarrow> x \<in> set (runnableQ p'))"

definition pinned :: "processor \<Rightarrow> processor \<Rightarrow> bool" where
  "pinned p p' \<longleftrightarrow> kept p p' \<and> active p' = active p"

lemmas pin_defs = pinned_def kept_def

lemma pinned_NotifyCondition [simp]: "pinned p (NotifyCondition q) = pinned p q" "ready (NotifyCondition p) = ready p"
  by (simp_all add: NotifyCondition_def pin_defs ready_def)

interpretation th: task_holder ready AddTask_list Steal pinned
proof
  fix ts and p p' q r :: processor and n
  show "mset (ready (AddTask_list ts p)) = mset (ready p) + mset ts"
    by (simp add: AddTask_list_def ready_def NotifyCondition_def)
  show "pinned p (AddTask_list ts p)" by (simp add: AddTask_list_def) (simp add: pin_defs)
  show "pinned p p" by (simp add: pin_defs)
  show "pinned p q \<Longrightarrow> pinned q r \<Longrightarrow> pinned p r" by (auto simp: pin_defs)
  assume "distinct (ready p)" and "Steal n p = (ts, p')"
  then have s: "mset (ts @ runnableQ p' @ newQ p') = mset (runnableQ p @ newQ p)"
    "\<forall>x. (runningTask p = Some x \<or> nextTask p = Some x) \<and> x \<in> set (runnableQ p) \<longrightarrow> x \<in> set (runnableQ p') \<and> x \<notin> set ts"
    "p' = p\<lparr>newQ := newQ p', runnableQ := runnableQ p'\<rparr>"
    using Steal_spec [of n p ts p'] by (simp_all add: ready_def)
  show "mset (ready p') + mset ts = mset (ready p)" using s(1) by (simp add: ready_def ac_simps)
  have "runningTask p' = runningTask p" "nextTask p' = nextTask p" "waitQ p' = waitQ p" "gcQ p' = gcQ p" "active p' = active p"
    by (subst s(3), simp)+
  then show "pinned p p'" using s(2) by (simp add: pin_defs)
qed

subsection \<open>What a round keeps\<close>

text \<open>The total of the ready tasks.\<close>

abbreviation total :: "processor list \<Rightarrow> tid multiset" where
  "total ps \<equiv> mset (concat (map ready ps))"

lemma mm_insert_mset: "mset (mm_insert k v m) = add_mset (k, v) (mset m)"
  by (induction m) auto

lemma mm_insert_set [simp]: "set (mm_insert k v m) = insert (k, v) (set m)"
  by (induction m) auto

lemma mm_insert_not_Nil [simp]: "mm_insert k v m \<noteq> []"
  by (cases m) auto

lemma mm_insert_sorted: "sorted (map fst m) \<Longrightarrow> sorted (map fst (mm_insert k v m))"
  by (induction m) auto

lemma total_distinct: "total ps + mset ts = total qs \<Longrightarrow> distinct (concat (map ready qs)) \<Longrightarrow> distinct (concat (map ready ps))"
  using mset_eq_imp_distinct_iff [of "concat (map ready ps) @ ts" "concat (map ready qs)"] by simp

lemma deal_spec:
  "deal avg js ts ps na = (rest, ps', na') \<Longrightarrow> \<forall>j \<in> set js. j < length ps \<Longrightarrow>
   total ps' + mset rest = total ps + mset ts \<and> list_all2 pinned ps ps' \<and>
   (\<forall>i < length ps. i \<notin> set js \<longrightarrow> ps' ! i = ps ! i) \<and> snd ` set na' \<subseteq> snd ` set na \<union> set js"
proof (induction avg js ts ps na arbitrary: rest ps' na' rule: deal.induct)
  case (1 avg ts ps na)
  then show ?case by (simp add: th.all_pins_refl)
next
  case (2 avg i js ts ps na)
  show ?case
  proof (cases "take avg ts = []")
    case True
    then have "rest = drop avg ts" "ps' = ps" "na' = na" using 2(2) by (simp_all add: cut_def)
    moreover have "mset (drop avg ts) = mset ts" using True by (metis append_take_drop_id append_Nil)
    ultimately show ?thesis by (simp add: th.all_pins_refl) auto
  next
    case False
    let ?p = "AddTask_list (take avg ts) (ps ! i)"
    let ?q = "ps[i := ?p]"
    have d: "deal avg js (drop avg ts) ?q (mm_insert (RunnableSize ?p) i na) = (rest, ps', na')"
      using 2(2) False by (simp add: cut_def Let_def)
    have i: "i < length ps" and js: "\<forall>j \<in> set js. j < length ?q" using 2(3) by simp_all
    have r: "total ps' + mset rest = total ?q + mset (drop avg ts)" "list_all2 pinned ?q ps'"
      "\<forall>k < length ?q. k \<notin> set js \<longrightarrow> ps' ! k = ?q ! k"
      "snd ` set na' \<subseteq> snd ` set (mm_insert (RunnableSize ?p) i na) \<union> set js"
      using 2(1) [of "(take avg ts, drop avg ts)" "take avg ts" "drop avg ts" ?p] d js False by (auto simp: cut_def)
    have "total ?q + mset (drop avg ts) = total ps + (mset (take avg ts) + mset (drop avg ts))"
      by (simp only: th.give_total [OF i] ac_simps)
    also have "mset (take avg ts) + mset (drop avg ts) = mset ts" by (metis append_take_drop_id mset_append)
    finally have t: "total ps' + mset rest = total ps + mset ts" using r(1) by simp
    have "list_all2 pinned ps ?q" by (rule th.all_pins_update [OF th.all_pins_refl i th.give_pins])
    then have a: "list_all2 pinned ps ps'" using r(2) th.all_pins_trans by blast
    show ?thesis using t a r(3,4) by (auto simp: nth_list_update)
  qed
qed

lemma deal_rest_spec:
  "i < length ps \<Longrightarrow> total (deal_rest i ts ps) = total ps + mset ts \<and> list_all2 pinned ps (deal_rest i ts ps) \<and>
   (\<forall>k. k \<noteq> i \<longrightarrow> deal_rest i ts ps ! k = ps ! k)"
  using th.give_total [of i ps ts] th.all_pins_update [OF th.all_pins_refl _ th.give_pins, of i ps ts]
  by (simp add: deal_rest_def th.all_pins_refl)

text \<open>After a processor was robbed completely only the tasks in use are left in its queues.\<close>

definition stripped :: "processor \<Rightarrow> bool" where
  "stripped p \<longleftrightarrow> newQ p = [] \<and> (\<forall>x \<in> set (runnableQ p). runningTask p = Some x \<or> nextTask p = Some x)"

lemma Steal_stripped: "distinct (ready p) \<Longrightarrow> Steal 0 p = (ts, p') \<Longrightarrow> stripped p'"
  using Steal_spec [of 0 p ts p'] th.steal_pins [of p 0 ts p'] by (auto simp: ready_def stripped_def pin_defs)

lemma steal_blocked_spec:
  "steal_blocked js ps = (ts, ps') \<Longrightarrow> \<forall>j \<in> set js. j < length ps \<Longrightarrow> distinct js \<Longrightarrow> distinct (concat (map ready ps)) \<Longrightarrow>
   total ps' + mset ts = total ps \<and> list_all2 pinned ps ps' \<and> (\<forall>j \<in> set js. stripped (ps' ! j)) \<and>
   (\<forall>i. i \<notin> set js \<longrightarrow> ps' ! i = ps ! i)"
proof (induction js ps arbitrary: ts ps' rule: steal_blocked.induct)
  case (1 ps)
  then show ?case by (simp add: th.all_pins_refl)
next
  case (2 i js ps)
  obtain st p where sp: "Steal 0 (ps ! i) = (st, p)" by (metis surj_pair)
  obtain rest where s: "steal_blocked js (ps[i := p]) = (rest, ps')" "ts = st @ rest"
    using 2(2) by (auto simp: sp split: prod.splits)
  have i: "i < length ps" "distinct (ready (ps ! i))" using 2(3,5) th.held_distinct by auto
  note tot = th.steal_total [OF i(1) 2(5) sp]
  have d: "distinct (concat (map ready (ps[i := p])))" by (rule total_distinct [OF tot 2(5)])
  have r: "total ps' + mset rest = total (ps[i := p])" "list_all2 pinned (ps[i := p]) ps'" "\<forall>j \<in> set js. stripped (ps' ! j)"
    "\<forall>k. k \<notin> set js \<longrightarrow> ps' ! k = ps[i := p] ! k"
    using 2(1) [OF sp [symmetric] refl s(1)] 2(3,4) d by auto
  have "list_all2 pinned ps (ps[i := p])" by (rule th.all_pins_update [OF th.all_pins_refl i(1) th.steal_pins [OF i(2) sp]])
  then have a: "list_all2 pinned ps ps'" using r(2) th.all_pins_trans by blast
  have "total ps' + mset ts = (total ps' + mset rest) + mset st" by (simp add: s(2) ac_simps)
  then have m: "total ps' + mset ts = total ps" by (simp only: r(1) tot)
  have "stripped (ps' ! i)" using r(4) 2(4) i(1) Steal_stripped [OF i(2) sp] by simp
  then show ?case using m a r(3,4) 2(4) by auto
qed

definition deactivate :: "int \<Rightarrow> int \<Rightarrow> processor \<Rightarrow> processor" where
  "deactivate now to p = p\<lparr>active := active p \<and> \<not> IsBlocking now to p\<rparr>"

lemma deactivate_if: "(if IsBlocking now to p \<and> active p then p\<lparr>active := False\<rparr> else p) = deactivate now to p"
  by (cases "active p") (auto simp: deactivate_def)

lemma collect_procs:
  "collect now to i ps = (bl, ps', c) \<Longrightarrow> ps' = map (deactivate now to) ps \<and> c = int (length (filter active ps'))"
  by (induction ps arbitrary: i bl ps' c) (auto simp: Let_def deactivate_if split: prod.splits)

lemma collect_blocked:
  "collect now to i ps = (bl, ps', c) \<Longrightarrow> sorted_wrt (<) (map fst bl) \<and>
   set (map fst bl) = {j. i \<le> j \<and> j < i + length ps \<and> IsBlocking now to (ps ! (j - i))}"
proof (induction ps arbitrary: i bl ps' c)
  case (Cons p ps)
  obtain bl1 ps1 c1 where r: "collect now to (Suc i) ps = (bl1, ps1, c1)" by (metis prod_cases3)
  note ih = Cons.IH [OF r]
  have bl: "map fst bl = (if IsBlocking now to p then i # map fst bl1 else map fst bl1)"
    using Cons.prems r by (auto simp: Let_def)
  have s: "{j. i \<le> j \<and> j < i + length (p # ps) \<and> IsBlocking now to ((p # ps) ! (j - i))} =
     (if IsBlocking now to p then {i} else {}) \<union> {j. Suc i \<le> j \<and> j < Suc i + length ps \<and> IsBlocking now to (ps ! (j - Suc i))}"
    by (auto simp: nth_Cons' le_less Suc_le_eq)
  show ?case using ih unfolding bl s by auto
qed simp

lemma IsBlocking_mono: "IsBlocking a to p \<Longrightarrow> a \<le> b \<Longrightarrow> IsBlocking b to p"
  by (auto simp: IsBlocking_def split: if_splits)

lemma deactivate_simps [simp]: "IsBlocking a to (deactivate now to p) = IsBlocking a to p"
  "active (deactivate now to p) \<longleftrightarrow> active p \<and> \<not> IsBlocking now to p"
  by (simp_all add: IsBlocking_def deactivate_def)

text \<open>The second pass changes no queue.\<close>

definition same_tasks :: "processor \<Rightarrow> processor \<Rightarrow> bool" where
  "same_tasks p p' \<longleftrightarrow> runningTask p' = runningTask p \<and> nextTask p' = nextTask p \<and> waitQ p' = waitQ p \<and> gcQ p' = gcQ p \<and>
     runnableQ p' = runnableQ p \<and> newQ p' = newQ p"

lemma same_tasks_simps [simp]:
  "same_tasks p (NotifyCondition q) = same_tasks p q" "same_tasks p (Mark now q) = same_tasks p q"
  "same_tasks p (q\<lparr>active := b\<rparr>) = same_tasks p q" "same_tasks p (deactivate now to q) = same_tasks p q" "same_tasks p p"
  "active (NotifyCondition q) = active q" "active (Mark now q) = active q"
  by (simp_all add: same_tasks_def NotifyCondition_def Mark_def deactivate_def)

lemma same_tasks_kept: "same_tasks p q \<Longrightarrow> kept q r \<Longrightarrow> kept p r"
  by (simp add: same_tasks_def kept_def)

lemma same_tasks_ready: "list_all2 same_tasks ps qs \<Longrightarrow> map ready qs = map ready ps"
  by (induction rule: list_all2_induct) (auto simp: same_tasks_def ready_def)

lemma activate_spec:
  assumes "activate now to q i act la ps = (act', la', ps')" and "0 \<le> q"
  shows "list_all2 same_tasks ps ps' \<and>
    set act' = set act \<union> {(RunnableSize (ps ! k), i + k) | k. k < length ps \<and> active (ps' ! k)} \<and>
    (sorted (map fst act) \<longrightarrow> sorted (map fst act')) \<and>
    length (filter active ps') = length (filter active ps) +
      min (nat q) (length (filter (\<lambda>p. \<not> active p \<and> \<not> IsBlocking now to p) ps)) \<and>
    (\<forall>k < length ps. active (ps' ! k) \<longrightarrow> active (ps ! k) \<or> \<not> IsBlocking now to (ps ! k))"
  using assms
proof (induction ps arbitrary: q i act la act' la' ps')
  case Nil
  then show ?case by simp
next
  case (Cons p ps)
  define up where "up \<longleftrightarrow> \<not> active p \<and> 0 < q \<and> \<not> IsBlocking now to p"
  define p1 where "p1 = (if up then p\<lparr>active := True\<rparr> else p)"
  define q1 where "q1 = (if up then q - 1 else q)"
  define act1 where "act1 = (if active p1 then mm_insert (RunnableSize p) i act else act)"
  define p2 where "p2 = (if active p1 then Mark now p1 else p1)"
  define p3 where "p3 = (if 0 < RunnableSize p \<and> pwaiting p2 then NotifyCondition p2 else p2)"
  obtain ps1 where r: "activate now to q1 (Suc i) act1 (if up then of_nat i else la) ps = (act', la', ps1)" and ps': "ps' = p3 # ps1"
    using Cons.prems(1) by (auto simp: Let_def up_def p1_def q1_def act1_def p2_def p3_def split: prod.splits)
  have "0 \<le> q1" using Cons.prems(2) by (simp add: q1_def up_def)
  note ih = Cons.IH [OF r this]
  have ap: "active p3 \<longleftrightarrow> active p \<or> up" by (simp add: p3_def p2_def p1_def)
  have s: "same_tasks p p3" by (simp add: p3_def p2_def p1_def)
  have a1: "set act1 = set act \<union> (if active p3 then {(RunnableSize p, i)} else {})"
    by (auto simp: act1_def ap p1_def)
  have e: "{(RunnableSize ((p # ps) ! k), i + k) | k. k < length (p # ps) \<and> active (ps' ! k)} =
      (if active p3 then {(RunnableSize p, i)} else {}) \<union> {(RunnableSize (ps ! k), Suc i + k) | k. k < length ps \<and> active (ps1 ! k)}"
    unfolding ps' by (auto simp: less_Suc_eq_0_disj)
  have "set act' = set act1 \<union> {(RunnableSize (ps ! k), Suc i + k) | k. k < length ps \<and> active (ps1 ! k)}" using ih by blast
  then have c2: "set act' = set act \<union> {(RunnableSize ((p # ps) ! k), i + k) | k. k < length (p # ps) \<and> active (ps' ! k)}"
    unfolding e a1 by (simp only: Un_assoc)
  have c3: "sorted (map fst act) \<longrightarrow> sorted (map fst act')" using ih mm_insert_sorted by (auto simp: act1_def)
  have c4: "length (filter active ps') = length (filter active (p # ps)) +
      min (nat q) (length (filter (\<lambda>p. \<not> active p \<and> \<not> IsBlocking now to p) (p # ps)))"
    using ih Cons.prems(2) unfolding ps' by (auto simp: ap q1_def up_def)
  have c5: "\<forall>k < length (p # ps). active (ps' ! k) \<longrightarrow> active ((p # ps) ! k) \<or> \<not> IsBlocking now to ((p # ps) ! k)"
    using ih unfolding ps' by (auto simp: less_Suc_eq_0_disj ap up_def)
  show ?case using s ih c2 c3 c4 c5 unfolding ps' by simp
qed

text \<open>The map of active processors names processors that exist and are active.\<close>

definition act_ok :: "active_map \<Rightarrow> processor list \<Rightarrow> bool" where
  "act_ok act ps \<longleftrightarrow> act \<noteq> [] \<and> (\<forall>j \<in> snd ` set act. j < length ps \<and> active (ps ! j))"

lemma first_range_sets:
  "act \<noteq> [] \<Longrightarrow> first_range act = (rng, others) \<Longrightarrow> rng \<noteq> [] \<and> set act = set rng \<union> set others"
proof -
  assume a: "act \<noteq> []" "first_range act = (rng, others)"
  then have r: "rng @ others = act" "rng = takeWhile (\<lambda>e. fst e = fst (hd act)) act"
    by (auto simp: first_range_def)
  have "rng \<noteq> []" using r(2) a(1) by (cases act) auto
  moreover have "set act = set rng \<union> set others" unfolding r(1) [symmetric] by simp
  ultimately show "rng \<noteq> [] \<and> set act = set rng \<union> set others" ..
qed

lemma act_ok_pinned: "act_ok act ps \<Longrightarrow> list_all2 pinned ps qs \<Longrightarrow> act_ok act qs"
  by (auto simp: act_ok_def list_all2_conv_all_nth pinned_def)

lemma act_ok_subset: "act_ok act ps \<Longrightarrow> snd ` set act' \<subseteq> snd ` set act \<Longrightarrow> act' \<noteq> [] \<Longrightarrow> act_ok act' ps"
  unfolding act_ok_def by blast

lemma foldl_insert_set: "snd ` set (foldl (\<lambda>m e. mm_insert (f e) (snd e) m) na rng) = snd ` set na \<union> snd ` set rng"
  by (induction rng arbitrary: na) auto

lemma foldl_insert_not_Nil: "rng \<noteq> [] \<Longrightarrow> foldl (\<lambda>m e. mm_insert (f e) (snd e) m) na rng \<noteq> []"
  by (induction rng rule: rev_induct) auto

lemma share_blocked_spec:
  assumes "share_blocked js act ps = (act', ps')" and "act_ok act ps" and "distinct (concat (map ready ps))"
    and "distinct js" and "\<forall>j \<in> set js. j < length ps \<and> \<not> active (ps ! j)"
  shows "total ps' = total ps \<and> list_all2 pinned ps ps' \<and> act_ok act' ps' \<and>
    (\<forall>j < length ps. \<not> active (ps ! j) \<longrightarrow> (if j \<in> set js then stripped (ps' ! j) else ps' ! j = ps ! j))"
proof -
  obtain tasks ps1 where st: "steal_blocked js ps = (tasks, ps1)" by (metis surj_pair)
  have "\<forall>j \<in> set js. j < length ps" using assms(5) by blast
  then have s: "total ps1 + mset tasks = total ps" "list_all2 pinned ps ps1"
    "\<And>j. if j \<in> set js then stripped (ps1 ! j) else ps1 ! j = ps ! j"
    using steal_blocked_spec [OF st _ assms(4,3)] by simp_all
  have ok1: "act_ok act ps1" by (rule act_ok_pinned [OF assms(2) s(2)])
  show ?thesis
  proof (cases "tasks = []")
    case True
    then have "act' = act" "ps' = ps1" using assms(1) st by (simp_all add: share_blocked_def)
    then show ?thesis using s(1) s(2,3) ok1 True by simp
  next
    case False
    obtain rng others where r: "first_range act = (rng, others)" by (metis surj_pair)
    obtain rest ps2 na where d: "deal (portion tasks (length rng)) (map snd rng) tasks ps1 others = (rest, ps2, na)"
      by (metis prod_cases3)
    define ps3 where "ps3 = deal_rest (snd (hd rng)) rest ps2"
    have rs: "rng \<noteq> []" "set act = set rng \<union> set others" using first_range_sets [OF _ r] assms(2) by (auto simp: act_ok_def)
    define act3 where "act3 = foldl (\<lambda>m e. mm_insert (RunnableSize (ps3 ! snd e)) (snd e) m) na rng"
    have "share_blocked js act ps = (act3, ps3)"
      unfolding share_blocked_def st r split_conv Let_def d ps3_def [symmetric] act3_def [symmetric] by (rule if_not_P [OF False])
    then have res: "ps' = ps3" "act' = act3" using assms(1) by simp_all
    have a3: "snd ` set act3 = snd ` set na \<union> snd ` set rng" "act3 \<noteq> []"
      unfolding act3_def by (rule foldl_insert_set, rule foldl_insert_not_Nil [OF rs(1)])
    have len: "length ps1 = length ps" using list_all2_lengthD [OF s(2)] by simp
    have rin: "\<forall>j \<in> set (map snd rng). j < length ps1" using ok1 rs by (auto simp: act_ok_def)
    have ds: "total ps2 + mset rest = total ps1 + mset tasks" "list_all2 pinned ps1 ps2"
      "\<forall>i < length ps1. i \<notin> set (map snd rng) \<longrightarrow> ps2 ! i = ps1 ! i" "snd ` set na \<subseteq> snd ` set others \<union> set (map snd rng)"
      using deal_spec [OF d rin] by simp_all
    have len2: "length ps2 = length ps1" using list_all2_lengthD [OF ds(2)] by simp
    have h: "snd (hd rng) \<in> set (map snd rng)" using rs(1) by simp
    then have hl: "snd (hd rng) < length ps2" using bspec [OF rin h] len2 by simp
    note es = conjunct1 [OF deal_rest_spec [OF hl, of rest, folded ps3_def]] conjunct2 [OF deal_rest_spec [OF hl, of rest, folded ps3_def]]
    have p: "list_all2 pinned ps1 ps3" by (rule th.all_pins_trans [OF ds(2) conjunct1 [OF es(2)]])
    have "snd ` set act3 \<subseteq> snd ` set act" unfolding a3(1) rs(2) image_Un using ds(4) by auto
    then have ok: "act_ok act' ps3" unfolding res(2) by (rule act_ok_subset [OF act_ok_pinned [OF ok1 p] _ a3(2)])
    have tot: "total ps3 = total ps" unfolding es(1) ds(1) by (rule s(1))
    have un: "ps3 ! j = ps1 ! j" if "j < length ps" "\<not> active (ps ! j)" for j
    proof -
      have nj: "j \<notin> set (map snd rng)" using assms(2) rs(2) that(2) by (auto simp: act_ok_def)
      then have "j \<noteq> snd (hd rng)" using h by metis
      then have "ps3 ! j = ps2 ! j" using es(2) by blast
      moreover have "ps2 ! j = ps1 ! j" using ds(3) nj that(1) len by simp
      ultimately show ?thesis by simp
    qed
    have pp: "list_all2 pinned ps ps3" by (rule th.all_pins_trans [OF s(2) p])
    have "if j \<in> set js then stripped (ps3 ! j) else ps3 ! j = ps ! j" if "j < length ps" "\<not> active (ps ! j)" for j
      using s(3) [of j] unfolding un [OF that] .
    then show ?thesis unfolding res(1) using tot pp ok by simp
  qed
qed

lemma feed_waiting_spec:
  assumes "act_ok act ps" and "distinct (concat (map ready ps))"
  shows "total (feed_waiting act ps) = total ps \<and> list_all2 pinned ps (feed_waiting act ps) \<and>
    (\<forall>j < length ps. \<not> active (ps ! j) \<longrightarrow> feed_waiting act ps ! j = ps ! j)"
proof -
  obtain rng others where r: "first_range act = (rng, others)" by (metis surj_pair)
  define m where "m = snd (last act)"
  define n where "n = min (RunnableSize (ps ! m) div 2) (length rng * 1024)"
  obtain tasks p where sp: "Steal n (ps ! m) = (tasks, p)" by (metis surj_pair)
  have rs: "rng \<noteq> []" "set act = set rng \<union> set others" using first_range_sets [OF _ r] assms(1) by (auto simp: act_ok_def)
  have m: "m < length ps" "active (ps ! m)" using assms(1) by (auto simp: act_ok_def m_def)
  have dm: "distinct (ready (ps ! m))" using th.held_distinct [OF assms(2) m(1)] .
  note tot1 = th.steal_total [OF m(1) assms(2) sp]
  have p1: "list_all2 pinned ps (ps[m := p])" by (rule th.all_pins_update [OF th.all_pins_refl m(1) th.steal_pins [OF dm sp]])
  obtain rest ps2 na where d: "deal (portion tasks (length rng)) (map snd rng) tasks (ps[m := p]) [] = (rest, ps2, na)"
    by (metis prod_cases3)
  have rin: "\<forall>j \<in> set (map snd rng). j < length (ps[m := p])" using assms(1) rs by (auto simp: act_ok_def)
  have ds: "total ps2 + mset rest = total (ps[m := p]) + mset tasks" "list_all2 pinned (ps[m := p]) ps2"
    "\<forall>i < length ps. i \<notin> set (map snd rng) \<longrightarrow> ps2 ! i = ps[m := p] ! i" using deal_spec [OF d rin] by simp_all
  have h: "snd (hd rng) \<in> set (map snd rng)" using rs(1) by simp
  have len2: "length ps2 = length ps" using list_all2_lengthD [OF ds(2)] by simp
  have hl: "snd (hd rng) < length ps2" using bspec [OF rin h] len2 by simp
  note es = conjunct1 [OF deal_rest_spec [OF hl, of rest]] conjunct2 [OF deal_rest_spec [OF hl, of rest]]
  have tot: "total (deal_rest (snd (hd rng)) rest ps2) = total ps" unfolding es(1) ds(1) by (rule tot1)
  have pin: "list_all2 pinned ps (deal_rest (snd (hd rng)) rest ps2)"     by (rule th.all_pins_trans [OF p1 th.all_pins_trans [OF ds(2) conjunct1 [OF es(2)]]])
  have out: "deal_rest (snd (hd rng)) rest ps2 ! j = ps ! j" if "j < length ps" "\<not> active (ps ! j)" for j
  proof -
    have "j \<notin> set (map snd rng)" "j \<noteq> m" using assms(1) rs(2) m(2) that(2) by (auto simp: act_ok_def)
    then show ?thesis using ds(3) es(2) h that(1) by (metis nth_list_update_neq)
  qed
  have val: "feed_waiting act ps = ps \<or>
      feed_waiting act ps = (if tasks = [] then ps[m := p] else deal_rest (snd (hd rng)) rest ps2)"
    unfolding feed_waiting_def r Let_def split_conv m_def [symmetric] n_def [symmetric] sp d
    by (simp only: split: if_split) simp
  show ?thesis
  proof (cases "feed_waiting act ps = ps")
    case True
    then show ?thesis by (simp add: th.all_pins_refl)
  next
    case False
    show ?thesis
    proof (cases "tasks = []")
      case True
      then have "feed_waiting act ps = ps[m := p]" using val False by simp
      moreover have "ps[m := p] ! j = ps ! j" if "\<not> active (ps ! j)" for j using m(2) that by (cases "j = m") simp_all
      ultimately show ?thesis using tot1 p1 True by simp
    next
      case ne: False
      then have "feed_waiting act ps = deal_rest (snd (hd rng)) rest ps2" using val False by simp
      then show ?thesis using tot pin out by simp
    qed
  qed
qed

text \<open>The two passes and the new thread, before any task moves.\<close>

lemma grow_cases:
  "grow mx act ps = (act', ps') \<Longrightarrow>
   (act' = act \<and> ps' = ps \<and> (act = [] \<longrightarrow> mx \<le> int (length ps))) \<or>
   (act = [] \<and> int (length ps) < mx \<and> act' = [(0, length ps)] \<and> ps' = ps @ [new_processor (length ps)])"
  by (auto simp: grow_def NewProcessThread_def split: if_splits)

lemma filter_count_le: "(\<And>p. P p \<Longrightarrow> Q p \<or> R p) \<Longrightarrow> length (filter P ps) \<le> length (filter Q ps) + length (filter R ps)"
  by (induction ps) auto

lemma new_ready [simp]: "ready (new_processor i) = []" "active (new_processor i)"
  by (simp_all add: ready_def new_processor_def)

lemma round_phases:
  assumes "collect now1 to 0 ps = (bl, ps1, c)" and "activate now2 to (activeQuota mn c) 0 [] la ps1 = (act, la', ps2)"
    and "grow mx act ps2 = (act2, ps3)" and "now1 \<le> now2"
  shows "list_all2 same_tasks ps (take (length ps) ps3)" and "total ps3 = total ps"
    and "length ps \<le> length ps3" and "int (length ps3) \<le> max (int (length ps)) mx"
    and "act2 \<noteq> [] \<Longrightarrow> act_ok act2 ps3"
    and "distinct (map fst bl)" and "\<forall>j \<in> set (map fst bl). j < length ps3 \<and> \<not> active (ps3 ! j)"
    and "j \<in> set (map fst bl) \<longleftrightarrow> j < length ps \<and> IsBlocking now1 to (ps ! j)"
    and "min (nat mn) (length (filter (\<lambda>p. \<not> IsBlocking now2 to p) ps)) \<le> length (filter active ps3)"
    and "act2 = [] \<longleftrightarrow> length (filter active ps3) = 0"
    and "length ps < length ps3 \<longrightarrow> filter active (take (length ps) ps3) = []"
proof -
  have c: "ps1 = map (deactivate now1 to) ps" "c = int (length (filter active ps1))" using collect_procs [OF assms(1)] by simp_all
  have b: "sorted_wrt (<) (map fst bl)" "set (map fst bl) = {j. j < length ps \<and> IsBlocking now1 to (ps ! j)}"
    using collect_blocked [OF assms(1)] by simp_all
  have "0 \<le> activeQuota mn c" by (simp add: activeQuota_def)
  note a = activate_spec [OF assms(2) this]
  have len: "length ps2 = length ps" using a c(1) by (auto dest: list_all2_lengthD)
  have s12: "list_all2 same_tasks ps ps2" using a c(1) by (simp add: list_all2_conv_all_nth same_tasks_def deactivate_def)
  have act: "set act = {(RunnableSize (ps1 ! k), k) | k. k < length ps \<and> active (ps2 ! k)}" using a c(1) by simp
  have act_nil: "act = [] \<longleftrightarrow> filter active ps2 = []"
    unfolding set_empty [symmetric] act using len by (fastforce simp: set_conv_nth filter_empty_conv)
  have nb: "\<not> active (ps2 ! j)" if "j < length ps" "IsBlocking now1 to (ps ! j)" for j
    using a c(1) that IsBlocking_mono [OF that(2) assms(4)] by auto
  have "length (filter (\<lambda>p. \<not> IsBlocking now2 to p) ps1) \<le>
        length (filter active ps1) + length (filter (\<lambda>p. \<not> active p \<and> \<not> IsBlocking now2 to p) ps1)"
    by (rule filter_count_le) blast
  moreover have "length (filter (\<lambda>p. \<not> IsBlocking now2 to p) ps1) = length (filter (\<lambda>p. \<not> IsBlocking now2 to p) ps)"
    unfolding c(1) by (simp add: filter_map o_def)
  ultimately have cnt: "min (nat mn) (length (filter (\<lambda>p. \<not> IsBlocking now2 to p) ps)) \<le> length (filter active ps2)"
    using a c(2) by (auto simp: activeQuota_def)
  from grow_cases [OF assms(3)]
  consider (stay) "act2 = act" "ps3 = ps2" "act = [] \<longrightarrow> mx \<le> int (length ps2)"
    | (new) "act = []" "int (length ps2) < mx" "act2 = [(0, length ps2)]" "ps3 = ps2 @ [new_processor (length ps2)]" by blast
  note g = this
  have tk: "take (length ps) ps3 = ps2" using g by cases (simp_all add: len)
  show "list_all2 same_tasks ps (take (length ps) ps3)" using s12 tk by simp
  show "total ps3 = total ps" using g
    by cases (simp_all add: same_tasks_ready [OF s12] new_ready)
  show "length ps \<le> length ps3" and "int (length ps3) \<le> max (int (length ps)) mx" using g by (cases; simp add: len)+
  show "act_ok act2 ps3" if "act2 \<noteq> []" using g that act len by cases (auto simp: act_ok_def nth_append)
  show "distinct (map fst bl)" using b(1) strict_sorted_iff by blast
  show "\<forall>j \<in> set (map fst bl). j < length ps3 \<and> \<not> active (ps3 ! j)" using g b(2) nb len by cases (auto simp: nth_append)
  show "j \<in> set (map fst bl) \<longleftrightarrow> j < length ps \<and> IsBlocking now1 to (ps ! j)" using b(2) by blast
  show "min (nat mn) (length (filter (\<lambda>p. \<not> IsBlocking now2 to p) ps)) \<le> length (filter active ps3)" using g cnt by cases auto
  show "act2 = [] \<longleftrightarrow> length (filter active ps3) = 0" using g act_nil by cases (auto simp: new_processor_def)
  show "length ps < length ps3 \<longrightarrow> filter active (take (length ps) ps3) = []" using g act_nil len tk by cases auto
qed

lemma round_grows:
  assumes "collect now1 to 0 ps = (bl, ps1, c)" and "activate now2 to (activeQuota mn c) 0 [] la ps1 = (act, la', ps2)"
    and "grow mx act ps2 = (act2, ps3)"
  shows "length ps3 = (if filter active (take (length ps) ps3) = [] \<and> int (length ps) < mx then Suc (length ps) else length ps)"
proof -
  have "0 \<le> activeQuota mn c" by (simp add: activeQuota_def)
  note a = activate_spec [OF assms(2) this]
  have len: "length ps2 = length ps" using a collect_procs [OF assms(1)] by (auto dest: list_all2_lengthD)
  have act: "set act = {(RunnableSize (ps1 ! k), k) | k. k < length ps \<and> active (ps2 ! k)}"
    using a collect_procs [OF assms(1)] by simp
  have act_nil: "act = [] \<longleftrightarrow> filter active ps2 = []"
    unfolding set_empty [symmetric] act using len by (fastforce simp: set_conv_nth filter_empty_conv)
  show ?thesis using grow_cases [OF assms(3)] act_nil len by auto
qed

lemma list_all2_pinned_nth: "list_all2 pinned ps qs \<Longrightarrow> i < length ps \<Longrightarrow> pinned (ps ! i) (qs ! i)"
  by (rule list_all2_nthD)

lemma filter_active_pinned: "list_all2 pinned ps qs \<Longrightarrow> length (filter active qs) = length (filter active ps)"
  by (induction rule: list_all2_induct) (auto simp: pinned_def)

text \<open>How a round ends, from the state after the two passes.\<close>

lemma dispatch_round_ends:
  assumes "collect now1 to 0 (processers s) = (bl, ps1, c)"
    and "activate now2 to (activeQuota (minThreadNumber s) c) 0 [] (lastActive s) ps1 = (act, la', ps2)"
    and "grow (maxThreadNumber s) act ps2 = (act2, ps3)" and "now1 \<le> now2" and "distinct (concat (map ready (processers s)))"
  shows "let ps' = processers (dispatch_round now1 now2 to s) in
    total ps' = total ps3 \<and> list_all2 pinned ps3 ps' \<and>
    (\<forall>i < length ps3. \<not> active (ps3 ! i) \<longrightarrow>
      (if i \<in> set (map fst bl) \<and> act2 \<noteq> [] then stripped (ps' ! i) else ps' ! i = ps3 ! i))"
proof -
  note ph = round_phases [OF assms(1-4)]
  show ?thesis
  proof (cases "act2 = []")
    case True
    then have "processers (dispatch_round now1 now2 to s) = ps3"
      by (simp add: dispatch_round_def assms(1,2,3) Let_def)
    then show ?thesis using True by (simp add: th.all_pins_refl Let_def)
  next
    case False
    obtain act3 ps4 where sh: "share_blocked (map fst bl) act2 ps3 = (act3, ps4)" by (metis surj_pair)
    have res: "processers (dispatch_round now1 now2 to s) = feed_waiting act3 ps4"
      using False by (simp add: dispatch_round_def assms(1,2,3) sh Let_def)
    have d3: "distinct (concat (map ready ps3))" using mset_eq_imp_distinct_iff [OF ph(2)] assms(5) by blast
    have s: "total ps4 = total ps3" "list_all2 pinned ps3 ps4" "act_ok act3 ps4"
      "\<And>j. j < length ps3 \<Longrightarrow> \<not> active (ps3 ! j) \<Longrightarrow> (if j \<in> set (map fst bl) then stripped (ps4 ! j) else ps4 ! j = ps3 ! j)"
      using share_blocked_spec [OF sh ph(5) [OF False] d3 ph(6) ph(7)] by simp_all
    have d4: "distinct (concat (map ready ps4))" using mset_eq_imp_distinct_iff [OF s(1)] d3 by blast
    have f: "total (feed_waiting act3 ps4) = total ps4" "list_all2 pinned ps4 (feed_waiting act3 ps4)"
      "\<And>j. j < length ps4 \<Longrightarrow> \<not> active (ps4 ! j) \<Longrightarrow> feed_waiting act3 ps4 ! j = ps4 ! j"
      using feed_waiting_spec [OF s(3) d4] by simp_all
    have un: "feed_waiting act3 ps4 ! j = ps4 ! j" if "j < length ps3" "\<not> active (ps3 ! j)" for j
      using f(3) [of j] list_all2_lengthD [OF s(2)] list_all2_pinned_nth [OF s(2) that(1)] that by (simp add: pinned_def)
    have st: "if j \<in> set (map fst bl) \<and> act2 \<noteq> [] then stripped (feed_waiting act3 ps4 ! j) else feed_waiting act3 ps4 ! j = ps3 ! j"
      if "j < length ps3" "\<not> active (ps3 ! j)" for j
      unfolding un [OF that] using s(4) [OF that] False by simp
    show ?thesis unfolding res Let_def using s(1) f(1) th.all_pins_trans [OF s(2) f(2)] st by simp
  qed
qed

text \<open>C6: One round of the dispatcher loses and duplicates no task: the ready tasks of all processors together are the same
  before and after. No processor loses its running or next task, or anything from its wait and garbage queues; a processor
  that is inactive afterwards received nothing; and when some processor is active afterwards, every processor that was found
  blocked keeps nothing but the tasks in use. The number of threads never passes the maximum by the dispatcher's doing.\<close>

theorem dispatch_round_conserves:
  assumes "distinct (concat (map ready (processers s)))" and "now1 \<le> now2"
  shows "let ps = processers s; ps' = processers (dispatch_round now1 now2 to s) in
    mset (concat (map ready ps')) = mset (concat (map ready ps)) \<and>
    length ps \<le> length ps' \<and> int (length ps') \<le> max (int (length ps)) (maxThreadNumber s) \<and>
    (\<forall>i < length ps. kept (ps ! i) (ps' ! i) \<and> (\<not> active (ps' ! i) \<longrightarrow> set (newQ (ps' ! i)) \<subseteq> set (newQ (ps ! i))) \<and>
       (IsBlocking now1 to (ps ! i) \<and> (\<exists>p \<in> set ps'. active p) \<longrightarrow> stripped (ps' ! i)))"
proof -
  obtain bl ps1 c where c: "collect now1 to 0 (processers s) = (bl, ps1, c)" by (metis prod_cases3)
  obtain act la' ps2 where a: "activate now2 to (activeQuota (minThreadNumber s) c) 0 [] (lastActive s) ps1 = (act, la', ps2)"
    by (metis prod_cases3)
  obtain act2 ps3 where g: "grow (maxThreadNumber s) act ps2 = (act2, ps3)" by (metis surj_pair)
  let ?ps = "processers s" and ?ps' = "processers (dispatch_round now1 now2 to s)"
  note ph = round_phases [OF c a g assms(2)]
  have e: "total ?ps' = total ps3" "list_all2 pinned ps3 ?ps'"
    "\<And>i. i < length ps3 \<Longrightarrow> \<not> active (ps3 ! i) \<Longrightarrow>
      (if i \<in> set (map fst bl) \<and> act2 \<noteq> [] then stripped (?ps' ! i) else ?ps' ! i = ps3 ! i)"
    using dispatch_round_ends [OF c a g assms(2,1)] by (simp_all add: Let_def)
  have len: "length ?ps' = length ps3" using list_all2_lengthD [OF e(2)] by simp
  have ex: "act2 \<noteq> []" if "\<exists>p \<in> set ?ps'. active p"
    using that ph(10) filter_active_pinned [OF e(2)] by (auto simp: filter_empty_conv)
  have one: "kept (?ps ! i) (?ps' ! i) \<and> (\<not> active (?ps' ! i) \<longrightarrow> set (newQ (?ps' ! i)) \<subseteq> set (newQ (?ps ! i))) \<and>
       (IsBlocking now1 to (?ps ! i) \<and> (\<exists>p \<in> set ?ps'. active p) \<longrightarrow> stripped (?ps' ! i))" if "i < length ?ps" for i
  proof -
    have i3: "i < length ps3" using that ph(3) by simp
    have sm: "same_tasks (?ps ! i) (ps3 ! i)" using list_all2_nthD [OF ph(1) that] that by simp
    have pin: "pinned (ps3 ! i) (?ps' ! i)" by (rule list_all2_pinned_nth [OF e(2) i3])
    have k: "kept (?ps ! i) (?ps' ! i)" using same_tasks_kept [OF sm] pin by (simp add: pinned_def)
    have b: "stripped (?ps' ! i)" if "IsBlocking now1 to (?ps ! i)" "\<exists>p \<in> set ?ps'. active p"
      using e(3) [OF i3] ph(7) ph(8) [of i] that ex \<open>i < length ?ps\<close> by auto
    have "set (newQ (?ps' ! i)) \<subseteq> set (newQ (?ps ! i))" if na: "\<not> active (?ps' ! i)"
    proof -
      have "\<not> active (ps3 ! i)" using na pin by (simp add: pinned_def)
      then show ?thesis using e(3) [OF i3] sm by (auto simp: stripped_def same_tasks_def split: if_splits)
    qed
    then show ?thesis using k b by blast
  qed
  show ?thesis unfolding Let_def using e(1) ph(2,3,4) len one by auto
qed

text \<open>A scheduler with a blocked processor, which runs task 1 and has two more, and an idle one.\<close>

definition blocked_pair :: scheduler where
  "blocked_pair = new_Scheduler\<lparr>processers := [(new_processor 0)\<lparr>runningTask := Some 1, runnableQ := [1, 2, 3], markSwitch := 5,
     switchCount := 5\<rparr>, new_processor 1], minThreadNumber := 2, maxThreadNumber := 2\<rparr>"

theorem dispatch_round_conserves_witness:
  "distinct (concat (map ready (processers blocked_pair))) \<and> IsBlocking 100 10 (processers blocked_pair ! 0) \<and>
   map ready (processers (dispatch_round 100 100 10 blocked_pair)) = [[1], [2, 3]] \<and>
   mset (concat (map ready (processers (dispatch_round 100 100 10 blocked_pair)))) = mset [1, 2, 3]"
proof -
  have d: "distinct (concat (map ready (processers blocked_pair)))" by code_simp
  have "mset (concat (map ready (processers (dispatch_round 100 100 10 blocked_pair)))) = mset (concat (map ready (processers blocked_pair)))"
    using dispatch_round_conserves [OF d, of 100 100 10] by (simp add: Let_def)
  moreover have "concat (map ready (processers blocked_pair)) = [1, 2, 3]" by code_simp
  moreover have "map ready (processers (dispatch_round 100 100 10 blocked_pair)) = [[1], [2, 3]]" by code_simp
  moreover have "IsBlocking 100 10 (processers blocked_pair ! 0)" by code_simp
  ultimately show ?thesis using d by simp
qed

text \<open>A round never leaves fewer processors active than the configured minimum, as far as there are processors that do not
  block; it deactivates every processor found blocked; and it starts a new one exactly when none is active and
  the maximum allows it.\<close>

lemma dispatch_round_activity:
  assumes "distinct (concat (map ready (processers s)))" and "now1 \<le> now2"
  shows "let ps = processers s; ps' = processers (dispatch_round now1 now2 to s) in
    min (nat (minThreadNumber s)) (length (filter (\<lambda>p. \<not> IsBlocking now2 to p) ps)) \<le> length (filter active ps') \<and>
    (\<forall>i < length ps. IsBlocking now1 to (ps ! i) \<longrightarrow> \<not> active (ps' ! i)) \<and>
    (length ps' = (if filter active (take (length ps) ps') = [] \<and> int (length ps) < maxThreadNumber s
                   then Suc (length ps) else length ps))"
proof -
  obtain bl ps1 c where c: "collect now1 to 0 (processers s) = (bl, ps1, c)" by (metis prod_cases3)
  obtain act la' ps2 where a: "activate now2 to (activeQuota (minThreadNumber s) c) 0 [] (lastActive s) ps1 = (act, la', ps2)"
    by (metis prod_cases3)
  obtain act2 ps3 where g: "grow (maxThreadNumber s) act ps2 = (act2, ps3)" by (metis surj_pair)
  let ?ps = "processers s" and ?ps' = "processers (dispatch_round now1 now2 to s)"
  note ph = round_phases [OF c a g assms(2)]
  have e: "list_all2 pinned ps3 ?ps'" using dispatch_round_ends [OF c a g assms(2,1)] by (simp add: Let_def)
  have len: "length ?ps' = length ps3" using list_all2_lengthD [OF e] by simp
  have na: "\<not> active (?ps' ! i)" if "i < length ?ps" "IsBlocking now1 to (?ps ! i)" for i
  proof -
    have "i \<in> set (map fst bl)" unfolding ph(8) using that by blast
    then have "i < length ps3" "\<not> active (ps3 ! i)" using ph(7) by blast+
    then show ?thesis using list_all2_pinned_nth [OF e] by (simp add: pinned_def)
  qed
  have ft: "filter active (take (length ?ps) ?ps') = [] \<longleftrightarrow> filter active (take (length ?ps) ps3) = []"
    unfolding length_0_conv [symmetric] filter_active_pinned [OF list_all2_takeI [OF e]] ..
  have gr: "length ?ps' = (if filter active (take (length ?ps) ps3) = [] \<and> int (length ?ps) < maxThreadNumber s
                   then Suc (length ?ps) else length ?ps)"
    unfolding len by (rule round_grows [OF c a g])
  have mn: "min (nat (minThreadNumber s)) (length (filter (\<lambda>p. \<not> IsBlocking now2 to p) ?ps)) \<le> length (filter active ?ps')"
    unfolding filter_active_pinned [OF e] by (rule ph(9))
  show ?thesis unfolding Let_def ft by (intro conjI allI impI mn gr na)
qed

subsection \<open>Where a new task goes\<close>

lemma find_active_spec:
  assumes "0 < length ps"
  shows "(\<exists>d < k. active (ps ! ((idx + d) mod length ps)) \<and> (\<forall>e < d. \<not> active (ps ! ((idx + e) mod length ps))) \<and>
            find_active ps k idx prc = (idx + d) mod length ps) \<or>
         ((\<forall>d < k. \<not> active (ps ! ((idx + d) mod length ps))) \<and>
            find_active ps k idx prc = (if k = 0 then prc else (idx + (k - 1)) mod length ps))"
proof (induction k arbitrary: idx prc)
  case 0
  then show ?case by simp
next
  case (Suc k)
  let ?n = "length ps"
  show ?case
  proof (cases "active (ps ! (idx mod ?n))")
    case True
    then show ?thesis by (intro disjI1 exI [of _ 0]) (simp add: Let_def)
  next
    case False
    have sh: "(Suc (idx mod ?n) + d) mod ?n = (idx + Suc d) mod ?n" for d
      using mod_add_left_eq [of idx ?n "Suc d"] by simp
    have r: "find_active ps (Suc k) idx prc = find_active ps k (Suc (idx mod ?n)) (idx mod ?n)" using False by (simp add: Let_def)
    from Suc.IH [of "Suc (idx mod ?n)" "idx mod ?n", unfolded sh] show ?thesis
    proof
      assume "\<exists>d < k. active (ps ! ((idx + Suc d) mod ?n)) \<and> (\<forall>e < d. \<not> active (ps ! ((idx + Suc e) mod ?n))) \<and>
        find_active ps k (Suc (idx mod ?n)) (idx mod ?n) = (idx + Suc d) mod ?n"
      then obtain d where d: "d < k" "active (ps ! ((idx + Suc d) mod ?n))" "\<forall>e < d. \<not> active (ps ! ((idx + Suc e) mod ?n))"
        "find_active ps k (Suc (idx mod ?n)) (idx mod ?n) = (idx + Suc d) mod ?n" by blast
      have "\<forall>e < Suc d. \<not> active (ps ! ((idx + e) mod ?n))" using d(3) False by (auto simp: less_Suc_eq_0_disj)
      then show ?thesis using d(1,2,4) by (intro disjI1 exI [of _ "Suc d"] conjI) (simp_all add: r del: find_active.simps)
    next
      assume a: "(\<forall>d < k. \<not> active (ps ! ((idx + Suc d) mod ?n))) \<and> find_active ps k (Suc (idx mod ?n)) (idx mod ?n) =
        (if k = 0 then idx mod ?n else (idx + Suc (k - 1)) mod ?n)"
      have "\<forall>d < Suc k. \<not> active (ps ! ((idx + d) mod ?n))" using a False by (auto simp: less_Suc_eq_0_disj)
      moreover have "find_active ps k (Suc (idx mod ?n)) (idx mod ?n) = (idx + (Suc k - 1)) mod ?n" using a by (cases k) simp_all
      ultimately show ?thesis by (simp add: r del: find_active.simps)
    qed
  qed
qed

text \<open>A task created outside of a coroutine goes to the first active processor, counted cyclically from the
  one activated last, and to the processor just before that one when none is active; a scheduler started with a single thread has no
  processor, and there the call goes through a null pointer.\<close>

lemma AddTask_first_active:
  "(processers s \<noteq> [] \<longrightarrow> (let ps = processers s; n = length ps; a = unat (lastActive s); s' = Scheduler_AddTask Outside tk s in
      if \<exists>p \<in> set ps. active p
      then \<exists>d < n. active (ps ! ((a + d) mod n)) \<and> (\<forall>e < d. \<not> active (ps ! ((a + e) mod n))) \<and>
             map_option (\<lambda>x. inbox x) s' = Some ((inbox s)((a + d) mod n := inbox s ((a + d) mod n) @ [tk]))
      else map_option (\<lambda>x. inbox x) s' = Some ((inbox s)((a + (n - 1)) mod n := inbox s ((a + (n - 1)) mod n) @ [tk])))) \<and>
   (\<exists>s1. Start hc 1 mx new_Scheduler = Inr s1 \<and> processers s1 = [] \<and> CreateTask Outside tk s1 = None)"
proof -
  have "let ps = processers s; n = length ps; a = unat (lastActive s); s' = Scheduler_AddTask Outside tk s in
      if \<exists>p \<in> set ps. active p
      then \<exists>d < n. active (ps ! ((a + d) mod n)) \<and> (\<forall>e < d. \<not> active (ps ! ((a + e) mod n))) \<and>
             map_option (\<lambda>x. inbox x) s' = Some ((inbox s)((a + d) mod n := inbox s ((a + d) mod n) @ [tk]))
      else map_option (\<lambda>x. inbox x) s' = Some ((inbox s)((a + (n - 1)) mod n := inbox s ((a + (n - 1)) mod n) @ [tk]))"
    if ne: "processers s \<noteq> []"
  proof -
    let ?ps = "processers s" and ?n = "length (processers s)" and ?a = "unat (lastActive s)"
    let ?i = "find_active ?ps ?n ?a 0"
    have r: "map_option (\<lambda>x. inbox x) (Scheduler_AddTask Outside tk s) = Some ((inbox s)(?i := inbox s ?i @ [tk]))"
      using ne by (simp add: Scheduler_AddTask_def Scheduler_target_def)
    have n: "0 < ?n" using ne by simp
    have cyc: "(\<exists>p \<in> set ?ps. active p) \<longleftrightarrow> (\<exists>d < ?n. active (?ps ! ((?a + d) mod ?n)))"
    proof
      assume "\<exists>p \<in> set ?ps. active p"
      then obtain j where j: "j < ?n" "active (?ps ! j)" by (auto simp: in_set_conv_nth)
      have "(?a + (j + ?n - ?a mod ?n) mod ?n) mod ?n = (?a + (j + ?n - ?a mod ?n)) mod ?n" by (simp add: mod_simps)
      also have "\<dots> = (?a mod ?n + (j + ?n - ?a mod ?n)) mod ?n" by (simp add: mod_simps)
      also have "?a mod ?n + (j + ?n - ?a mod ?n) = j + ?n" using mod_less_divisor [OF n, of ?a] by linarith
      finally have "(?a + (j + ?n - ?a mod ?n) mod ?n) mod ?n = j" using j(1) by simp
      then show "\<exists>d < ?n. active (?ps ! ((?a + d) mod ?n))" using j(2) mod_less_divisor [OF n] by metis
    next
      assume "\<exists>d < ?n. active (?ps ! ((?a + d) mod ?n))"
      then show "\<exists>p \<in> set ?ps. active p" using n by (meson mod_less_divisor nth_mem)
    qed
    show ?thesis using find_active_spec [OF n, of ?n ?a 0] r n unfolding Let_def cyc by auto
  qed
  moreover have "\<exists>s1. Start hc 1 mx new_Scheduler = Inr s1 \<and> processers s1 = [] \<and> CreateTask Outside tk s1 = None"
    by (simp add: Start_def new_Scheduler_def CreateTask_def Scheduler_AddTask_def Scheduler_target_def Let_def)
  ultimately show ?thesis by blast
qed

end
