(* ===== verification/Co_Timer.thy ===== *)
theory Co_Timer
  imports Co_Prelude
begin

text \<open>
  The timing wheel of \<open>src/common/inc/Timer.h\<close>: eight wheels of 256 slots over a 64-bit tick counter, the pool of elements
  with their reference counts, starting and stopping a timer, and the sweep \<open>RunOnce\<close> that triggers what is due. Times are
  nanoseconds of the clock; the queues are the lists the intrusive queues are proved to implement. A call of
  the callback is an entry \<open>(element, time)\<close> of a log; a callback does not use this timer itself. The counter is a natural number: with the
  smallest precision of 100 microseconds a 63-bit clock has fewer than \<open>2 ^ 47\<close> ticks.
\<close>

subsection \<open>State\<close>

record element =
  etp :: int                            \<comment> \<open>\<open>tp_\<close>\<close>
  elocked :: bool                       \<comment> \<open>\<open>active_\<close> is taken\<close>
  eslot :: "(nat \<times> nat) option"
  erefs :: nat

record timer =
  maxPoolSize :: int
  tpool :: "nat list"
  tbegin :: int
  precision :: int
  slots :: "nat \<Rightarrow> nat \<Rightarrow> nat list"
  point :: nat
  completeSlot :: "nat list"
  elems :: "nat \<Rightarrow> element"
  called :: "(nat \<times> int) list"         \<comment> \<open>the calls of callbacks\<close>
  over :: bool                          \<comment> \<open>a reference was released that nobody held\<close>

definition Timer_new :: "int \<Rightarrow> timer" where
  "Timer_new now = \<lparr>maxPoolSize = 0, tpool = [], tbegin = now, precision = 100000, slots = (\<lambda>_ _. []), point = 0,
     completeSlot = [], elems = (\<lambda>_. \<lparr>etp = 0, elocked = False, eslot = None, erefs = 0\<rparr>), called = [], over = False\<rparr>"

definition SetPrecision :: "int \<Rightarrow> timer \<Rightarrow> timer" where
  "SetPrecision p t =
     (let p1 = (if p < 100000 then 100000 else p); p2 = (if p1 > 60000000000 then 60000000000 else p1)
      in t\<lparr>precision := p2\<rparr>)"

definition upd_elem :: "nat \<Rightarrow> (element \<Rightarrow> element) \<Rightarrow> timer \<Rightarrow> timer" where
  "upd_elem a f t = t\<lparr>elems := (elems t)(a := f (elems t a))\<rparr>"

subsection \<open>Elements and their pool\<close>

definition retain :: "nat \<Rightarrow> timer \<Rightarrow> timer" where
  "retain a = upd_elem a (\<lambda>e. e\<lparr>erefs := erefs e + 1\<rparr>)"

definition DeleteElement :: "nat \<Rightarrow> timer \<Rightarrow> timer" where
  "DeleteElement a t =
     (if int (length (tpool t)) < maxPoolSize t then let u = retain a t in retain a (u\<lparr>tpool := tpool u @ [a]\<rparr>) else t)"

definition release :: "nat \<Rightarrow> timer \<Rightarrow> timer" where
  "release a t =
     (let r = erefs (elems t a) in
      if r = 0 then t\<lparr>over := True\<rparr>
      else let u = upd_elem a (\<lambda>e. e\<lparr>erefs := r - 1\<rparr>) t in if r = 1 then DeleteElement a u else u)"

text \<open>\<open>news\<close>: the addresses the allocator returns.\<close>

definition SetPoolSize :: "int \<Rightarrow> int \<Rightarrow> nat list \<Rightarrow> timer \<Rightarrow> timer" where
  "SetPoolSize mx rsv news t =
     (let u = t\<lparr>maxPoolSize := mx\<rparr> in
      if int (length (tpool u)) < rsv
      then let ns = take (nat rsv - length (tpool u)) news
           in foldl (\<lambda>v a. let w = upd_elem a (\<lambda>e. e\<lparr>erefs := 2\<rparr>) v in w\<lparr>tpool := tpool w @ [a]\<rparr>) u ns
      else u)"

definition NewElement :: "nat \<Rightarrow> timer \<Rightarrow> nat \<times> timer" where
  "NewElement new t =
     (case tpool t of [] \<Rightarrow> (new, upd_elem new (\<lambda>e. e\<lparr>erefs := 1\<rparr>) t)
      | a # r \<Rightarrow> (a, release a (t\<lparr>tpool := r\<rparr>)))"

definition elem_init :: "int \<Rightarrow> element \<Rightarrow> element" where
  "elem_init tp e = e\<lparr>etp := tp, elocked := False, eslot := None\<rparr>"

definition elem_call :: "int \<Rightarrow> nat \<Rightarrow> timer \<Rightarrow> timer" where
  "elem_call now a t =
     (if elocked (elems t a) then t
      else (upd_elem a (\<lambda>e. e\<lparr>eslot := None\<rparr>) t)\<lparr>called := called t @ [(a, now)]\<rparr>)"

definition set_slot :: "nat \<Rightarrow> nat \<Rightarrow> nat list \<Rightarrow> timer \<Rightarrow> timer" where
  "set_slot k i xs t = t\<lparr>slots := (slots t)(k := (slots t k)(i := xs))\<rparr>"

definition elem_cancel :: "nat \<Rightarrow> timer \<Rightarrow> bool \<times> timer" where
  "elem_cancel a t =
     (if elocked (elems t a) then (False, t)
      else let t1 = upd_elem a (\<lambda>e. e\<lparr>elocked := True\<rparr>) t;
               t2 = (case eslot (elems t1 a) of None \<Rightarrow> t1 | Some (k, i) \<Rightarrow> release a (set_slot k i (remove1 a (slots t1 k i)) t1))
           in (True, release a t2))"

definition StopTimer :: "nat \<Rightarrow> timer \<Rightarrow> bool \<times> timer" where
  "StopTimer a t = (let (r, u) = elem_cancel a t in (r, release a u))"

subsection \<open>The wheels\<close>

definition byte :: "nat \<Rightarrow> nat \<Rightarrow> nat" where
  "byte i x = x div 256 ^ i mod 256"

text \<open>The level and slot for a distance \<open>d\<close> seen from \<open>lst\<close>: the loop runs from the highest byte down.\<close>

fun find_level :: "nat \<Rightarrow> nat \<Rightarrow> nat \<Rightarrow> nat \<times> nat" where
  "find_level 0 d lst = (0, byte 0 lst)"
| "find_level (Suc i) d lst = (if 0 < byte i d then (i, (byte i d + byte i lst) mod 256) else find_level i d lst)"

definition lastTime :: "timer \<Rightarrow> int" where
  "lastTime t = tbegin t + int (point t) * precision t"

definition Dispatch :: "bool \<Rightarrow> nat \<Rightarrow> timer \<Rightarrow> timer" where
  "Dispatch mainloop a t =
     (if \<not> mainloop \<and> etp (elems t a) \<le> lastTime t then retain a (t\<lparr>completeSlot := completeSlot t @ [a]\<rparr>)
      else let durVal = nat ((etp (elems t a) - lastTime t) div precision t);
               (k, i) = find_level 8 durVal (point t)
           in upd_elem a (\<lambda>e. e\<lparr>eslot := Some (k, i)\<rparr>) (retain a (set_slot k i (slots t k i @ [a]) t)))"

definition StartTimer :: "nat \<Rightarrow> int \<Rightarrow> timer \<Rightarrow> nat \<times> timer" where
  "StartTimer new tp t =
     (let (a, t1) = NewElement new t;
          t2 = upd_elem a (elem_init tp) t1;
          t3 = retain a t2
      in (a, Dispatch False a t3))"

text \<open>Taking an element out of a list, calling it, dropping it.\<close>

definition fire :: "int \<Rightarrow> nat \<Rightarrow> timer \<Rightarrow> timer" where
  "fire now a t = release a (elem_call now a (release a t))"

fun trigger_list :: "int \<Rightarrow> nat list \<Rightarrow> timer \<Rightarrow> timer" where
  "trigger_list now [] t = t"
| "trigger_list now (a # xs) t = trigger_list now xs (fire now a t)"

definition Trigger :: "int \<Rightarrow> nat \<Rightarrow> nat \<Rightarrow> timer \<Rightarrow> timer" where
  "Trigger now k i t = trigger_list now (slots t k i) (set_slot k i [] t)"

definition Trigger_complete :: "int \<Rightarrow> timer \<Rightarrow> timer" where
  "Trigger_complete now t = trigger_list now (completeSlot t) (t\<lparr>completeSlot := []\<rparr>)"

fun Dispatch_list :: "int \<Rightarrow> nat list \<Rightarrow> timer \<Rightarrow> timer" where
  "Dispatch_list now [] t = t"
| "Dispatch_list now (a # xs) t =
     (if etp (elems t a) \<le> now then Dispatch_list now xs (fire now a t)
      else Dispatch_list now xs (Dispatch True a (release a t)))"

subsection \<open>The sweep\<close>

definition additions :: "nat \<Rightarrow> nat" where
  "additions n = [1, 2 ^ 8, 2 ^ 16, 2 ^ 32, 2 ^ 40, 2 ^ 48, 2 ^ 56, 2 ^ 64 - 1] ! n"

text \<open>Going up the levels while the slot is the first one; a read past the eighth byte is \<open>None\<close>.\<close>

function cascade :: "nat \<Rightarrow> nat \<Rightarrow> nat \<Rightarrow> (nat \<Rightarrow> nat) \<Rightarrow> nat list \<Rightarrow> timer \<Rightarrow> ((nat \<Rightarrow> nat) \<times> nat list \<times> timer) option" where
  "cascade pos lv si cnt ds t =
     (if 0 < pos \<and> si = 0
      then if 7 \<le> lv then None
           else let l = Suc lv; s = byte l pos
                in cascade pos l s (cnt(l := cnt l + 1)) (ds @ slots t l s) (set_slot l s [] t)
      else Some (cnt, ds, t))"
  by pat_completeness auto
termination by (relation "measure (\<lambda>(pos, lv, si, cnt, ds, t). 7 - lv)") auto

declare cascade.simps [simp del]

definition next_add :: "nat \<Rightarrow> nat \<Rightarrow> nat" where
  "next_add lev pos =
     (if 0 < lev then let up = (256 - byte (lev - 1) pos) * additions (lev - 1) in if 0 < up then min up (additions lev) else additions lev
      else additions lev)"

lemma additions_pos: "n < 8 \<Longrightarrow> 0 < additions n"
proof -
  have "\<forall>x \<in> set [1, 2 ^ 8, 2 ^ 16, 2 ^ 32, 2 ^ 40, 2 ^ 48, 2 ^ 56, 2 ^ 64 - 1]. 0 < (x :: nat)" by simp
  then show "n < 8 \<Longrightarrow> 0 < additions n" unfolding additions_def by (rule bspec) (rule nth_mem, simp)
qed

lemma next_add_pos: "lev < 7 \<Longrightarrow> 0 < next_add lev pos"
  using additions_pos [of lev] additions_pos [of "lev - 1"] by (auto simp: next_add_def Let_def)

text \<open>The loop over the ticks since the last sweep. Level 7, where the step would wrap, is out of reach of a 63-bit clock.\<close>

function sweep :: "int \<Rightarrow> nat \<Rightarrow> nat \<Rightarrow> nat \<Rightarrow> nat \<Rightarrow> (nat \<Rightarrow> nat) \<Rightarrow> nat list \<Rightarrow> timer \<Rightarrow> (nat list \<times> timer) option" where
  "sweep now lst delta i lev cnt ds t =
     (if i < delta
      then let pos = lst + i; si = byte lev pos;
               t1 = Trigger now lev si t;
               cnt1 = cnt(lev := cnt lev + 1);
               lev1 = (if cnt1 lev = 256 then lev + 1 else lev)
           in case cascade pos lev si cnt1 ds t1 of None \<Rightarrow> None
              | Some (cnt2, ds2, t2) \<Rightarrow> if 7 \<le> lev1 then None
                                       else sweep now lst delta (i + next_add lev1 pos) lev1 cnt2 ds2 t2
      else Some (ds, t))"
  by pat_completeness auto
termination
proof (relation "measure (\<lambda>(now, lst, delta, i, lev, cnt, ds, t). delta - i)", goal_cases)
  case 1
  then show ?case by simp
next
  case (2 now lst delta i lev cnt ds t pos si t1 cnt1 lev1)
  then show ?case using next_add_pos [of lev1 pos] by auto
qed

declare sweep.simps [simp del]

definition ticks :: "int \<Rightarrow> timer \<Rightarrow> nat" where
  "ticks now t = nat ((now - tbegin t) div precision t)"

definition RunOnce :: "int \<Rightarrow> timer \<Rightarrow> timer option" where
  "RunOnce now t =
     (let t1 = Trigger_complete now t; dest = ticks now t1 in
      if dest \<le> point t1 then Some t1
      else case sweep now (point t1) (dest - point t1) 0 0 (\<lambda>_. 0) [] (t1\<lparr>point := dest\<rparr>) of None \<Rightarrow> None
           | Some (ds, t2) \<Rightarrow> Some (Dispatch_list now ds t2))"

subsection \<open>The invariant\<close>

text \<open>
  \<open>ids\<close> counts the \<open>TimerId\<close>s of an element, \<open>X\<close> holds elements taken out of a slot and not yet dealt with.
  An element in a slot, in \<open>X\<close> or in the complete slot has a reference of the timer, one of its list and those
  of its ids; an element in the pool has two; any other only those of its ids.
\<close>

definition in_slots :: "timer \<Rightarrow> nat set" where
  "in_slots t = {a. \<exists>k i. a \<in> set (slots t k i)}"

definition pending :: "nat list \<Rightarrow> timer \<Rightarrow> nat set" where
  "pending X t = in_slots t \<union> set X \<union> set (completeSlot t)"

definition etick :: "timer \<Rightarrow> nat \<Rightarrow> nat" where
  "etick t a = ticks (etp (elems t a)) t"

definition refs_ok :: "(nat \<Rightarrow> nat) \<Rightarrow> nat list \<Rightarrow> timer \<Rightarrow> bool" where
  "refs_ok ids X t \<longleftrightarrow> distinct (tpool t) \<and> \<not> over t \<and>
     (\<forall>a. if a \<in> pending X t then erefs (elems t a) = 2 + ids a \<and> a \<notin> set (tpool t)
          else if a \<in> set (tpool t) then erefs (elems t a) = 2 \<and> ids a = 0 else erefs (elems t a) = ids a)"

definition places_ok :: "nat list \<Rightarrow> timer \<Rightarrow> bool" where
  "places_ok X t \<longleftrightarrow> 0 < precision t \<and> distinct (X @ completeSlot t) \<and> (set X \<union> set (completeSlot t)) \<inter> in_slots t = {} \<and>
     (\<forall>k i. distinct (slots t k i) \<and> (\<forall>a \<in> set (slots t k i). eslot (elems t a) = Some (k, i))) \<and>
     (\<forall>a \<in> pending X t. \<not> elocked (elems t a)) \<and> (\<forall>a \<in> set (completeSlot t). eslot (elems t a) = None)"

definition times_ok :: "nat list \<Rightarrow> timer \<Rightarrow> bool" where
  "times_ok X t \<longleftrightarrow> (\<forall>a \<in> in_slots t \<union> set X. etick t a < 256 ^ 8 \<and> tbegin t \<le> etp (elems t a))"

text \<open>An element in slot \<open>i\<close> of level \<open>k\<close> is found when the sweep is at tick \<open>S * 256 ^ k\<close>, which is not before \<open>q\<close>,
  the next tick to sweep, and not after the element's own tick.\<close>

definition placed :: "nat \<Rightarrow> timer \<Rightarrow> nat \<Rightarrow> nat \<Rightarrow> nat \<Rightarrow> bool" where
  "placed q t k i a \<longleftrightarrow> k < 8 \<and> (\<exists>S. i = S mod 256 \<and> q \<le> S * 256 ^ k \<and> S * 256 ^ k \<le> etick t a \<and> S \<le> q div 256 ^ k + 255 \<and>
     (if k = 0 then S = etick t a else 0 < S))"

definition wheel_ok :: "nat \<Rightarrow> timer \<Rightarrow> bool" where
  "wheel_ok q t \<longleftrightarrow> (\<forall>k i. \<forall>a \<in> set (slots t k i). placed q t k i a)"

text \<open>What no reference count changes: the wheel, the clock and the times of the elements.\<close>

definition same_wheel :: "timer \<Rightarrow> timer \<Rightarrow> bool" where
  "same_wheel t u \<longleftrightarrow> slots u = slots t \<and> completeSlot u = completeSlot t \<and> point u = point t \<and> tbegin u = tbegin t \<and>
     precision u = precision t \<and> (\<forall>b. etp (elems u b) = etp (elems t b))"

lemma same_wheel_refl [simp]: "same_wheel t t"
  by (simp add: same_wheel_def)

lemma same_wheel_trans: "same_wheel t u \<Longrightarrow> same_wheel u v \<Longrightarrow> same_wheel t v"
  by (simp add: same_wheel_def)

lemma same_wheel_etick: "same_wheel t u \<Longrightarrow> etick u a = etick t a"
  by (simp add: same_wheel_def etick_def ticks_def)

lemma same_wheel_ok: "same_wheel t u \<Longrightarrow> wheel_ok q u = wheel_ok q t"
  by (simp add: wheel_ok_def placed_def same_wheel_etick) (simp add: same_wheel_def)

lemma same_wheel_pending: "same_wheel t u \<Longrightarrow> pending X u = pending X t" "same_wheel t u \<Longrightarrow> in_slots u = in_slots t"
  by (simp_all add: same_wheel_def pending_def in_slots_def)

text \<open>Taking an element off a list and calling it.\<close>

lemma fire_eq:
  assumes "erefs (elems t a) = 2 + n" and "\<not> elocked (elems t a)"
  shows "fire now a t = (let u = t\<lparr>called := called t @ [(a, now)], elems := (elems t)(a := elems t a\<lparr>eslot := None, erefs := n\<rparr>)\<rparr>
                         in if n = 0 then DeleteElement a u else u)"
  using assms by (simp add: fire_def release_def elem_call_def upd_elem_def Let_def)

lemma fire_frame:
  assumes "erefs (elems t a) = 2 + n" and "\<not> elocked (elems t a)"
  shows "same_wheel t (fire now a t)" and "called (fire now a t) = called t @ [(a, now)]" and "over (fire now a t) = over t"
    and "b \<noteq> a \<Longrightarrow> elems (fire now a t) b = elems t b"
    and "tpool (fire now a t) = (if n = 0 \<and> int (length (tpool t)) < maxPoolSize t then tpool t @ [a] else tpool t)"
    and "erefs (elems (fire now a t) a) = (if n = 0 \<and> int (length (tpool t)) < maxPoolSize t then 2 else n)"
  by (simp_all add: fire_eq [OF assms] Let_def DeleteElement_def retain_def upd_elem_def same_wheel_def)

lemma refs_pending: "refs_ok ids X t \<Longrightarrow> a \<in> pending X t \<Longrightarrow> erefs (elems t a) = 2 + ids a \<and> a \<notin> set (tpool t)"
  by (simp add: refs_ok_def)

lemma fire_ok:
  assumes "refs_ok ids (a # X) t" and "places_ok (a # X) t"
  shows "refs_ok ids X (fire now a t)" and "places_ok X (fire now a t)" and "same_wheel t (fire now a t)"
    and "called (fire now a t) = called t @ [(a, now)]"
proof -
  have a: "a \<in> pending (a # X) t" by (simp add: pending_def)
  have r: "erefs (elems t a) = 2 + ids a" "a \<notin> set (tpool t)" using refs_pending [OF assms(1) a] by simp_all
  have l: "\<not> elocked (elems t a)" using assms(2) a by (simp add: places_ok_def)
  note f = fire_frame [OF r(1) l, where now = now]
  show sw: "same_wheel t (fire now a t)" and "called (fire now a t) = called t @ [(a, now)]" by (rule f(1), rule f(2))
  have na: "a \<notin> pending X t" using assms(2) by (auto simp: places_ok_def pending_def)
  have pa: "pending (a # X) t = insert a (pending X t)" by (auto simp: pending_def)
  have pf: "pending X (fire now a t) = pending X t" by (rule same_wheel_pending [OF sw])
  have "if b \<in> pending X t then erefs (elems (fire now a t) b) = 2 + ids b \<and> b \<notin> set (tpool (fire now a t))
        else if b \<in> set (tpool (fire now a t)) then erefs (elems (fire now a t) b) = 2 \<and> ids b = 0
        else erefs (elems (fire now a t) b) = ids b" for b
  proof (cases "b = a")
    case True
    then show ?thesis using na r(2) f(5,6) by auto
  next
    case False
    then have "if b \<in> pending X t then erefs (elems t b) = 2 + ids b \<and> b \<notin> set (tpool t)
        else if b \<in> set (tpool t) then erefs (elems t b) = 2 \<and> ids b = 0 else erefs (elems t b) = ids b"
      using assms(1) pa unfolding refs_ok_def by (metis insert_iff)
    moreover have "b \<in> set (tpool (fire now a t)) \<longleftrightarrow> b \<in> set (tpool t)" using f(5) False by simp
    ultimately show ?thesis using f(4) [OF False] by simp
  qed
  moreover have "distinct (tpool (fire now a t))" "\<not> over (fire now a t)" using assms(1) r(2) f(3,5) by (simp_all add: refs_ok_def)
  ultimately show "refs_ok ids X (fire now a t)" unfolding refs_ok_def pf by blast
  have el: "elocked (elems (fire now a t) b) = elocked (elems t b)" "eslot (elems (fire now a t) b) = eslot (elems t b)"
    if "b \<in> pending X t" for b using f(4) [of b] that na by metis+
  have sl: "slots (fire now a t) = slots t" "completeSlot (fire now a t) = completeSlot t" "precision (fire now a t) = precision t"
    "tbegin (fire now a t) = tbegin t" "\<And>b. etp (elems (fire now a t) b) = etp (elems t b)"
    using sw by (simp_all add: same_wheel_def)
  have pin: "b \<in> set (slots t k i) \<Longrightarrow> b \<in> pending X t" "b \<in> set (completeSlot t) \<Longrightarrow> b \<in> pending X t" for b k i
    by (auto simp: pending_def in_slots_def)
  have "\<forall>k i. \<forall>b \<in> set (slots t k i). eslot (elems (fire now a t) b) = Some (k, i)"
    using assms(2) el(2) [OF pin(1)] by (simp add: places_ok_def)
  moreover have "\<forall>b \<in> set (completeSlot t). eslot (elems (fire now a t) b) = None"
    using assms(2) el(2) [OF pin(2)] by (simp add: places_ok_def)
  ultimately show "places_ok X (fire now a t)"
    using assms(2) el(1) unfolding places_ok_def pf pa same_wheel_pending(2) [OF sw] sl same_wheel_etick [OF sw] by simp
qed

lemma trigger_list_ok:
  "refs_ok ids (xs @ X) t \<Longrightarrow> places_ok (xs @ X) t \<Longrightarrow>
   refs_ok ids X (trigger_list now xs t) \<and> places_ok X (trigger_list now xs t) \<and> same_wheel t (trigger_list now xs t) \<and>
   called (trigger_list now xs t) = called t @ map (\<lambda>a. (a, now)) xs"
proof (induction xs arbitrary: t)
  case (Cons a xs)
  note f = fire_ok [of ids a "xs @ X" t now]
  have "refs_ok ids (xs @ X) (fire now a t)" "places_ok (xs @ X) (fire now a t)" "same_wheel t (fire now a t)"
    "called (fire now a t) = called t @ [(a, now)]" using f Cons.prems by simp_all
  then show ?case using Cons.IH [of "fire now a t"] same_wheel_trans by auto
qed simp

text \<open>Taking a whole slot.\<close>

lemma set_slot_simps [simp]:
  "slots (set_slot k i xs t) k' i' = (if k' = k \<and> i' = i then xs else slots t k' i')"
  "completeSlot (set_slot k i xs t) = completeSlot t" "elems (set_slot k i xs t) = elems t" "point (set_slot k i xs t) = point t"
  "tbegin (set_slot k i xs t) = tbegin t" "precision (set_slot k i xs t) = precision t" "tpool (set_slot k i xs t) = tpool t"
  "over (set_slot k i xs t) = over t" "called (set_slot k i xs t) = called t" "etick (set_slot k i xs t) = etick t"
  by (auto simp: set_slot_def etick_def ticks_def)

lemma pop_pending: "pending (slots t k i @ X) (set_slot k i [] t) = pending X t"
  by (auto simp: pending_def in_slots_def split: if_splits)

lemma pop_slot_ok:
  assumes "refs_ok ids X t" and "places_ok X t"
  shows "refs_ok ids (slots t k i @ X) (set_slot k i [] t)" and "places_ok (slots t k i @ X) (set_slot k i [] t)"
proof -
  show "refs_ok ids (slots t k i @ X) (set_slot k i [] t)" using assms(1) unfolding refs_ok_def pop_pending by simp
  have p: "0 < precision t" "distinct (X @ completeSlot t)" "(set X \<union> set (completeSlot t)) \<inter> in_slots t = {}"
    "\<And>k i. distinct (slots t k i)" "\<And>k i a. a \<in> set (slots t k i) \<Longrightarrow> eslot (elems t a) = Some (k, i)"
    "\<forall>a \<in> pending X t. \<not> elocked (elems t a)" "\<forall>a \<in> set (completeSlot t). eslot (elems t a) = None"
    using assms(2) by (simp_all add: places_ok_def)
  have sub: "set (slots t k i) \<subseteq> in_slots t" by (auto simp: in_slots_def)
  have ins: "in_slots (set_slot k i [] t) \<subseteq> in_slots t" by (auto simp: in_slots_def split: if_splits)
  have dj: "set (slots t k i) \<inter> in_slots (set_slot k i [] t) = {}"
  proof -
    have False if "a \<in> set (slots t k i)" "a \<in> set (slots t k' i')" "\<not> (k' = k \<and> i' = i)" for a k' i'
      using p(5) [OF that(1)] p(5) [OF that(2)] that(3) by simp
    then show ?thesis by (auto simp: in_slots_def split: if_splits)
  qed
  have "distinct ((slots t k i @ X) @ completeSlot t)" using p(2,3,4) sub by auto
  moreover have "(set (slots t k i @ X) \<union> set (completeSlot t)) \<inter> in_slots (set_slot k i [] t) = {}" using p(3) ins dj by auto
  ultimately show "places_ok (slots t k i @ X) (set_slot k i [] t)"
    using p(1,4,5,6,7) unfolding places_ok_def pop_pending by simp
qed

lemma complete_pending: "pending (completeSlot t) (t\<lparr>completeSlot := []\<rparr>) = pending [] t" "in_slots (t\<lparr>completeSlot := []\<rparr>) = in_slots t"
  by (simp_all add: pending_def in_slots_def)

lemma pop_complete_ok:
  assumes "refs_ok ids [] t" and "places_ok [] t"
  shows "refs_ok ids (completeSlot t) (t\<lparr>completeSlot := []\<rparr>)" and "places_ok (completeSlot t) (t\<lparr>completeSlot := []\<rparr>)"
  using assms unfolding refs_ok_def places_ok_def complete_pending by simp_all

subsection \<open>Putting an element into the wheel\<close>

lemma find_level_spec:
  "d < 256 ^ n \<Longrightarrow> find_level n d lst = (k, i) \<Longrightarrow>
   (d = 0 \<and> k = 0 \<and> i = lst mod 256) \<or> (k < n \<and> 256 ^ k \<le> d \<and> d < 256 ^ Suc k \<and> i = (d div 256 ^ k + lst div 256 ^ k) mod 256)"
proof (induction n)
  case 0
  then show ?case by (simp add: byte_def)
next
  case (Suc n)
  have lt: "d div 256 ^ n < 256" using Suc.prems(1) by (simp add: less_mult_imp_div_less)
  show ?case
  proof (cases "0 < byte n d")
    case True
    then have "0 < d div 256 ^ n" by (simp add: byte_def)
    then have "256 ^ n \<le> d" by (simp add: div_greater_zero_iff)
    moreover have "k = n" "i = (d div 256 ^ n + lst div 256 ^ n) mod 256" using True Suc.prems(2) lt by (auto simp: byte_def mod_simps)
    ultimately show ?thesis using Suc.prems(1) by simp
  next
    case False
    then have "d div 256 ^ n = 0" using lt by (simp add: byte_def)
    then have "d < 256 ^ n" by (simp add: div_eq_0_iff)
    then show ?thesis using Suc.IH Suc.prems(2) False by fastforce
  qed
qed

text \<open>Where the wheel puts a tick \<open>T\<close> seen from \<open>L\<close>.\<close>

lemma find_level_placed:
  assumes "L \<le> T" and "T - L < 256 ^ 8" and "find_level 8 (T - L) L = (k, i)"
  shows "k < 8 \<and> (\<exists>S. i = S mod 256 \<and> L \<le> S * 256 ^ k \<and> S * 256 ^ k \<le> T \<and> S \<le> L div 256 ^ k + 255 \<and> (if k = 0 then S = T else 0 < S))"
  using find_level_spec [OF assms(2,3)]
proof
  assume "T - L = 0 \<and> k = 0 \<and> i = L mod 256"
  then show ?thesis using assms(1) by (intro conjI exI [of _ L]) simp_all
next
  let ?d = "T - L"
  assume a: "k < 8 \<and> 256 ^ k \<le> ?d \<and> ?d < 256 ^ Suc k \<and> i = (?d div 256 ^ k + L div 256 ^ k) mod 256"
  let ?S = "?d div 256 ^ k + L div 256 ^ k"
  have one: "1 \<le> ?d div 256 ^ k" using a by (simp add: div_greater_zero_iff Suc_le_eq)
  have lt: "?d div 256 ^ k < 256" using a by (simp add: less_mult_imp_div_less)
  have "L < (L div 256 ^ k + 1) * 256 ^ k" using dividend_less_div_times [of "256 ^ k" L] by (simp add: add.commute)
  also have "\<dots> \<le> ?S * 256 ^ k" using one by (intro mult_le_mono1) simp
  finally have lo: "L < ?S * 256 ^ k" .
  have "?S * 256 ^ k \<le> ?d + L" unfolding add_mult_distrib by (intro add_mono) simp_all
  then have hi: "?S * 256 ^ k \<le> T" using assms(1) by simp
  have "if k = 0 then ?S = T else 0 < ?S" using one assms(1) by simp
  then show ?thesis using a lo hi lt by (intro conjI exI [of _ ?S]) simp_all
qed

lemma ticks_diff:
  assumes "0 < precision t" and "lastTime t \<le> tp"
  shows "nat ((tp - lastTime t) div precision t) = ticks tp t - point t" and "point t \<le> ticks tp t"
proof -
  have e: "tp - tbegin t = (tp - lastTime t) + int (point t) * precision t" by (simp add: lastTime_def)
  have d: "(tp - tbegin t) div precision t = (tp - lastTime t) div precision t + int (point t)"
    unfolding e using assms(1) by simp
  moreover have "0 \<le> (tp - lastTime t) div precision t" using assms by (simp add: pos_imp_zdiv_nonneg_iff)
  ultimately show "nat ((tp - lastTime t) div precision t) = ticks tp t - point t" and "point t \<le> ticks tp t"
    unfolding ticks_def by simp_all
qed

text \<open>Dispatching an element in flight, when its time lies ahead.\<close>

lemma Dispatch_wheel:
  assumes "mainloop \<or> lastTime t < etp (elems t a)" and "find_level 8 (nat ((etp (elems t a) - lastTime t) div precision t)) (point t) = (k, i)"
  shows "Dispatch mainloop a t = (set_slot k i (slots t k i @ [a]) t)
    \<lparr>elems := (elems t)(a := elems t a\<lparr>erefs := erefs (elems t a) + 1, eslot := Some (k, i)\<rparr>)\<rparr>"
  using assms by (auto simp: Dispatch_def retain_def upd_elem_def set_slot_def)

lemma put_ok:
  assumes "refs_ok ids (a # X) t" and "places_ok (a # X) t" and "times_ok (a # X) t" and "wheel_ok (point t) t"
    and "erefs (elems u a) = 1 + ids a" and "u = t\<lparr>elems := (elems t)(a := elems t a\<lparr>erefs := 1 + ids a\<rparr>)\<rparr>"
    and "lastTime t < etp (elems t a)" and "v = Dispatch m a u"
  shows "refs_ok ids X v" and "places_ok X v" and "times_ok X v" and "wheel_ok (point t) v"
    and "called v = called t" and "in_slots v = insert a (in_slots t)" and "completeSlot v = completeSlot t"
    and "point v = point t" and "tbegin v = tbegin t" and "precision v = precision t" and "\<And>b. etp (elems v b) = etp (elems t b)"
proof -
  obtain k i where fl: "find_level 8 (nat ((etp (elems t a) - lastTime t) div precision t)) (point t) = (k, i)" by (metis surj_pair)
  have lu: "lastTime u = lastTime t" "point u = point t" "precision u = precision t" "etp (elems u a) = etp (elems t a)"
    by (simp_all add: assms(6) lastTime_def)
  have v: "v = (set_slot k i (slots t k i @ [a]) t)\<lparr>elems := (elems t)(a := elems t a\<lparr>erefs := 2 + ids a, eslot := Some (k, i)\<rparr>)\<rparr>"
    unfolding assms(8) using Dispatch_wheel [of m u a k i] fl assms(7) lu by (simp add: assms(6) set_slot_def)
  have p: "0 < precision t" "\<And>k i. distinct (slots t k i)" "\<And>k i b. b \<in> set (slots t k i) \<Longrightarrow> eslot (elems t b) = Some (k, i)"
    "a \<notin> in_slots t" "a \<notin> set X" "a \<notin> set (completeSlot t)" "\<not> elocked (elems t a)" using assms(2) by (auto simp: places_ok_def pending_def)
  have ins: "in_slots v = insert a (in_slots t)" unfolding v by (auto simp: in_slots_def)
  have pen: "pending X v = pending (a # X) t" unfolding pending_def ins unfolding v by simp
  have na: "a \<notin> set (slots t k' i')" for k' i' using p(4) by (auto simp: in_slots_def)
  show "in_slots v = insert a (in_slots t)" by (rule ins)
  show "called v = called t" "completeSlot v = completeSlot t" "point v = point t" "tbegin v = tbegin t" "precision v = precision t"
    by (simp_all add: v)
  show etp: "etp (elems v b) = etp (elems t b)" for b by (simp add: v)
  have et: "etick v b = etick t b" for b unfolding etick_def ticks_def etp by (simp add: v)
  have "a \<in> pending (a # X) t" by (simp add: pending_def)
  then have ar: "erefs (elems t a) = 2 + ids a" using refs_pending [OF assms(1)] by blast
  then have "erefs (elems v b) = erefs (elems t b)" for b by (simp add: v)
  then show "refs_ok ids X v" using assms(1) unfolding refs_ok_def pen by (simp add: v)
  have "\<forall>k' i'. distinct (slots v k' i') \<and> (\<forall>b \<in> set (slots v k' i'). eslot (elems v b) = Some (k', i'))"
    using p(2,3) na by (auto simp: v)
  moreover have "(set X \<union> set (completeSlot v)) \<inter> in_slots v = {}" unfolding ins using assms(2) p(5,6) by (auto simp: places_ok_def v)
  ultimately show "places_ok X v" using assms(2) p(6) unfolding places_ok_def pen by (auto simp: v)
  show "times_ok X v" using assms(3) unfolding times_ok_def ins et etp by (simp add: v)
  have le: "point t \<le> etick t a" "nat ((etp (elems t a) - lastTime t) div precision t) = etick t a - point t"
    unfolding etick_def using ticks_diff [of t "etp (elems t a)"] p(1) assms(7) by simp_all
  have "etick t a - point t < 256 ^ 8" using assms(3) by (simp add: times_ok_def less_imp_diff_less)
  then have "placed (point t) t k i a" unfolding placed_def using find_level_placed [OF le(1)] fl le(2) by simp
  then show "wheel_ok (point t) v" using assms(4) unfolding wheel_ok_def placed_def et by (auto simp: v)
qed

subsection \<open>Sweeping a tick\<close>

text \<open>What a part of the sweep did: it called the elements \<open>F\<close>, once each, and kept the others.\<close>

definition fired_step :: "int \<Rightarrow> nat list \<Rightarrow> timer \<Rightarrow> nat list \<Rightarrow> nat list \<Rightarrow> timer \<Rightarrow> bool" where
  "fired_step now X t F X' t' \<longleftrightarrow> called t' = called t @ map (\<lambda>a. (a, now)) F \<and> distinct F \<and>
     set F \<inter> pending X' t' = {} \<and> set F \<union> pending X' t' = pending X t \<and>
     point t' = point t \<and> tbegin t' = tbegin t \<and> precision t' = precision t \<and> completeSlot t' = completeSlot t \<and>
     (\<forall>a. etp (elems t' a) = etp (elems t a))"

lemma fired_step_etick: "fired_step now X t F X' t' \<Longrightarrow> etick t' a = etick t a"
  by (simp add: fired_step_def etick_def ticks_def)

lemma fired_step_lastTime: "fired_step now X t F X' t' \<Longrightarrow> lastTime t' = lastTime t"
  by (simp add: fired_step_def lastTime_def)

lemma fired_step_trans:
  "fired_step now X t F X' t' \<Longrightarrow> fired_step now X' t' G X'' t'' \<Longrightarrow> fired_step now X t (F @ G) X'' t''"
  by (auto simp: fired_step_def)

lemma times_ok_step: "times_ok X t \<Longrightarrow> fired_step now X t F X' t' \<Longrightarrow> in_slots t' \<union> set X' \<subseteq> in_slots t \<union> set X \<Longrightarrow> times_ok X' t'"
  unfolding times_ok_def by (auto simp: fired_step_etick) (simp_all add: fired_step_def subset_iff)

lemma Trigger_ok:
  assumes "refs_ok ids X t" and "places_ok X t" and "u = Trigger now k i t"
  shows "refs_ok ids X u" and "places_ok X u" and "fired_step now X t (slots t k i) X u"
    and "\<And>k' i'. slots u k' i' = (if k' = k \<and> i' = i then [] else slots t k' i')" and "in_slots u \<subseteq> in_slots t"
proof -
  have tl: "refs_ok ids X u \<and> places_ok X u \<and> same_wheel (set_slot k i [] t) u \<and>
    called u = called (set_slot k i [] t) @ map (\<lambda>a. (a, now)) (slots t k i)"
    unfolding assms(3) Trigger_def by (rule trigger_list_ok [OF pop_slot_ok [OF assms(1,2)]])
  then have sw: "same_wheel (set_slot k i [] t) u" by blast
  show "refs_ok ids X u" and "places_ok X u" using tl by simp_all
  show sl: "slots u k' i' = (if k' = k \<and> i' = i then [] else slots t k' i')" for k' i'
    using sw by (simp add: same_wheel_def)
  show "in_slots u \<subseteq> in_slots t" by (auto simp: in_slots_def sl split: if_splits)
  have d: "distinct (slots t k i)" "distinct ((slots t k i @ X) @ completeSlot t)"
    "(set (slots t k i @ X) \<union> set (completeSlot t)) \<inter> in_slots (set_slot k i [] t) = {}"
    using assms(2) pop_slot_ok(2) [OF assms(1,2), of k i] by (simp_all add: places_ok_def)
  have pu: "pending X u = pending X (set_slot k i [] t)" by (rule same_wheel_pending [OF sw])
  have "set (slots t k i) \<inter> pending X u = {}" unfolding pu unfolding pending_def using d(2,3) by (simp add: Int_Un_distrib Int_Un_distrib2)
  moreover have "set (slots t k i) \<union> pending X u = pending X t" unfolding pu pop_pending [of t k i X, symmetric]
    by (auto simp: pending_def)
  ultimately show "fired_step now X t (slots t k i) X u" using tl d(1) by (simp add: fired_step_def same_wheel_def)
qed

lemma placed_next:
  assumes "placed pos t k i a" and "i \<noteq> byte k pos \<or> \<not> 256 ^ k dvd pos \<or> (0 < k \<and> pos = 0)"
  shows "placed (Suc pos) t k i a"
proof -
  obtain S where S: "k < 8" "i = S mod 256" "pos \<le> S * 256 ^ k" "S * 256 ^ k \<le> etick t a" "S \<le> pos div 256 ^ k + 255"
    "if k = 0 then S = etick t a else 0 < S" using assms(1) by (auto simp: placed_def)
  have "S * 256 ^ k \<noteq> pos"
  proof
    assume e: "S * 256 ^ k = pos"
    then have "byte k pos = i" "256 ^ k dvd pos" using S(2) by (auto simp: byte_def)
    then show False using assms(2) e S(6) by auto
  qed
  then have lo: "Suc pos \<le> S * 256 ^ k" using S(3) by simp
  have "pos div 256 ^ k \<le> Suc pos div 256 ^ k" by (intro div_le_mono) simp
  then have "S \<le> Suc pos div 256 ^ k + 255" using S(5) by linarith
  then show ?thesis unfolding placed_def using S(1,2,4,6) lo by blast
qed

lemma placed_level0: "placed pos t 0 (byte 0 pos) a \<Longrightarrow> etick t a = pos"
proof -
  assume "placed pos t 0 (byte 0 pos) a"
  then have "pos mod 256 = etick t a mod 256" "pos \<le> etick t a" "etick t a \<le> pos + 255" by (auto simp: placed_def byte_def)
  then have "256 dvd etick t a - pos" "etick t a - pos < 256" by (simp_all add: mod_eq_dvd_iff_nat [symmetric])
  then have "etick t a - pos = 0" using nat_dvd_not_less by blast
  then show "etick t a = pos" using \<open>pos \<le> etick t a\<close> by simp
qed

lemma byte_zero_dvd: "256 ^ k dvd (x :: nat) \<Longrightarrow> byte k x = 0 \<longleftrightarrow> 256 ^ Suc k dvd x"
proof -
  assume "256 ^ k dvd x"
  then obtain y where y: "x = 256 ^ k * y" by blast
  then have "byte k x = y mod 256" by (simp add: byte_def)
  then show "byte k x = 0 \<longleftrightarrow> 256 ^ Suc k dvd x" using y by (simp add: mod_eq_0_iff_dvd mult.commute)
qed

text \<open>The levels below \<open>n\<close> are done with tick \<open>pos\<close>, the others are not.\<close>

definition wheel_upto :: "nat \<Rightarrow> nat \<Rightarrow> timer \<Rightarrow> bool" where
  "wheel_upto n pos t \<longleftrightarrow> (\<forall>k i. \<forall>a \<in> set (slots t k i). placed (if k < n then Suc pos else pos) t k i a)"

lemma wheel_upto_8: "wheel_upto 8 pos t \<longleftrightarrow> wheel_ok (Suc pos) t"
proof -
  have "placed (if k < 8 then Suc pos else pos) t k i a = placed (Suc pos) t k i a" for k i a
    by (cases "k < 8") (simp_all add: placed_def)
  then show ?thesis by (simp add: wheel_upto_def wheel_ok_def)
qed

lemma placed_cong: "etick u a = etick t a \<Longrightarrow> placed q u k i a = placed q t k i a"
  by (simp add: placed_def)

lemma wheel_uptoD: "wheel_upto n pos t \<Longrightarrow> a \<in> set (slots t k i) \<Longrightarrow> placed (if k < n then Suc pos else pos) t k i a"
  unfolding wheel_upto_def by blast

lemma wheel_upto_Suc:
  assumes "wheel_upto n pos t" and "\<And>k' i'. slots u k' i' = (if k' = n \<and> i' = byte n pos then [] else slots t k' i')" and "\<And>a. etick u a = etick t a"
  shows "wheel_upto (Suc n) pos u"
proof -
  have "placed (if k < Suc n then Suc pos else pos) u k i a" if "a \<in> set (slots u k i)" for k i a
  proof -
    have "\<not> (k = n \<and> i = byte n pos)" "a \<in> set (slots t k i)" using that unfolding assms(2) by (auto split: if_splits)
    moreover have "placed (if k < n then Suc pos else pos) t k i a" using wheel_uptoD [OF assms(1) \<open>a \<in> set (slots t k i)\<close>] .
    ultimately have "placed (if k < Suc n then Suc pos else pos) t k i a"
      using placed_next [of pos t k i a] by (cases "k = n") auto
    then show ?thesis unfolding placed_cong [OF assms(3)] .
  qed
  then show ?thesis unfolding wheel_upto_def by blast
qed

lemma wheel_upto_skip:
  assumes "wheel_upto n pos t" and "0 < n" and "pos = 0 \<or> \<not> 256 ^ n dvd pos"
  shows "wheel_upto 8 pos t"
proof -
  have "placed (Suc pos) t k i a" if "a \<in> set (slots t k i)" "k < 8" for k i a
  proof (cases "k < n")
    case True
    then show ?thesis using wheel_uptoD [OF assms(1) that(1)] by simp
  next
    case False
    then have "(256 :: nat) ^ n dvd 256 ^ k" by (simp add: le_imp_power_dvd)
    then have "\<not> 256 ^ k dvd pos \<or> (0 < k \<and> pos = 0)" using assms(2,3) False dvd_trans by fastforce
    moreover have "placed pos t k i a" using wheel_uptoD [OF assms(1) that(1)] False by simp
    ultimately show ?thesis by (intro placed_next) auto
  qed
  moreover have "k < 8" if "a \<in> set (slots t k i)" for k i a using wheel_uptoD [OF assms(1) that] by (simp add: placed_def)
  ultimately show ?thesis unfolding wheel_upto_def by simp
qed

lemma ok_commute:
  "refs_ok ids (xs @ ys) t = refs_ok ids (ys @ xs) t" "places_ok (xs @ ys) t = places_ok (ys @ xs) t"
  "times_ok (xs @ ys) t = times_ok (ys @ xs) t" "pending (xs @ ys) t = pending (ys @ xs) t"
  by (auto simp: refs_ok_def places_ok_def times_ok_def pending_def Un_ac Int_ac)

lemma pop_step:
  assumes "refs_ok ids X t" and "places_ok X t" and "times_ok X t" and "u = set_slot k i [] t" and "Y = X @ slots t k i"
  shows "refs_ok ids Y u" and "places_ok Y u" and "times_ok Y u" and "fired_step now X t [] Y u"
proof -
  show "refs_ok ids Y u" and "places_ok Y u"
    using pop_slot_ok [OF assms(1,2), of k i] unfolding assms(4,5) ok_commute(1) [of ids "slots t k i" X] ok_commute(2) [of "slots t k i" X] by blast+
  show "times_ok Y u" using assms(3) unfolding assms(4,5) times_ok_def by (auto simp: in_slots_def split: if_splits)
  show "fired_step now X t [] Y u" unfolding fired_step_def assms(4,5) ok_commute(4) [of X] pop_pending by simp
qed

lemma cascade_ok:
  "256 ^ lv dvd pos \<Longrightarrow> pos < 256 ^ 8 \<Longrightarrow> lv \<le> 7 \<Longrightarrow> si = byte lv pos \<Longrightarrow> refs_ok ids ds t \<Longrightarrow> places_ok ds t \<Longrightarrow>
   times_ok ds t \<Longrightarrow> wheel_upto (Suc lv) pos t \<Longrightarrow>
   \<exists>cnt' ds' t'. cascade pos lv si cnt ds t = Some (cnt', ds', t') \<and> (\<forall>n \<le> lv. cnt' n = cnt n) \<and> refs_ok ids ds' t' \<and>
     places_ok ds' t' \<and> times_ok ds' t' \<and> wheel_ok (Suc pos) t' \<and> fired_step now ds t [] ds' t'"
proof (induction pos lv si cnt ds t rule: cascade.induct)
  case (1 pos lv si cnt ds t)
  show ?case
  proof (cases "0 < pos \<and> si = 0")
    case False
    then have "pos = 0 \<or> \<not> 256 ^ Suc lv dvd pos" using byte_zero_dvd [OF 1(2)] 1(5) by auto
    then have "wheel_ok (Suc pos) t" using wheel_upto_skip [OF 1(9)] wheel_upto_8 by blast
    moreover have "cascade pos lv si cnt ds t = Some (cnt, ds, t)" using False by (subst cascade.simps) auto
    moreover have "fired_step now ds t [] ds t" by (simp add: fired_step_def)
    ultimately show ?thesis using 1(6,7,8) by blast
  next
    case True
    then have dv: "256 ^ Suc lv dvd pos" using byte_zero_dvd [OF 1(2)] 1(5) by auto
    have "lv \<noteq> 7" using dv 1(3) True by (auto dest: dvd_imp_le)
    then have lv: "lv < 7" using 1(4) by simp
    then have nl: "\<not> 7 \<le> lv" "Suc lv \<le> 7" by simp_all
    let ?l = "Suc lv" and ?s = "byte (Suc lv) pos"
    let ?t = "set_slot ?l ?s [] t" and ?ds = "ds @ slots t ?l ?s" and ?c = "cnt(?l := cnt ?l + 1)"
    note p = pop_step [OF 1(6,7,8) refl refl, where k = ?l and i = ?s]
    have w: "wheel_upto (Suc ?l) pos ?t" by (rule wheel_upto_Suc [OF 1(9)]) simp_all
    have c: "cascade pos lv si cnt ds t = cascade pos ?l ?s ?c ?ds ?t" using True lv by (subst cascade.simps) (simp add: Let_def)
    obtain cnt' ds' t' where r: "cascade pos ?l ?s ?c ?ds ?t = Some (cnt', ds', t')" "\<forall>n \<le> ?l. cnt' n = ?c n"
      "refs_ok ids ds' t'" "places_ok ds' t'" "times_ok ds' t'" "wheel_ok (Suc pos) t'" "fired_step now ?ds ?t [] ds' t'"
      using 1(1) [OF True nl(1) refl refl dv 1(3) nl(2) refl p(1,2,3) w] by blast
    have "fired_step now ds t [] ds' t'" using fired_step_trans [OF p(4) r(7)] by simp
    moreover have "\<forall>n \<le> lv. cnt' n = cnt n" using r(2) by simp
    ultimately show ?thesis using c r(1,3,4,5,6) by auto
  qed
qed

text \<open>The whole loop, when fewer than 256 ticks have passed.\<close>

lemma sweep_ok:
  assumes "delta \<le> 255" and "i \<le> delta" and "cnt 0 = i" and "lst + delta \<le> 256 ^ 8"
    and "refs_ok ids ds t" and "places_ok ds t" and "times_ok ds t" and "wheel_ok (lst + i) t"
  shows "\<exists>ds' t' F. sweep now lst delta i 0 cnt ds t = Some (ds', t') \<and> refs_ok ids ds' t' \<and> places_ok ds' t' \<and> times_ok ds' t' \<and>
     wheel_ok (lst + delta) t' \<and> fired_step now ds t F ds' t' \<and> (\<forall>a \<in> set F. etick t a < lst + delta)"
  using assms(2-)
proof (induction "delta - i" arbitrary: i cnt ds t)
  case 0
  then have "i = delta" by simp
  moreover have "sweep now lst delta delta 0 cnt ds t = Some (ds, t)" by (subst sweep.simps) simp
  moreover have "fired_step now ds t [] ds t" by (simp add: fired_step_def)
  ultimately show ?case using 0 by fastforce
next
  case (Suc n)
  let ?pos = "lst + i"
  define u where "u = Trigger now 0 (byte 0 ?pos) t"
  define F where "F = slots t 0 (byte 0 ?pos)"
  have i: "i < delta" using Suc.hyps(2) by simp
  note tr = Trigger_ok [OF Suc.prems(4,5) u_def, folded F_def]
  have tu: "times_ok ds u" by (rule times_ok_step [OF Suc.prems(6) tr(3)]) (use tr(5) in blast)
  have "wheel_upto 0 ?pos t" using Suc.prems(7) by (simp add: wheel_upto_def wheel_ok_def)
  then have wu: "wheel_upto (Suc 0) ?pos u" by (rule wheel_upto_Suc [OF _ tr(4) fired_step_etick [OF tr(3)]])
  let ?c = "cnt(0 := cnt 0 + 1)"
  obtain cnt' ds1 t1 where ca: "cascade ?pos 0 (byte 0 ?pos) ?c ds u = Some (cnt', ds1, t1)" "\<forall>n \<le> 0. cnt' n = ?c n"
    "refs_ok ids ds1 t1" "places_ok ds1 t1" "times_ok ds1 t1" "wheel_ok (Suc ?pos) t1" "fired_step now ds u [] ds1 t1"
    using cascade_ok [of 0 ?pos "byte 0 ?pos" ids ds u ?c now] tr(1,2) tu wu Suc.prems(3) i by auto
  have na: "next_add 0 p = 1" for p by (simp add: next_add_def additions_def)
  have c0: "cnt 0 + 1 \<noteq> 256" using Suc.prems(2) i assms(1) by simp
  have sw: "sweep now lst delta i 0 cnt ds t = sweep now lst delta (Suc i) 0 cnt' ds1 t1"
    using i c0 ca(1) by (subst sweep.simps) (simp add: Let_def u_def [symmetric] na)
  have n: "n = delta - Suc i" using Suc.hyps(2) i by simp
  have "cnt' 0 = Suc i" using ca(2) Suc.prems(2) by simp
  moreover have "wheel_ok (lst + Suc i) t1" using ca(6) by simp
  ultimately obtain ds' t' G where r: "sweep now lst delta (Suc i) 0 cnt' ds1 t1 = Some (ds', t')" "refs_ok ids ds' t'"
    "places_ok ds' t'" "times_ok ds' t'" "wheel_ok (lst + delta) t'" "fired_step now ds1 t1 G ds' t'" "\<forall>a \<in> set G. etick t1 a < lst + delta"
    using Suc.hyps(1) [of "Suc i" cnt' ds1 t1] n i ca(3,4,5) Suc.prems(3) by auto
  have f1: "fired_step now ds t F ds1 t1" using fired_step_trans [OF tr(3) ca(7)] by simp
  have "etick t a = ?pos" if "a \<in> set F" for a
    using that Suc.prems(7) placed_level0 unfolding F_def wheel_ok_def by blast
  moreover have "etick t a < lst + delta" if "a \<in> set G" for a using r(7) that fired_step_etick [OF f1] by simp
  ultimately have "\<forall>a \<in> set (F @ G). etick t a < lst + delta" using i by auto
  then show ?case using sw r fired_step_trans [OF f1 r(6)] by auto
qed

subsection \<open>Dispatching what came down, and one call of \<open>RunOnce\<close>\<close>

lemma Dispatch_list_ok:
  "refs_ok ids xs t \<Longrightarrow> places_ok xs t \<Longrightarrow> times_ok xs t \<Longrightarrow> wheel_ok (point t) t \<Longrightarrow> lastTime t \<le> now \<Longrightarrow>
   \<exists>F. refs_ok ids [] (Dispatch_list now xs t) \<and> places_ok [] (Dispatch_list now xs t) \<and> times_ok [] (Dispatch_list now xs t) \<and>
     wheel_ok (point t) (Dispatch_list now xs t) \<and> fired_step now xs t F [] (Dispatch_list now xs t) \<and>
     (\<forall>a \<in> set F. etp (elems t a) \<le> now) \<and> completeSlot (Dispatch_list now xs t) = completeSlot t"
proof (induction xs arbitrary: t)
  case Nil
  have "fired_step now [] t [] [] t" by (simp add: fired_step_def)
  then show ?case using Nil by (intro exI [of _ "[]"]) simp
next
  case (Cons a xs)
  have a: "a \<in> pending (a # xs) t" "a \<notin> pending xs t" using Cons.prems(2) by (auto simp: pending_def places_ok_def)
  have pa: "pending (a # xs) t = insert a (pending xs t)" by (auto simp: pending_def)
  show ?case
  proof (cases "etp (elems t a) \<le> now")
    case True
    let ?u = "fire now a t"
    note f = fire_ok [OF Cons.prems(1,2), of now]
    have cl: "point ?u = point t" "lastTime ?u = lastTime t" "completeSlot ?u = completeSlot t" "etp (elems ?u b) = etp (elems t b)" for b
      using f(3) by (simp_all add: same_wheel_def lastTime_def)
    have tu: "times_ok xs ?u" using Cons.prems(3) f(3)
      by (simp add: times_ok_def same_wheel_pending same_wheel_etick) (simp add: same_wheel_def)
    have wu: "wheel_ok (point ?u) ?u" using Cons.prems(4) same_wheel_ok [OF f(3)] cl by simp
    obtain F where F: "refs_ok ids [] (Dispatch_list now xs ?u)" "places_ok [] (Dispatch_list now xs ?u)" "times_ok [] (Dispatch_list now xs ?u)"
      "wheel_ok (point t) (Dispatch_list now xs ?u)" "fired_step now xs ?u F [] (Dispatch_list now xs ?u)"
      "\<forall>b \<in> set F. etp (elems t b) \<le> now" "completeSlot (Dispatch_list now xs ?u) = completeSlot t"
      using Cons.IH [OF f(1,2) tu wu] Cons.prems(5) cl by auto
    have "fired_step now (a # xs) t [a] xs ?u"
      unfolding fired_step_def same_wheel_pending(1) [OF f(3)] pa using f(3,4) a(2) by (simp add: same_wheel_def)
    then have "fired_step now (a # xs) t (a # F) [] (Dispatch_list now xs ?u)" using fired_step_trans [OF _ F(5)] by fastforce
    then show ?thesis using True F by (intro exI [of _ "a # F"]) simp
  next
    case False
    have r: "erefs (elems t a) = 2 + ids a" using refs_pending [OF Cons.prems(1) a(1)] by blast
    define u where "u = t\<lparr>elems := (elems t)(a := elems t a\<lparr>erefs := 1 + ids a\<rparr>)\<rparr>"
    have ru: "release a t = u" using r by (simp add: release_def u_def upd_elem_def Let_def)
    have lt: "lastTime t < etp (elems t a)" using False Cons.prems(5) by simp
    define v where "v = Dispatch True a u"
    have "erefs (elems u a) = 1 + ids a" by (simp add: u_def)
    note p = put_ok [OF Cons.prems(1-4) this u_def lt v_def]
    have wv: "wheel_ok (point v) v" and lv: "lastTime v \<le> now" using p(4,8,9,10) Cons.prems(5) by (simp_all add: lastTime_def)
    obtain F where F: "refs_ok ids [] (Dispatch_list now xs v)" "places_ok [] (Dispatch_list now xs v)" "times_ok [] (Dispatch_list now xs v)"
      "wheel_ok (point t) (Dispatch_list now xs v)" "fired_step now xs v F [] (Dispatch_list now xs v)"
      "\<forall>b \<in> set F. etp (elems t b) \<le> now" "completeSlot (Dispatch_list now xs v) = completeSlot t"
      using Cons.IH [OF p(1,2,3) wv lv] p(7,8,11) by auto
    have "pending xs v = pending (a # xs) t" unfolding pending_def p(6,7) by auto
    then have "fired_step now (a # xs) t [] xs v" unfolding fired_step_def using p(5,7-11) by simp
    then have "fired_step now (a # xs) t F [] (Dispatch_list now xs v)" using fired_step_trans [OF _ F(5)] by fastforce
    moreover have "Dispatch_list now (a # xs) t = Dispatch_list now xs v" using False ru by (simp add: v_def)
    ultimately show ?thesis using F by auto
  qed
qed

definition timer_inv :: "(nat \<Rightarrow> nat) \<Rightarrow> timer \<Rightarrow> bool" where
  "timer_inv ids t \<longleftrightarrow> refs_ok ids [] t \<and> places_ok [] t \<and> times_ok [] t \<and> wheel_ok (point t) t \<and>
     (\<forall>a \<in> set (completeSlot t). etp (elems t a) \<le> lastTime t)"

text \<open>What one call promises.\<close>

definition sweep_post :: "int \<Rightarrow> timer \<Rightarrow> nat list \<Rightarrow> timer \<Rightarrow> bool" where
  "sweep_post now t F t' \<longleftrightarrow> called t' = called t @ map (\<lambda>a. (a, now)) F \<and> distinct F \<and>
     set F \<inter> pending [] t' = {} \<and> set F \<union> pending [] t' = pending [] t \<and>
     (\<forall>a \<in> set F. etp (elems t a) \<le> now) \<and> (\<forall>a \<in> pending [] t'. ticks now t \<le> etick t a) \<and>
     completeSlot t' = [] \<and> (\<forall>a. etp (elems t' a) = etp (elems t a))"

lemma ticks_time:
  assumes "0 < precision t" and "tbegin t \<le> now"
  shows "tbegin t + int (ticks now t) * precision t \<le> now"
    and "ticks tp t < ticks now t \<Longrightarrow> tp \<le> now"
proof -
  have nn: "0 \<le> (now - tbegin t) div precision t" using assms by (simp add: pos_imp_zdiv_nonneg_iff)
  then have "int (ticks now t) * precision t \<le> now - tbegin t"
    using pos_mod_sign [OF assms(1), of "now - tbegin t"] minus_mod_eq_div_mult [of "now - tbegin t" "precision t"] by (simp add: ticks_def)
  then show "tbegin t + int (ticks now t) * precision t \<le> now" by simp
  show "ticks tp t < ticks now t \<Longrightarrow> tp \<le> now"
  proof (rule ccontr)
    assume a: "ticks tp t < ticks now t" "\<not> tp \<le> now"
    then have "(now - tbegin t) div precision t \<le> (tp - tbegin t) div precision t" using assms(1) by (intro zdiv_mono1) simp_all
    then show False using a(1) by (simp add: ticks_def)
  qed
qed

lemma wheel_ok_etick: "wheel_ok q t \<Longrightarrow> a \<in> in_slots t \<Longrightarrow> q \<le> etick t a"
  by (fastforce simp: wheel_ok_def in_slots_def placed_def)

lemma Trigger_complete_ok:
  assumes "timer_inv ids t" and "u = Trigger_complete now t"
  shows "refs_ok ids [] u" and "places_ok [] u" and "same_wheel (t\<lparr>completeSlot := []\<rparr>) u"
    and "called u = called t @ map (\<lambda>a. (a, now)) (completeSlot t)"
  using trigger_list_ok [of ids "completeSlot t" "[]" "t\<lparr>completeSlot := []\<rparr>" now] pop_complete_ok [of ids t] assms(1)
  by (simp_all add: timer_inv_def assms(2) Trigger_complete_def)

lemma point_irrelevant:
  "refs_ok ids X (t\<lparr>point := n\<rparr>) = refs_ok ids X t" "places_ok X (t\<lparr>point := n\<rparr>) = places_ok X t"
  "times_ok X (t\<lparr>point := n\<rparr>) = times_ok X t" "wheel_ok q (t\<lparr>point := n\<rparr>) = wheel_ok q t" "pending X (t\<lparr>point := n\<rparr>) = pending X t"
  "etick (t\<lparr>point := n\<rparr>) = etick t"
  by (simp_all add: refs_ok_def places_ok_def times_ok_def wheel_ok_def pending_def in_slots_def placed_def etick_def ticks_def fun_eq_iff)

lemma RunOnce_ok:
  assumes "timer_inv ids t" and "lastTime t \<le> now" and "ticks now t \<le> point t + 255" and "ticks now t \<le> 256 ^ 8"
  shows "\<exists>t' F. RunOnce now t = Some t' \<and> timer_inv ids t' \<and> sweep_post now t F t'"
proof -
  define u where "u = Trigger_complete now t"
  have inv: "refs_ok ids [] t" "places_ok [] t" "times_ok [] t" "wheel_ok (point t) t" "\<forall>a \<in> set (completeSlot t). etp (elems t a) \<le> lastTime t"
    using assms(1) by (simp_all add: timer_inv_def)
  note tc = Trigger_complete_ok [OF assms(1) u_def]
  have cl: "point u = point t" "tbegin u = tbegin t" "precision u = precision t" "completeSlot u = []" "slots u = slots t"
    "\<And>a. etp (elems u a) = etp (elems t a)" using tc(3) by (simp_all add: same_wheel_def)
  have et: "ticks n u = ticks n t" "etick u a = etick t a" for n a by (simp_all add: etick_def ticks_def cl)
  have isl: "in_slots u = in_slots t" by (simp add: in_slots_def cl)
  have pu: "pending [] u = in_slots t" by (simp add: pending_def isl cl)
  have tu: "times_ok [] u" using inv(3) by (simp add: times_ok_def isl et cl)
  have wu: "wheel_ok (point t) u" using inv(4) unfolding wheel_ok_def cl placed_cong [OF et(2)] .
  have p0: "0 < precision t" and b0: "tbegin t \<le> now"
    using inv(2) assms(2) by (simp_all add: places_ok_def lastTime_def) (smt (verit) mult_nonneg_nonneg of_nat_0_le_iff)
  have dj: "set (completeSlot t) \<inter> in_slots t = {}" "distinct (completeSlot t)" using inv(2) by (simp_all add: places_ok_def)
  have pt: "pending [] t = set (completeSlot t) \<union> in_slots t" by (auto simp: pending_def)
  show ?thesis
  proof (cases "ticks now t \<le> point t")
    case True
    have "RunOnce now t = Some u" using True by (simp add: RunOnce_def u_def [symmetric] et cl Let_def)
    moreover have "timer_inv ids u" unfolding timer_inv_def cl using tc(1,2) tu wu by simp
    moreover have "sweep_post now t (completeSlot t) u"
      unfolding sweep_post_def pu pt using tc(4) dj inv(5) assms(2) cl wheel_ok_etick [OF inv(4)] True by fastforce
    ultimately show ?thesis by blast
  next
    case False
    define dest where "dest = ticks now t"
    define w where "w = u\<lparr>point := dest\<rparr>"
    have lt: "point t < dest" using False by (simp add: dest_def)
    have d255: "dest - point t \<le> 255" using assms(3) by (simp add: dest_def)
    obtain ds t2 F where s: "sweep now (point t) (dest - point t) 0 0 (\<lambda>_. 0) [] w = Some (ds, t2)" "refs_ok ids ds t2" "places_ok ds t2"
      "times_ok ds t2" "wheel_ok dest t2" "fired_step now [] w F ds t2" "\<forall>a \<in> set F. etick w a < dest"
      using sweep_ok [OF d255, of 0 "\<lambda>_. 0" "point t" ids "[]" w now] tc(1,2) tu wu lt assms(4)
      unfolding w_def point_irrelevant by (auto simp: dest_def)
    have c2: "point t2 = dest" "tbegin t2 = tbegin t" "precision t2 = precision t" "\<And>a. etp (elems t2 a) = etp (elems t a)"
      using s(6) by (simp_all add: fired_step_def w_def cl)
    have l2: "lastTime t2 \<le> now" unfolding lastTime_def c2 dest_def by (rule ticks_time(1) [OF p0 b0])
    obtain G where g: "refs_ok ids [] (Dispatch_list now ds t2)" "places_ok [] (Dispatch_list now ds t2)" "times_ok [] (Dispatch_list now ds t2)"
      "wheel_ok dest (Dispatch_list now ds t2)" "fired_step now ds t2 G [] (Dispatch_list now ds t2)" "\<forall>a \<in> set G. etp (elems t a) \<le> now"
      "completeSlot (Dispatch_list now ds t2) = completeSlot t2"
      using Dispatch_list_ok [OF s(2,3,4) _ l2] s(5) c2 by auto
    let ?t' = "Dispatch_list now ds t2"
    note fs = fired_step_trans [OF s(6) g(5)]
    have cs: "completeSlot ?t' = []" using fs by (simp add: fired_step_def w_def cl)
    have "RunOnce now t = Some ?t'" using False s(1) by (simp add: RunOnce_def u_def [symmetric] et cl Let_def dest_def [symmetric] w_def [symmetric])
    moreover have pd: "point ?t' = dest" using g(5) c2 by (simp add: fired_step_def)
    then have "timer_inv ids ?t'" unfolding timer_inv_def using g(1-4) cs by simp
    moreover have "sweep_post now t (completeSlot t @ F @ G) ?t'"
    proof -
      have pw: "set (F @ G) \<inter> pending [] ?t' = {}" "set (F @ G) \<union> pending [] ?t' = in_slots t" "distinct (F @ G)"
        "called ?t' = called u @ map (\<lambda>a. (a, now)) (F @ G)" "\<And>a. etp (elems ?t' a) = etp (elems t a)"
        using fs pu unfolding fired_step_def w_def point_irrelevant by (simp_all add: cl)
      have "etick t a < dest" if "a \<in> set F" for a using s(7) that by (simp add: w_def point_irrelevant et)
      then have "\<forall>a \<in> set F. etp (elems t a) \<le> now" unfolding etick_def dest_def using ticks_time(2) [OF p0 b0] by blast
      moreover have "\<forall>a \<in> pending [] ?t'. dest \<le> etick t a"
      proof
        fix a assume "a \<in> pending [] ?t'"
        then have "a \<in> in_slots ?t'" using cs by (simp add: pending_def)
        then show "dest \<le> etick t a" using wheel_ok_etick [OF g(4)] fired_step_etick [OF fs] by (simp add: w_def point_irrelevant et)
      qed
      moreover have "set (completeSlot t) \<inter> set (F @ G) = {}" "set (completeSlot t) \<inter> pending [] ?t' = {}" using dj(1) pw(2) by blast+
      moreover have "\<forall>a \<in> set (completeSlot t). etp (elems t a) \<le> now" using inv(5) assms(2) by fastforce
      moreover have "called ?t' = called t @ map (\<lambda>a. (a, now)) (completeSlot t @ F @ G)" using pw(4) tc(4) by simp
      moreover have "set (completeSlot t @ F @ G) \<union> pending [] ?t' = pending [] t" unfolding pt using pw(2) by auto
      moreover have "set (completeSlot t @ F @ G) \<inter> pending [] ?t' = {}" using pw(1) calculation(4) by auto
      moreover have "distinct (completeSlot t @ F @ G)" using pw(3) dj(2) calculation(3) by simp
      ultimately show ?thesis unfolding sweep_post_def dest_def [symmetric] using pw(5) g(6) cs by auto
    qed
    ultimately show ?thesis by blast
  qed
qed

subsection \<open>Starting and stopping\<close>

lemma NewElement_ok:
  assumes "refs_ok ids [] t" and "erefs (elems t new) = 0" and "NewElement new t = (a, u)"
  shows "same_wheel t u" and "ids a = 0" and "a \<notin> pending [] t" and "erefs (elems u a) = 1" and "a \<notin> set (tpool u)"
    and "distinct (tpool u)" and "set (tpool u) = set (tpool t) - {a}" and "\<not> over u" and "b \<noteq> a \<Longrightarrow> elems u b = elems t b"
    and "called u = called t"
proof -
  have r: "distinct (tpool t)" "\<not> over t" "\<And>b. b \<in> pending [] t \<Longrightarrow> erefs (elems t b) = 2 + ids b \<and> b \<notin> set (tpool t)"
    "\<And>b. b \<notin> pending [] t \<Longrightarrow> b \<in> set (tpool t) \<Longrightarrow> erefs (elems t b) = 2 \<and> ids b = 0"
    "\<And>b. b \<notin> pending [] t \<Longrightarrow> b \<notin> set (tpool t) \<Longrightarrow> erefs (elems t b) = ids b"
    using assms(1) unfolding refs_ok_def by (auto split: if_splits)
  have "(ids a = 0 \<and> a \<notin> pending [] t) \<and> (same_wheel t u \<and> erefs (elems u a) = 1 \<and> a \<notin> set (tpool u) \<and> distinct (tpool u) \<and>
    set (tpool u) = set (tpool t) - {a} \<and> \<not> over u \<and> (b \<noteq> a \<longrightarrow> elems u b = elems t b) \<and> called u = called t)"
  proof (cases "tpool t")
    case Nil
    have n: "new \<notin> pending [] t" "new \<notin> set (tpool t)" using r(3,4) [of new] assms(2) Nil by auto
    have "ids new = 0" using r(5) [OF n] assms(2) by simp
    then show ?thesis using Nil assms(3) n r(2) by (auto simp: NewElement_def upd_elem_def same_wheel_def)
  next
    case (Cons x xs)
    have ax: "a = x" "u = release x (t\<lparr>tpool := xs\<rparr>)" using Cons assms(3) by (auto simp: NewElement_def)
    have np: "x \<notin> pending [] t" using r(3) [of x] Cons by auto
    have x: "erefs (elems t x) = 2" "ids x = 0" using r(4) [OF np] Cons by simp_all
    have "u = t\<lparr>tpool := xs, elems := (elems t)(x := elems t x\<lparr>erefs := 1\<rparr>)\<rparr>"
      using ax x by (simp add: release_def upd_elem_def Let_def)
    then show ?thesis using np x(2) ax(1) Cons r(1,2) by (auto simp: same_wheel_def)
  qed
  then show "same_wheel t u" and "ids a = 0" and "a \<notin> pending [] t" and "erefs (elems u a) = 1" and "a \<notin> set (tpool u)"
    and "distinct (tpool u)" and "set (tpool u) = set (tpool t) - {a}" and "\<not> over u" and "b \<noteq> a \<Longrightarrow> elems u b = elems t b"
    and "called u = called t" by blast+
qed

lemma tick_bound: "0 < (p :: int) \<Longrightarrow> 0 \<le> x \<Longrightarrow> x < 2 ^ 63 \<Longrightarrow> nat (x div p) < 256 ^ 8"
proof -
  assume a: "0 < p" "0 \<le> x" "x < 2 ^ 63"
  have "x div p \<le> x" using zdiv_mono2 [of x 1 p] a by simp
  then show "nat (x div p) < 256 ^ 8" using a(3) by simp
qed

lemma StartTimer_ok:
  assumes "timer_inv ids t" and "erefs (elems t new) = 0" and "StartTimer new tp t = (a, t')" and "tp < tbegin t + 2 ^ 63"
  shows "timer_inv (ids(a := 1)) t'" and "ids a = 0" and "pending [] t' = insert a (pending [] t)" and "a \<notin> pending [] t"
    and "etp (elems t' a) = tp" and "called t' = called t"
proof -
  have inv: "refs_ok ids [] t" "places_ok [] t" "times_ok [] t" "wheel_ok (point t) t" "\<forall>a \<in> set (completeSlot t). etp (elems t a) \<le> lastTime t"
    using assms(1) by (simp_all add: timer_inv_def)
  obtain t1 where n: "NewElement new t = (a, t1)" using assms(3) by (auto simp: StartTimer_def split: prod.splits)
  note ne = NewElement_ok [OF inv(1) assms(2) n]
  define t3 where "t3 = retain a (upd_elem a (elem_init tp) t1)"
  have t': "t' = Dispatch False a t3" using assms(3) n by (simp add: StartTimer_def t3_def Let_def)
  show "ids a = 0" "a \<notin> pending [] t" by (rule ne(2), rule ne(3))
  have na: "a \<notin> in_slots t" "a \<notin> set (completeSlot t)" using ne(3) by (auto simp: pending_def)
  have cl: "slots t3 = slots t" "completeSlot t3 = completeSlot t" "point t3 = point t" "tbegin t3 = tbegin t" "precision t3 = precision t"
    "tpool t3 = tpool t1" "\<not> over t3" "called t3 = called t"
    using ne(1,8,10) by (simp_all add: t3_def retain_def upd_elem_def same_wheel_def)
  have ea: "erefs (elems t3 a) = 2" "etp (elems t3 a) = tp" "eslot (elems t3 a) = None" "\<not> elocked (elems t3 a)"
    using ne(4) by (simp_all add: t3_def retain_def upd_elem_def elem_init_def)
  have eb: "elems t3 b = elems t b" if "b \<noteq> a" for b using ne(9) [OF that] that by (simp add: t3_def retain_def upd_elem_def)
  let ?ids = "ids(a := 1)"
  define w where "w = t3\<lparr>elems := (elems t3)(a := elems t3 a\<lparr>erefs := 3\<rparr>)\<rparr>"
  have isw: "in_slots w = in_slots t" by (simp add: in_slots_def w_def cl)
  have pw: "pending [a] w = insert a (pending [] t)" unfolding pending_def isw by (simp add: w_def cl)
  have ew: "elems w b = elems t b" if "b \<noteq> a" for b using eb that by (simp add: w_def)
  have etw: "etick w b = etick t b" if "b \<noteq> a" for b using ew [OF that] by (simp add: etick_def ticks_def w_def cl)
  have rw: "refs_ok ?ids [a] w"
  proof -
    have "if b \<in> insert a (pending [] t) then erefs (elems w b) = 2 + ?ids b \<and> b \<notin> set (tpool w)
          else if b \<in> set (tpool w) then erefs (elems w b) = 2 \<and> ?ids b = 0 else erefs (elems w b) = ?ids b" for b
    proof (cases "b = a")
      case True
      then show ?thesis using ne(5) by (simp add: w_def cl)
    next
      case False
      have "b \<in> set (tpool w) \<longleftrightarrow> b \<in> set (tpool t)" using ne(7) False by (simp add: w_def cl)
      moreover have "if b \<in> pending [] t then erefs (elems t b) = 2 + ids b \<and> b \<notin> set (tpool t)
          else if b \<in> set (tpool t) then erefs (elems t b) = 2 \<and> ids b = 0 else erefs (elems t b) = ids b"
        using inv(1) unfolding refs_ok_def by blast
      ultimately show ?thesis using False ew [OF False] by simp
    qed
    moreover have "distinct (tpool w)" "\<not> over w" using ne(6) cl by (simp_all add: w_def)
    ultimately show ?thesis unfolding refs_ok_def pw by blast
  qed
  have plw: "places_ok [a] w"
  proof -
    have "\<forall>k i. \<forall>b \<in> set (slots w k i). eslot (elems w b) = Some (k, i)"
      using inv(2) ew na(1) unfolding places_ok_def by (simp add: w_def cl in_slots_def)
    moreover have "\<forall>b \<in> pending [a] w. \<not> elocked (elems w b)" unfolding pw using inv(2) ew ea(4)
      by (auto simp: places_ok_def w_def)
    moreover have "\<forall>b \<in> set (completeSlot w). eslot (elems w b) = None" using inv(2) ew na(2) by (auto simp: places_ok_def w_def cl)
    ultimately show ?thesis using inv(2) na unfolding places_ok_def isw by (simp add: w_def cl)
  qed
  have lw: "lastTime w = lastTime t" "point w = point t" "lastTime t3 = lastTime t" by (simp_all add: lastTime_def w_def cl)
  have ww: "wheel_ok (point w) w"
  proof -
    have "placed (point t) w k i b" if "b \<in> set (slots t k i)" for k i b
    proof -
      have "b \<noteq> a" using that na(1) by (auto simp: in_slots_def)
      moreover have "placed (point t) t k i b" using inv(4) that unfolding wheel_ok_def by blast
      ultimately show ?thesis using placed_cong [OF etw] by blast
    qed
    then show ?thesis unfolding wheel_ok_def lw by (simp add: w_def cl)
  qed
  have "timer_inv ?ids t' \<and> pending [] t' = insert a (pending [] t) \<and> etp (elems t' a) = tp \<and> called t' = called t"
  proof (cases "tp \<le> lastTime t")
    case True
    have e: "t' = w\<lparr>completeSlot := completeSlot w @ [a]\<rparr>"
      unfolding t' using True ea(1,2) lw(3) by (simp add: Dispatch_def retain_def upd_elem_def w_def)
    have p': "pending [] t' = pending [a] w" "in_slots t' = in_slots w" by (auto simp: e pending_def in_slots_def)
    have fe: "tpool t' = tpool w" "over t' = over w" "elems t' = elems w" "slots t' = slots w" "point t' = point w"
      by (simp_all add: e)
    have ete: "etick t' b = etick w b" for b by (simp add: e etick_def ticks_def)
    have "eslot (elems w a) = None" using ea(3) by (simp add: w_def)
    then have "places_ok [] t'" using plw unfolding places_ok_def p' by (auto simp: e)
    moreover have "refs_ok ?ids [] t'" using rw unfolding refs_ok_def p' fe .
    moreover have "times_ok [] t'" using inv(3) na(1) etw ew unfolding times_ok_def p'(2) isw
      by (auto simp: e w_def etick_def ticks_def cl)
    moreover have "wheel_ok (point t') t'" using ww unfolding wheel_ok_def fe placed_cong [OF ete] .
    moreover have "\<forall>b \<in> set (completeSlot t'). etp (elems t' b) \<le> lastTime t'"
      using inv(5) True ew ea(2) na(2) by (auto simp: e w_def cl lastTime_def)
    ultimately show ?thesis unfolding timer_inv_def using p'(1) pw ea(2) cl by (simp add: e w_def)
  next
    case False
    have lb: "tbegin t \<le> lastTime t" using inv(2) by (simp add: lastTime_def places_ok_def)
    have "0 < precision t" using inv(2) by (simp add: places_ok_def)
    then have "nat ((tp - tbegin t) div precision t) < 256 ^ 8" using tick_bound [of "precision t" "tp - tbegin t"] assms(4) lb False by simp
    then have "etick w a < 256 ^ 8" using ea(2) by (simp add: etick_def ticks_def w_def cl)
    then have tw: "times_ok [a] w" unfolding times_ok_def isw using inv(3) etw ew ea(2) lb False na(1)
      by (auto simp: times_ok_def w_def cl)
    have e2: "elems t3 a\<lparr>erefs := 1 + ?ids a\<rparr> = elems t3 a" using ea(1) by (cases "elems t3 a") simp
    then have u: "t3 = w\<lparr>elems := (elems w)(a := elems w a\<lparr>erefs := 1 + ?ids a\<rparr>)\<rparr>" by (simp add: w_def)
    have lt: "lastTime w < etp (elems w a)" using False ea(2) lw by (simp add: w_def)
    have "erefs (elems t3 a) = 1 + ?ids a" using ea(1) by simp
    note p = put_ok [OF rw plw tw ww this u lt t']
    have "pending [] t' = insert a (pending [] t)" unfolding pending_def p(6,7) isw by (simp add: w_def cl)
    moreover have "\<forall>b \<in> set (completeSlot t'). etp (elems t' b) \<le> lastTime t'"
      unfolding p(7,11) lastTime_def p(8-10) using inv(5) ew na(2) by (auto simp: w_def cl lastTime_def)
    moreover have "wheel_ok (point t') t'" using p(4,8) by simp
    moreover have "etp (elems t' a) = tp" "called t' = called t" using p(5) p(11) [of a] ea(2) cl by (simp_all add: w_def)
    ultimately show ?thesis unfolding timer_inv_def using p(1,2,3) by blast
  qed
  then show "timer_inv (ids(a := 1)) t'" and "pending [] t' = insert a (pending [] t)"
    and "etp (elems t' a) = tp" and "called t' = called t" by blast+
qed

text \<open>A \<open>TimerId\<close> that goes away.\<close>

lemma release_frame:
  assumes "0 < erefs (elems t a)"
  shows "same_wheel t (release a t)" and "called (release a t) = called t" and "over (release a t) = over t"
    and "b \<noteq> a \<Longrightarrow> elems (release a t) b = elems t b"
    and "elocked (elems (release a t) b) = elocked (elems t b)" and "eslot (elems (release a t) b) = eslot (elems t b)"
    and "tpool (release a t) = (if erefs (elems t a) = 1 \<and> int (length (tpool t)) < maxPoolSize t then tpool t @ [a] else tpool t)"
    and "erefs (elems (release a t) a) =
      (if erefs (elems t a) = 1 \<and> int (length (tpool t)) < maxPoolSize t then 2 else erefs (elems t a) - 1)"
  using assms by (auto simp: release_def Let_def DeleteElement_def retain_def upd_elem_def same_wheel_def)

lemma same_wheel_places:
  assumes "same_wheel t u" and "\<And>b. elocked (elems u b) = elocked (elems t b)" and "\<And>b. eslot (elems u b) = eslot (elems t b)"
  shows "places_ok X u = places_ok X t"
  unfolding places_ok_def same_wheel_pending [OF assms(1)] assms(2,3) using assms(1) by (simp add: same_wheel_def)

lemma same_wheel_times: "same_wheel t u \<Longrightarrow> times_ok X u = times_ok X t"
  by (simp add: times_ok_def same_wheel_pending same_wheel_etick) (simp add: same_wheel_def)

lemma release_id_ok:
  assumes "timer_inv ids t" and "0 < ids a"
  shows "timer_inv (ids(a := ids a - 1)) (release a t)" and "same_wheel t (release a t)" and "called (release a t) = called t"
proof -
  have inv: "refs_ok ids [] t" "places_ok [] t" "times_ok [] t" "wheel_ok (point t) t" "\<forall>a \<in> set (completeSlot t). etp (elems t a) \<le> lastTime t"
    using assms(1) by (simp_all add: timer_inv_def)
  have r: "if b \<in> pending [] t then erefs (elems t b) = 2 + ids b \<and> b \<notin> set (tpool t)
          else if b \<in> set (tpool t) then erefs (elems t b) = 2 \<and> ids b = 0 else erefs (elems t b) = ids b" for b
    using inv(1) unfolding refs_ok_def by blast
  have ra: "if a \<in> pending [] t then erefs (elems t a) = 2 + ids a else erefs (elems t a) = ids a" and na: "a \<notin> set (tpool t)"
    using r [of a] assms(2) by (auto split: if_splits)
  have pos: "0 < erefs (elems t a)" using ra assms(2) by (auto split: if_splits)
  note f = release_frame [OF pos]
  let ?u = "release a t" and ?ids = "ids(a := ids a - 1)"
  have "if b \<in> pending [] t then erefs (elems ?u b) = 2 + ?ids b \<and> b \<notin> set (tpool ?u)
          else if b \<in> set (tpool ?u) then erefs (elems ?u b) = 2 \<and> ?ids b = 0 else erefs (elems ?u b) = ?ids b" for b
  proof (cases "b = a")
    case True
    then show ?thesis using ra na assms(2) f(7,8) by (auto split: if_splits)
  next
    case False
    then have "b \<in> set (tpool ?u) \<longleftrightarrow> b \<in> set (tpool t)" using f(7) by simp
    then show ?thesis using r [of b] False f(4) [OF False] by simp
  qed
  moreover have "distinct (tpool ?u)" "\<not> over ?u" using inv(1) na f(3,7) by (simp_all add: refs_ok_def)
  ultimately have "refs_ok ?ids [] ?u" unfolding refs_ok_def same_wheel_pending [OF f(1)] by blast
  moreover have "places_ok [] ?u" "times_ok [] ?u" using inv(2,3) same_wheel_places [OF f(1,5,6)] same_wheel_times [OF f(1)] by blast+
  moreover have "point ?u = point t" "completeSlot ?u = completeSlot t" "lastTime ?u = lastTime t" "\<And>b. etp (elems ?u b) = etp (elems t b)"
    using f(1) by (simp_all add: same_wheel_def lastTime_def)
  ultimately show "timer_inv ?ids ?u" unfolding timer_inv_def using inv(4,5) same_wheel_ok [OF f(1)] by simp
  show "same_wheel t ?u" and "called ?u = called t" by (rule f(1), rule f(2))
qed

lemma StopTimer_ok:
  assumes "timer_inv ids t" and "0 < ids a" and "a \<in> in_slots t"
  shows "\<exists>t'. StopTimer a t = (True, t') \<and> timer_inv (ids(a := ids a - 1)) t' \<and> pending [] t' = pending [] t - {a} \<and> called t' = called t"
proof -
  have inv: "refs_ok ids [] t" "places_ok [] t" "times_ok [] t" "wheel_ok (point t) t" "\<forall>a \<in> set (completeSlot t). etp (elems t a) \<le> lastTime t"
    using assms(1) by (simp_all add: timer_inv_def)
  obtain k i where ki: "a \<in> set (slots t k i)" using assms(3) by (auto simp: in_slots_def)
  have ap: "a \<in> pending [] t" using assms(3) by (simp add: pending_def)
  have es: "eslot (elems t a) = Some (k, i)" "\<not> elocked (elems t a)" "distinct (slots t k i)" "a \<notin> set (completeSlot t)"
    using inv(2) ki ap assms(3) by (auto simp: places_ok_def)
  have er: "erefs (elems t a) = 2 + ids a" "a \<notin> set (tpool t)" using refs_pending [OF inv(1) ap] by simp_all
  define m where "m = (set_slot k i (remove1 a (slots t k i)) t)\<lparr>elems := (elems t)(a := elems t a\<lparr>elocked := True, erefs := ids a\<rparr>)\<rparr>"
  have c: "StopTimer a t = (True, release a m)"
  proof -
    let ?e = "elems t a"
    have "release a (release a (set_slot k i (remove1 a (slots t k i)) (t\<lparr>elems := (elems t)(a := ?e\<lparr>elocked := True\<rparr>)\<rparr>))) = m"
      using er(1) assms(2) by (simp add: release_def upd_elem_def Let_def m_def set_slot_def)
    moreover have "elem_cancel a t =
      (True, release a (release a (set_slot k i (remove1 a (slots t k i)) (t\<lparr>elems := (elems t)(a := ?e\<lparr>elocked := True\<rparr>)\<rparr>))))"
      using es(1,2) by (simp add: elem_cancel_def upd_elem_def set_slot_def Let_def)
    ultimately show ?thesis by (simp add: StopTimer_def)
  qed
  have only: "a \<notin> set (slots t k' i')" if "\<not> (k' = k \<and> i' = i)" for k' i'
    using inv(2) es(1) that by (auto simp: places_ok_def)
  have sm: "set (slots m k' i') = set (slots t k' i') - {a}" for k' i'
    using only [of k' i'] es(3) by (auto simp: m_def)
  have im: "in_slots m = in_slots t - {a}" by (auto simp: in_slots_def sm)
  have pm: "pending [] m = pending [] t - {a}" unfolding pending_def im using es(4) by (auto simp: m_def)
  have em: "elems m b = elems t b" if "b \<noteq> a" for b using that by (simp add: m_def)
  have etm: "etick m b = etick t b" for b by (simp add: etick_def ticks_def m_def)
  have "if b \<in> pending [] m then erefs (elems m b) = 2 + ids b \<and> b \<notin> set (tpool m)
          else if b \<in> set (tpool m) then erefs (elems m b) = 2 \<and> ids b = 0 else erefs (elems m b) = ids b" for b
  proof (cases "b = a")
    case True
    then show ?thesis using er(2) by (simp add: pm) (simp add: m_def)
  next
    case False
    moreover have "if b \<in> pending [] t then erefs (elems t b) = 2 + ids b \<and> b \<notin> set (tpool t)
          else if b \<in> set (tpool t) then erefs (elems t b) = 2 \<and> ids b = 0 else erefs (elems t b) = ids b"
      using inv(1) unfolding refs_ok_def by blast
    ultimately show ?thesis unfolding pm em [OF False] by (simp add: m_def)
  qed
  moreover have "distinct (tpool m)" "\<not> over m" using inv(1) by (simp_all add: refs_ok_def m_def)
  ultimately have rm: "refs_ok ids [] m" unfolding refs_ok_def by blast
  have "\<forall>k' i'. distinct (slots m k' i') \<and> (\<forall>b \<in> set (slots m k' i'). eslot (elems m b) = Some (k', i'))"
    using inv(2) es(3) by (auto simp: places_ok_def m_def)
  then have plm: "places_ok [] m" using inv(2) unfolding places_ok_def pm im by (auto simp: m_def)
  have tm: "times_ok [] m" using inv(3) unfolding times_ok_def im etm by (auto simp: m_def)
  have pt: "point m = point t" by (simp add: m_def)
  have wm: "wheel_ok (point m) m" using inv(4) unfolding wheel_ok_def sm pt placed_cong [OF etm] by blast
  have "timer_inv ids m" unfolding timer_inv_def using rm plm tm wm inv(5) es(4) by (auto simp: m_def lastTime_def)
  note r = release_id_ok [OF this assms(2)]
  have "pending [] (release a m) = pending [] t - {a}" unfolding same_wheel_pending(1) [OF r(2)] by (rule pm)
  moreover have "called (release a m) = called t" using r(3) by (simp add: m_def)
  ultimately show ?thesis using c r(1) by blast
qed

subsection \<open>Runs\<close>

text \<open>Timers are started, stopped while they wait in the wheel, forgotten, and swept, with the counts of
  their ids alongside. The allocator returns an element nobody refers to. A sweep comes at most 255 ticks after the one before.\<close>

inductive tstep :: "(nat \<Rightarrow> nat) \<times> timer \<Rightarrow> (nat \<Rightarrow> nat) \<times> timer \<Rightarrow> bool" where
  start: "erefs (elems t new) = 0 \<Longrightarrow> tp < tbegin t + 2 ^ 63 \<Longrightarrow> StartTimer new tp t = (a, t') \<Longrightarrow> tstep (ids, t) (ids(a := 1), t')"
| stop: "0 < ids a \<Longrightarrow> a \<in> in_slots t \<Longrightarrow> StopTimer a t = (r, t') \<Longrightarrow> tstep (ids, t) (ids(a := ids a - 1), t')"
| forget: "0 < ids a \<Longrightarrow> tstep (ids, t) (ids(a := ids a - 1), release a t)"
| run: "lastTime t \<le> now \<Longrightarrow> ticks now t \<le> point t + 255 \<Longrightarrow> ticks now t \<le> 256 ^ 8 \<Longrightarrow> RunOnce now t = Some t' \<Longrightarrow>
    tstep (ids, t) (ids, t')"

definition tstart :: "int \<Rightarrow> int \<Rightarrow> (nat \<Rightarrow> nat) \<times> timer" where
  "tstart p now = (\<lambda>_. 0, SetPrecision p (Timer_new now))"

lemma tstart_inv: "tstart p now = (ids, t) \<Longrightarrow> timer_inv ids t"
  by (auto simp: tstart_def timer_inv_def refs_ok_def places_ok_def times_ok_def wheel_ok_def pending_def in_slots_def
      Timer_new_def SetPrecision_def Let_def)

lemma tstep_inv: "tstep s s' \<Longrightarrow> timer_inv (fst s) (snd s) \<Longrightarrow> timer_inv (fst s') (snd s')"
proof (induction rule: tstep.induct)
  case (start t new tp a t' ids)
  then show ?case using StartTimer_ok(1) [of ids t new tp a t'] unfolding fst_conv snd_conv by blast
next
  case (stop ids a t r t')
  then show ?case using StopTimer_ok [of ids t a] unfolding fst_conv snd_conv by (metis prod.inject)
next
  case (forget ids a t)
  then show ?case using release_id_ok(1) [of ids t a] unfolding fst_conv snd_conv by blast
next
  case (run t now t' ids)
  then show ?case using RunOnce_ok [of ids t now] by auto
qed

lemma treach_inv:
  assumes "tstep\<^sup>*\<^sup>* (tstart p now) s"
  shows "timer_inv (fst s) (snd s)"
  using assms
proof (induction rule: rtranclp_induct)
  case base
  then show ?case using tstart_inv [of p now] by simp
next
  case (step y z)
  then show ?case using tstep_inv by blast
qed

text \<open>C7: A timer that is swept at least every 255 ticks is exact: a sweep calls every element that is due, once, and no element
  before its time; what it calls and what it leaves are together what was waiting, what it leaves lies in the current tick or later,
  and no reference is released that was not held.\<close>

theorem timer_exact:
  assumes "tstep\<^sup>*\<^sup>* (tstart p now0) (ids, t)" and "lastTime t \<le> now" and "ticks now t \<le> point t + 255" and "ticks now t \<le> 256 ^ 8"
  shows "\<exists>t' F. RunOnce now t = Some t' \<and> called t' = called t @ map (\<lambda>a. (a, now)) F \<and> distinct F \<and>
     set F \<inter> pending [] t' = {} \<and> set F \<union> pending [] t' = pending [] t \<and>
     (\<forall>a \<in> set F. etp (elems t a) \<le> now) \<and> (\<forall>a \<in> pending [] t'. ticks now t \<le> etick t a) \<and> \<not> over t'"
proof -
  have "timer_inv ids t" using treach_inv [OF assms(1)] by simp
  from RunOnce_ok [OF this assms(2-4)] show ?thesis unfolding sweep_post_def timer_inv_def refs_ok_def by blast
qed

theorem timer_exact_witness:
  "\<exists>t t'. tstep\<^sup>*\<^sup>* (tstart 100000 0) ((\<lambda>_. 0)(7 := 1), t) \<and> etp (elems t 7) = 1500000 \<and> RunOnce 2000000 t = Some t' \<and>
     (7, 2000000) \<in> set (called t')"
proof -
  define t0 where "t0 = SetPrecision 100000 (Timer_new 0)"
  have i0: "timer_inv (\<lambda>_. 0) t0" using tstart_inv [of 100000 0] by (simp add: tstart_def t0_def)
  have e0: "erefs (elems t0 7) = 0" "tbegin t0 = 0" "precision t0 = 100000" "point t0 = 0" "tpool t0 = []"
    by (simp_all add: t0_def SetPrecision_def Timer_new_def)
  obtain a t where st: "StartTimer 7 1500000 t0 = (a, t)" by (metis surj_pair)
  have a: "a = 7" using st e0(5) by (simp add: StartTimer_def NewElement_def Let_def)
  note s = StartTimer_ok [OF i0 e0(1) st]
  have fr: "point t = 0" "tbegin t = 0" "precision t = 100000" using st e0(2-5)
    by (auto simp: StartTimer_def NewElement_def Let_def Dispatch_def retain_def upd_elem_def set_slot_def split: if_splits prod.splits)
  have reach: "tstep\<^sup>*\<^sup>* (tstart 100000 0) ((\<lambda>_. 0)(7 := 1), t)"
    using tstep.start [OF e0(1) _ st, of "\<lambda>_. 0"] e0(2) a by (auto simp: tstart_def t0_def)
  have tp: "etp (elems t 7) = 1500000" "7 \<in> pending [] t" using s(3,5) e0(2) a by simp_all
  obtain t' F where r: "RunOnce 2000000 t = Some t'" "called t' = called t @ map (\<lambda>a. (a, 2000000)) F" "set F \<union> pending [] t' = pending [] t"
    "\<forall>a \<in> pending [] t'. ticks 2000000 t \<le> etick t a"
    using timer_exact [OF reach, of 2000000] by (auto simp: lastTime_def ticks_def fr)
  have "7 \<notin> pending [] t'" using r(4) tp(1) by (force simp: etick_def ticks_def fr)
  then have "7 \<in> set F" using r(3) tp(2) by blast
  then show ?thesis using reach tp(1) r(1,2) by auto
qed

subsection \<open>Where the timer is not exact\<close>

lemma sweep_empty_level0:
  assumes "\<forall>j. slots t 0 j = []" and "i \<le> 255" and "cnt 0 = i" and "255 < delta"
  shows "sweep now 0 delta i 0 cnt [] t = sweep now 0 delta 255 0 (cnt(0 := 255)) [] t"
  using assms(2,3)
proof (induction "255 - i" arbitrary: i cnt)
  case 0
  then have "i = 255" by simp
  then have "cnt(0 := 255) = cnt" using 0(3) by auto
  then show ?case using \<open>i = 255\<close> by simp
next
  case (Suc n)
  have i: "i < 255" using Suc.hyps(2) by simp
  have b: "byte 0 i = i" using i by (simp add: byte_def)
  have tr: "Trigger now 0 i t = t" using assms(1) by (simp add: Trigger_def set_slot_def fun_upd_idem)
  have ca: "cascade i 0 i c [] t = Some (c, [], t)" for c by (subst cascade.simps, cases "i = 0") simp_all
  have na: "next_add 0 p = 1" for p by (simp add: next_add_def additions_def)
  have "sweep now 0 delta i 0 cnt [] t = sweep now 0 delta (Suc i) 0 (cnt(0 := Suc i)) [] t"
    using i Suc.prems(2) assms(4) by (subst sweep.simps) (simp add: Let_def b tr ca na)
  also have "\<dots> = sweep now 0 delta 255 0 ((cnt(0 := Suc i))(0 := 255)) [] t"
    using Suc.hyps i by (intro Suc.hyps(1)) simp_all
  finally show ?case by simp
qed

definition waiting_at :: "nat \<Rightarrow> nat \<Rightarrow> int \<Rightarrow> timer \<Rightarrow> timer" where
  "waiting_at k i tp t = (set_slot k i [7] t)
     \<lparr>elems := (elems t)(7 := \<lparr>etp = tp, elocked = False, eslot = Some (k, i), erefs = 3\<rparr>)\<rparr>"

lemma start_7:
  assumes "tpool t = []" and "lastTime t < tp" and "find_level 8 (nat ((tp - lastTime t) div precision t)) (point t) = (k, i)" and "slots t k i = []"
  shows "StartTimer 7 tp t = (7, waiting_at k i tp t)"
  using assms by (cases "elems t 7") (simp add: StartTimer_def NewElement_def Let_def Dispatch_def retain_def upd_elem_def
      elem_init_def waiting_at_def set_slot_def lastTime_def numeral_3_eq_3)

lemma find_level_examples: "find_level 8 500 0 = (1, 1)" "find_level 8 255 (Suc 0) = (0, 0)"
proof -
  have e: "(8 :: nat) = Suc (Suc (Suc (Suc (Suc (Suc (Suc (Suc 0)))))))" by simp
  show "find_level 8 500 0 = (1, 1)" "find_level 8 255 (Suc 0) = (0, 0)" unfolding e find_level.simps by (simp_all add: byte_def)
qed

text \<open>Two ways to be called early. When a sweep comes 257 ticks after the last one, it reaches the second wheel and calls whatever
  is in the slot it passes: a timer of 500 ticks is called after 257. And a timer started while the sweep is under way,
  after \<open>point_\<close> was moved on and before the slots are visited, may land in a slot the sweep still has to
  visit: a timer of 255 ticks is called at once.\<close>

lemma timer_fires_early:
  "(\<exists>t t'. StartTimer 7 50000000 (Timer_new 0) = (7, t) \<and> RunOnce 25700000 t = Some t' \<and> called t' = [(7, 25700000)]) \<and>
   (\<exists>t ds t'. StartTimer 7 25600000 ((Timer_new 0)\<lparr>point := 1\<rparr>) = (7, t) \<and> sweep 100000 0 1 0 0 (\<lambda>_. 0) [] t = Some (ds, t') \<and>
      called t' = [(7, 100000)])"
proof
  let ?n = "Timer_new 0"
  note lv = find_level_examples
  define t where "t = waiting_at 1 1 50000000 ?n"
  have st: "StartTimer 7 50000000 ?n = (7, t)"
    unfolding t_def by (rule start_7) (simp_all add: Timer_new_def lastTime_def lv)
  have tf: "completeSlot t = []" "ticks 25700000 t = 257" "point t = 0" "slots t 1 1 = [7]" "\<forall>j. slots t 0 j = []" "called t = []"
    "erefs (elems t 7) = 3" "\<not> elocked (elems t 7)"
    by (simp_all add: t_def waiting_at_def Timer_new_def ticks_def set_slot_def)
  let ?w = "t\<lparr>point := 257\<rparr>" and ?c = "(\<lambda>_. 0)(0 := 255) :: nat \<Rightarrow> nat"
  have w0: "Trigger now 0 255 ?w = ?w" for now using tf(5) by (simp add: Trigger_def set_slot_def fun_upd_idem)
  have b: "byte 0 255 = 255" "byte (Suc 0) 256 = Suc 0" by (simp_all add: byte_def)
  have n1: "next_add (Suc 0) 255 = 1" "next_add (Suc 0) 256 = 256" by (simp_all add: next_add_def additions_def byte_def Let_def)
  have ca: "cascade 255 0 255 c [] ?w = Some (c, [], ?w)" "cascade 256 (Suc 0) (Suc 0) c [] u = Some (c, [], u)" for c u
    by (subst cascade.simps, simp)+
  have s255: "sweep 25700000 0 257 255 0 ?c [] ?w = sweep 25700000 0 257 256 1 (?c(0 := 256)) [] ?w"
    by (subst sweep.simps) (simp add: Let_def b w0 ca n1)
  let ?u = "Trigger 25700000 1 1 ?w"
  have s256: "sweep 25700000 0 257 256 1 (?c(0 := 256)) [] ?w = Some ([], ?u)"
    by (subst sweep.simps) (simp add: Let_def b ca n1 sweep.simps [of _ _ _ 512])
  have fu: "fire 25700000 7 (set_slot 1 1 [] ?w) = ?u" using tf(4) by (simp add: Trigger_def)
  have cu: "called ?u = [(7, 25700000)]"
    unfolding fu [symmetric] using fire_frame(2) [of "set_slot 1 1 [] ?w" 7 1 25700000] tf(6,7,8) by simp
  have tc: "Trigger_complete 25700000 t = t" unfolding Trigger_complete_def tf(1) using tf(1) by (cases t) simp
  have "RunOnce 25700000 t = Some ?u"
    using sweep_empty_level0 [of ?w 0 "\<lambda>_. 0" 257 25700000] s255 s256 tf
    by (simp add: RunOnce_def tc Let_def)
  with cu show "\<exists>t t'. StartTimer 7 50000000 (Timer_new 0) = (7, t) \<and> RunOnce 25700000 t = Some t' \<and> called t' = [(7, 25700000)]"
    using st by blast
  define v where "v = waiting_at 0 0 25600000 (?n\<lparr>point := 1\<rparr>)"
  have sv: "StartTimer 7 25600000 (?n\<lparr>point := 1\<rparr>) = (7, v)"
    unfolding v_def by (rule start_7) (simp_all add: Timer_new_def lastTime_def lv)
  have vf: "slots v 0 0 = [7]" "called v = []" "erefs (elems v 7) = 3" "\<not> elocked (elems v 7)"
    by (simp_all add: v_def waiting_at_def Timer_new_def)
  let ?v = "Trigger 100000 0 0 v"
  have "sweep 100000 0 1 0 0 (\<lambda>_. 0) [] v = Some ([], ?v)"
    by (subst sweep.simps) (simp add: Let_def byte_def cascade.simps [of 0] next_add_def additions_def sweep.simps [of _ _ "Suc 0" "Suc 0"])
  moreover have "called ?v = [(7, 100000)]"
    using fire_frame(2) [of "set_slot 0 0 [] v" 7 1 100000] vf by (simp add: Trigger_def)
  ultimately show "\<exists>t ds t'. StartTimer 7 25600000 (?n\<lparr>point := 1\<rparr>) = (7, t) \<and> sweep 100000 0 1 0 0 (\<lambda>_. 0) [] t = Some (ds, t') \<and>
      called t' = [(7, 100000)]" using sv by blast
qed

text \<open>Stopping a timer that is no longer in the wheel, because it was late when it was started, releases the reference
  that the sweep releases again.\<close>

lemma stop_releases_twice:
  "\<exists>t u v. StartTimer 7 0 (Timer_new 0) = (7, t) \<and> StopTimer 7 t = (True, u) \<and> RunOnce 0 u = Some v \<and> called v = [] \<and> over v"
  by (simp add: StartTimer_def NewElement_def Timer_new_def Let_def Dispatch_def retain_def upd_elem_def elem_init_def lastTime_def
      StopTimer_def elem_cancel_def release_def DeleteElement_def RunOnce_def Trigger_complete_def fire_def elem_call_def ticks_def)

end
