(* ===== verification/Stream_Pool.thy ===== *)
theory Stream_Pool
  imports Signals "HOL-Library.Multiset"
begin

text \<open>
  \<open>StreamPool\<close> of \<open>src/core/Stream.cpp\<close>: waiting on any of several signals, choosing the class of a new signal,
  creating, acquiring and releasing queues. Signals live at addresses; agents and queues are numbers. Not in the repository
  and therefore parameters: \<open>IsPowerOfTwo\<close>, what an agent answers, and the constructors of the two kinds of queue.
\<close>

subsection \<open>Waiting on any of several signals\<close>

type_synonym sig_store = "nat \<Rightarrow> signal"

definition at :: "nat \<Rightarrow> (signal \<Rightarrow> signal) \<Rightarrow> sig_store \<Rightarrow> sig_store" where
  "at a f st = st(a := f (st a))"

definition retain_all :: "nat list \<Rightarrow> sig_store \<Rightarrow> sig_store" where
  "retain_all as st = foldl (\<lambda>s a. at a Retain s) st as"

definition release_all :: "nat list \<Rightarrow> sig_store \<Rightarrow> sig_store" where
  "release_all as st = foldl (\<lambda>s a. at a Release s) st as"

text \<open>\<open>prior = Max(prior, signals[i]->waiting_++)\<close>\<close>

fun count_waiters :: "nat list \<Rightarrow> u32 \<Rightarrow> sig_store \<Rightarrow> u32 \<times> sig_store" where
  "count_waiters [] prior st = (prior, st)"
| "count_waiters (a # as) prior st =
     count_waiters as (max prior (waiting (st a))) (at a (\<lambda>s. s\<lparr>waiting := waiting s + 1\<rparr>) st)"

definition uncount_waiters :: "nat list \<Rightarrow> sig_store \<Rightarrow> sig_store" where
  "uncount_waiters as st = foldl (\<lambda>s a. at a (\<lambda>x. x\<lparr>waiting := waiting x - 1\<rparr>) s) st as"

text \<open>What one round sees of a signal: whether it is valid, whether its event reports a fatal memory fault, its value.\<close>

record sight =
  svalid :: bool
  sfault :: bool
  svalue :: i64w

text \<open>One pass over the signals; \<open>None\<close> when no signal ends the wait. The index \<open>-1\<close> is an error.\<close>

fun scan :: "nat \<Rightarrow> (sight \<times> signal_condition \<times> signal_value_t) list \<Rightarrow> (u32 \<times> i64w option) option" where
  "scan i [] = None"
| "scan i ((g, c, v) # xs) =
     (if \<not> svalid g then Some (- 1, None)
      else if sfault g then Some (of_nat i, None)
      else if c = CONDITION_OTHER then Some (- 1, None)
      else if condition_met c (svalue g) v then Some (of_nat i, Some (svalue g))
      else scan (Suc i) xs)"

datatype any_act = AnySpin | AnyWait u32

definition any_hint :: "u32 \<Rightarrow> (nat \<Rightarrow> bool) \<Rightarrow> nat list \<Rightarrow> wait_state \<Rightarrow> wait_state" where
  "any_hint prior has_event as hint =
     (let h1 = (if prior \<noteq> 0 then ACTIVE else hint)
      in if h1 \<noteq> ACTIVE \<and> (\<exists>a \<in> set as. \<not> has_event a) then ACTIVE else h1)"

definition any_act :: "wait_state \<Rightarrow> nat \<Rightarrow> nat \<Rightarrow> any_act" where
  "any_act hint limit t = (if hint = ACTIVE \<or> t < kMaxElapsed then AnySpin else AnyWait (wait_ms limit t))"

text \<open>The loop: \<open>see k\<close> is what round \<open>k\<close> sees, \<open>time k\<close> the time since the start after it, \<open>f\<close> the fuel.\<close>

fun any_loop :: "nat \<Rightarrow> (nat \<Rightarrow> (sight \<times> signal_condition \<times> signal_value_t) list) \<Rightarrow> (nat \<Rightarrow> nat) \<Rightarrow> nat \<Rightarrow> wait_state \<Rightarrow> nat
    \<Rightarrow> ((u32 \<times> i64w option) \<times> any_act list) option" where
  "any_loop 0 see time limit hint k = None"
| "any_loop (Suc f) see time limit hint k =
     (case scan 0 (see k) of
        Some r \<Rightarrow> Some (r, [])
      | None \<Rightarrow> if limit < time k then Some ((- 1, None), [])
                else map_option (\<lambda>(r, acts). (r, any_act hint limit (time k) # acts)) (any_loop f see time limit hint (Suc k)))"

definition WaitAnySignal :: "nat \<Rightarrow> nat list \<Rightarrow> (nat \<Rightarrow> (sight \<times> signal_condition \<times> signal_value_t) list) \<Rightarrow> (nat \<Rightarrow> nat) \<Rightarrow> nat
    \<Rightarrow> (nat \<Rightarrow> bool) \<Rightarrow> wait_state \<Rightarrow> sig_store \<Rightarrow> (((u32 \<times> i64w option) \<times> any_act list) \<times> sig_store) option" where
  "WaitAnySignal f sigs see time limit has_event hint st =
     (let st1 = retain_all sigs st;
          (prior, st2) = count_waiters sigs 0 st1
      in map_option (\<lambda>r. (r, release_all sigs (uncount_waiters sigs st2)))
           (any_loop f see time limit (any_hint prior has_event sigs hint) 0))"

subsection \<open>Creating signals and queues\<close>

datatype status = SUCCESS | ERROR | ERROR_INVALID_ARGUMENT
datatype signal_class = Default_Signal bool | Interrupt_Signal

text \<open>\<open>use_interrupt\<close> and \<open>cpus\<close>: the runtime's \<open>use_interrupt_wait_\<close> and its processor agents.\<close>

definition CreateSignal :: "bool \<Rightarrow> nat list \<Rightarrow> nat list \<Rightarrow> u64 \<Rightarrow> status + signal_class" where
  "CreateSignal use_interrupt cpus consumers attributes =
     (let enable_ipc = (attributes AND 2 \<noteq> 0);
          use_default = (enable_ipc \<or> attributes AND 1 \<noteq> 0 \<or> \<not> use_interrupt)
      in if \<not> use_default \<and> consumers \<noteq> []
         then if card (set consumers) \<noteq> length consumers then Inl ERROR_INVALID_ARGUMENT
              else if foldl (\<lambda>b c. b \<and> c \<notin> set consumers) True cpus then Inr (Default_Signal enable_ipc) else Inr Interrupt_Signal
         else if use_default then Inr (Default_Signal enable_ipc) else Inr Interrupt_Signal)"

datatype queue_obj = Hard_Queue nat u32 | Soft_Queue u32

text \<open>\<open>None\<close>: an assertion fails or a constructor throws. \<open>agent_type\<close> is what the agent reports as its queue type, \<open>built\<close> says
  whether the constructor of the hardware queue returns.\<close>

definition CreateQueue :: "(u32 \<Rightarrow> bool) \<Rightarrow> (nat \<Rightarrow> u32 \<Rightarrow> bool) \<Rightarrow> (nat \<Rightarrow> nat) \<Rightarrow> nat option \<Rightarrow> u32 \<Rightarrow> nat \<Rightarrow> (status + queue_obj) option" where
  "CreateQueue IsPowerOfTwo built agent_type agent sz type =
     (if sz = 0 \<or> \<not> IsPowerOfTwo sz \<or> 2 < type then Some (Inl ERROR_INVALID_ARGUMENT)
      else case agent of
        Some g \<Rightarrow> guarded (agent_type g = 1 \<and> type \<noteq> 1 \<and> built g sz) (Some (Inr (Hard_Queue g sz)))
      | None \<Rightarrow> Some (Inr (Soft_Queue sz)))"

subsection \<open>The queue pool\<close>

record queue_info =
  qagent :: "nat option"
  ref_count :: int
  hostcallBuffer :: bool

record stream_pool =
  queue_pool :: "(nat \<times> queue_info) list"        \<comment> \<open>in the order of the map\<close>
  queues :: "nat \<rightharpoonup> queue_obj"
  qdestroyed :: "nat list"

definition StreamPool_new :: stream_pool where
  "StreamPool_new = \<lparr>queue_pool = [], queues = Map.empty, qdestroyed = []\<rparr>"

fun pool_insert :: "nat \<Rightarrow> queue_info \<Rightarrow> (nat \<times> queue_info) list \<Rightarrow> (nat \<times> queue_info) list" where
  "pool_insert q i [] = [(q, i)]"
| "pool_insert q i (e # m) = (if q < fst e then (q, i) # e # m else if q = fst e then (q, (snd e)\<lparr>ref_count := 1\<rparr>) # m else e # pool_insert q i m)"

definition free_entry :: "nat option \<Rightarrow> (nat \<times> queue_info) list \<Rightarrow> nat option" where
  "free_entry agent m = map_option fst (find (\<lambda>e. qagent (snd e) = agent \<and> \<not> 0 < ref_count (snd e)) m)"

text \<open>\<open>max_size g\<close>: the answer to \<open>HSA_AGENT_INFO_QUEUE_MAX_SIZE\<close>, \<open>None\<close> when the query fails; \<open>new\<close>: the address of a new
  queue. The result is \<open>None\<close> when a null agent is asked or an assertion fails.\<close>

definition AcquireQueue :: "(u32 \<Rightarrow> bool) \<Rightarrow> (nat \<Rightarrow> u32 \<Rightarrow> bool) \<Rightarrow> (nat \<Rightarrow> nat) \<Rightarrow> (nat \<Rightarrow> u32 option) \<Rightarrow> nat \<Rightarrow> nat option \<Rightarrow> u32 \<Rightarrow> stream_pool
    \<Rightarrow> ((status + nat) \<times> stream_pool) option" where
  "AcquireQueue pow2 built agent_type max_size new agent hint p =
     (case free_entry agent (queue_pool p) of
        Some q \<Rightarrow> Some (Inr q, p)
      | None \<Rightarrow> (case agent of None \<Rightarrow> None
          | Some g \<Rightarrow> (case max_size g of
              None \<Rightarrow> Some (Inl ERROR, p)
            | Some mx \<Rightarrow> (case CreateQueue pow2 built agent_type agent (if mx < hint then mx else hint) 0 of
                None \<Rightarrow> None
              | Some (Inl e) \<Rightarrow> Some (Inl e, p)
              | Some (Inr ob) \<Rightarrow> Some (Inr new, p\<lparr>queues := (queues p)(new \<mapsto> ob),
                    queue_pool := pool_insert new \<lparr>qagent = None, ref_count = 1, hostcallBuffer = False\<rparr> (queue_pool p)\<rparr>)))))"

definition ReleaseQueue :: "nat \<Rightarrow> stream_pool \<Rightarrow> stream_pool option" where
  "ReleaseQueue q p =
     (case map_of (queue_pool p) q of
        None \<Rightarrow> None
      | Some i \<Rightarrow> guarded (0 < ref_count i)
          (let n = ref_count i - 1
           in Some (if n \<noteq> 0 then p\<lparr>queue_pool := map (\<lambda>e. if fst e = q then (q, i\<lparr>ref_count := n\<rparr>) else e) (queue_pool p)\<rparr>
                    else p\<lparr>queues := (queues p)(q := None), qdestroyed := qdestroyed p @ [q],
                           queue_pool := filter (\<lambda>e. fst e \<noteq> q) (queue_pool p)\<rparr>)))"

subsection \<open>Waiting leaves the signals as they were\<close>

lemma foldl_at: "foldl (\<lambda>s a. at a f s) st as = (\<lambda>a. (f ^^ count_list as a) (st a))"
proof (induction as arbitrary: st)
  case (Cons b bs)
  show ?case unfolding foldl_Cons Cons.IH by (auto simp: at_def funpow_swap1)
qed simp

lemma waiting_pow:
  "((\<lambda>s. s\<lparr>waiting := waiting s + 1\<rparr>) ^^ n) s = s\<lparr>waiting := waiting s + of_nat n\<rparr>"
  "((\<lambda>s. s\<lparr>waiting := waiting s - 1\<rparr>) ^^ n) s = s\<lparr>waiting := waiting s - of_nat n\<rparr>"
  by (induction n) (auto simp: algebra_simps)

lemma count_waiters_store: "snd (count_waiters as prior st) = (\<lambda>a. ((\<lambda>s. s\<lparr>waiting := waiting s + 1\<rparr>) ^^ count_list as a) (st a))"
proof (induction as prior st rule: count_waiters.induct)
  case (2 a as prior st)
  show ?case unfolding count_waiters.simps 2 waiting_pow by (rule ext) (simp add: at_def algebra_simps)
qed simp

lemma Retain_pow: "(Retain ^^ n) s = s\<lparr>retained := retained s + of_nat n\<rparr>"
  by (induction n) (auto simp: Retain_def algebra_simps)

lemma Release_pow:
  "0 < unat (retained s) \<Longrightarrow> unat (retained s) + n < 2 ^ 32 \<Longrightarrow> (Release ^^ n) (s\<lparr>retained := retained s + of_nat n\<rparr>) = s"
proof (induction n)
  case (Suc n)
  have "unat (retained s + of_nat n :: u32) = unat (retained s) + n"
    using Suc.prems(2) by (simp add: unat_word_ariths unat_of_nat take_bit_nat_eq_self)
  then have "retained s + of_nat n \<noteq> 0" using Suc.prems(1) by (metis add_is_0 less_numeral_extra(3) unat_0)
  then have "Release (s\<lparr>retained := retained s + of_nat (Suc n)\<rparr>) = s\<lparr>retained := retained s + of_nat n\<rparr>"
    by (simp add: Release_def Let_def)
  then show ?case using Suc by (simp only: funpow_Suc_right o_apply)
qed simp

definition held :: "nat list \<Rightarrow> sig_store \<Rightarrow> bool" where
  "held sigs st \<longleftrightarrow> (\<forall>a \<in> set sigs. 0 < unat (retained (st a)) \<and> unat (retained (st a)) + length sigs < 2 ^ 32)"

lemma wait_any_store:
  assumes "held sigs st"
  shows "release_all sigs (uncount_waiters sigs (snd (count_waiters sigs p (retain_all sigs st)))) = st"
proof
  fix a
  let ?n = "count_list sigs a"
  show "release_all sigs (uncount_waiters sigs (snd (count_waiters sigs p (retain_all sigs st)))) a = st a"
  proof (cases "a \<in> set sigs")
    case True
    then have "0 < unat (retained (st a))" "unat (retained (st a)) + ?n < 2 ^ 32"
      using assms count_le_length [of sigs a] by (force simp: held_def)+
    then show ?thesis
      by (simp add: release_all_def uncount_waiters_def retain_all_def foldl_at count_waiters_store waiting_pow Retain_pow Release_pow)
  next
    case False
    then show ?thesis by (simp add: release_all_def uncount_waiters_def retain_all_def foldl_at count_waiters_store count_list_0_iff)
  qed
qed

lemma prior_mono: "p \<le> fst (count_waiters as p st)"
proof (induction as p st rule: count_waiters.induct)
  case (2 a as prior st)
  have "prior \<le> max prior (waiting (st a))" by simp
  then show ?case using 2 unfolding count_waiters.simps by (rule order_trans)
qed simp

lemma prior_pos: "a \<in> set as \<Longrightarrow> waiting (st a) \<noteq> 0 \<Longrightarrow> fst (count_waiters as p st) \<noteq> 0"
proof (induction as p st rule: count_waiters.induct)
  case (2 b as prior st)
  show ?case
  proof (cases "waiting (st b) = 0")
    case True
    then have "a \<in> set as" "waiting (at b (\<lambda>s. s\<lparr>waiting := waiting s + 1\<rparr>) st a) \<noteq> 0" using 2(2,3) by (auto simp: at_def)
    then show ?thesis using 2(1) unfolding count_waiters.simps by blast
  next
    case False
    then have "0 < max prior (waiting (st b))" by (simp add: word_gt_0 less_max_iff_disj)
    then show ?thesis using prior_mono [of "max prior (waiting (st b))" as "at b (\<lambda>s. s\<lparr>waiting := waiting s + 1\<rparr>) st"]
      unfolding count_waiters.simps by auto
  qed
qed simp

subsection \<open>What waiting returns\<close>

text \<open>A signal that neither ends the wait nor is in error.\<close>

definition quiet :: "sight \<times> signal_condition \<times> signal_value_t \<Rightarrow> bool" where
  "quiet x = (case x of (g, c, v) \<Rightarrow> svalid g \<and> \<not> sfault g \<and> c \<noteq> CONDITION_OTHER \<and> \<not> condition_met c (svalue g) v)"

text \<open>What the first signal that is not quiet makes of the wait.\<close>

definition verdict :: "nat \<Rightarrow> sight \<times> signal_condition \<times> signal_value_t \<Rightarrow> u32 \<times> i64w option" where
  "verdict i x = (case x of (g, c, v) \<Rightarrow>
     if svalid g \<and> sfault g then (of_nat i, None)
     else if svalid g \<and> c \<noteq> CONDITION_OTHER then (of_nat i, Some (svalue g)) else (- 1, None))"

lemma scan_None: "scan i xs = None \<longleftrightarrow> (\<forall>x \<in> set xs. quiet x)"
  by (induction i xs rule: scan.induct) (auto simp: quiet_def)

lemma scan_Some:
  "scan i xs = Some r \<Longrightarrow> \<exists>n < length xs. (\<forall>m < n. quiet (xs ! m)) \<and> \<not> quiet (xs ! n) \<and> r = verdict (i + n) (xs ! n)"
proof (induction i xs rule: scan.induct)
  case (2 i g c v xs)
  show ?case
  proof (cases "quiet (g, c, v)")
    case True
    then have "scan (Suc i) xs = Some r" using 2(2) by (simp add: quiet_def)
    moreover have q: "svalid g" "\<not> sfault g" "c \<noteq> CONDITION_OTHER" "\<not> condition_met c (svalue g) v" using True by (simp_all add: quiet_def)
    ultimately obtain n where n: "n < length xs" "\<forall>m < n. quiet (xs ! m)" "\<not> quiet (xs ! n)" "r = verdict (Suc i + n) (xs ! n)"
      using 2(1) by auto
    have "\<forall>m < Suc n. quiet (((g, c, v) # xs) ! m)" using n(2) True by (auto simp: less_Suc_eq_0_disj)
    then show ?thesis using n by (intro exI [of _ "Suc n"]) simp
  next
    case False
    then have "r = verdict i (g, c, v)" using 2(2) by (auto simp: quiet_def verdict_def split: if_splits)
    then show ?thesis using False by (intro exI [of _ 0]) simp
  qed
qed simp

lemma any_loop_returns:
  assumes "limit < time (k + d)"
  shows "\<exists>r acts j. any_loop (Suc d) see time limit hint k = Some (r, acts) \<and> k \<le> j \<and> j \<le> k + d \<and>
    (\<forall>l. k \<le> l \<and> l < j \<longrightarrow> (\<forall>x \<in> set (see l). quiet x)) \<and>
    (scan 0 (see j) = Some r \<or> (scan 0 (see j) = None \<and> limit < time j \<and> r = (- 1, None))) \<and>
    (hint = ACTIVE \<longrightarrow> set acts \<subseteq> {AnySpin})"
  using assms
proof (induction d arbitrary: k)
  case 0
  then show ?case by (cases "scan 0 (see k)") (auto intro!: exI [of _ k])
next
  case (Suc d)
  show ?case
  proof (cases "scan 0 (see k)")
    case (Some r)
    then show ?thesis by (auto intro!: exI [of _ k])
  next
    case None
    show ?thesis
    proof (cases "limit < time k")
      case True
      then show ?thesis using None by (auto intro!: exI [of _ k])
    next
      case False
      obtain r acts j where r: "any_loop (Suc d) see time limit hint (Suc k) = Some (r, acts)" "Suc k \<le> j" "j \<le> Suc k + d"
        "\<forall>l. Suc k \<le> l \<and> l < j \<longrightarrow> (\<forall>x \<in> set (see l). quiet x)"
        "scan 0 (see j) = Some r \<or> (scan 0 (see j) = None \<and> limit < time j \<and> r = (- 1, None))" "hint = ACTIVE \<longrightarrow> set acts \<subseteq> {AnySpin}"
        using Suc.IH [of "Suc k"] Suc.prems by auto
      have "any_loop (Suc (Suc d)) see time limit hint k = Some (r, any_act hint limit (time k) # acts)"
        using None False r(1) by (subst any_loop.simps) simp
      moreover have "\<forall>l. k \<le> l \<and> l < j \<longrightarrow> (\<forall>x \<in> set (see l). quiet x)"
        using r(4) None scan_None [of 0 "see k"] by (metis Suc_leI le_neq_implies_less)
      moreover have "hint = ACTIVE \<longrightarrow> set (any_act hint limit (time k) # acts) \<subseteq> {AnySpin}" using r(6) by (simp add: any_act_def)
      ultimately show ?thesis using r(2,3,5) by (metis Suc_leD add_Suc add_Suc_right)
    qed
  qed
qed



subsection \<open>The queue pool\<close>

text \<open>Queues are acquired and released; an allocator never returns an address in use.\<close>

inductive qstep :: "stream_pool \<Rightarrow> stream_pool \<Rightarrow> bool" where
  acquire: "new \<notin> dom (queues p) \<Longrightarrow> AcquireQueue pow2 built agent_type max_size new agent hint p = Some (r, p') \<Longrightarrow> qstep p p'"
| release_queue: "ReleaseQueue q p = Some p' \<Longrightarrow> qstep p p'"

definition pool_ok :: "stream_pool \<Rightarrow> bool" where
  "pool_ok p \<longleftrightarrow> distinct (map fst (queue_pool p)) \<and> fst ` set (queue_pool p) = dom (queues p) \<and>
     (\<forall>e \<in> set (queue_pool p). ref_count (snd e) = 1 \<and> qagent (snd e) = None)"

lemma free_entry_None: "pool_ok p \<Longrightarrow> free_entry agent (queue_pool p) = None"
  by (auto simp: free_entry_def pool_ok_def find_None_iff)

lemma pool_insert_new:
  "q \<notin> fst ` set m \<Longrightarrow> set (pool_insert q i m) = insert (q, i) (set m) \<and> (distinct (map fst m) \<longrightarrow> distinct (map fst (pool_insert q i m)))"
  by (induction q i m rule: pool_insert.induct) auto

lemma AcquireQueue_cases:
  assumes "pool_ok p" and "new \<notin> dom (queues p)" and "AcquireQueue pow2 built agent_type max_size new agent hint p = Some (r, p')"
  shows "(\<exists>e. r = Inl e \<and> p' = p) \<or> (r = Inr new \<and> pool_ok p' \<and> dom (queues p') = insert new (dom (queues p)) \<and> qdestroyed p' = qdestroyed p)"
proof -
  have n: "new \<notin> fst ` set (queue_pool p)" using assms(1,2) by (simp add: pool_ok_def)
  let ?i = "\<lparr>qagent = None, ref_count = 1, hostcallBuffer = False\<rparr>"
  have pi: "set (pool_insert new ?i (queue_pool p)) = insert (new, ?i) (set (queue_pool p))" "distinct (map fst (pool_insert new ?i (queue_pool p)))"
    using pool_insert_new [OF n, of ?i] assms(1) by (simp_all add: pool_ok_def)
  have "(\<exists>e. r = Inl e \<and> p' = p) \<or>
    (\<exists>ob. r = Inr new \<and> p' = p\<lparr>queues := (queues p)(new \<mapsto> ob), queue_pool := pool_insert new ?i (queue_pool p)\<rparr>)"
    using assms(3) by (auto simp: AcquireQueue_def free_entry_None [OF assms(1)] split: option.splits sum.splits)
  moreover have "pool_ok (p\<lparr>queues := (queues p)(new \<mapsto> ob), queue_pool := pool_insert new ?i (queue_pool p)\<rparr>)" for ob
    using assms(1) pi(2) unfolding pool_ok_def by (simp add: pi(1))
  ultimately show ?thesis by auto
qed

lemma ReleaseQueue_ok:
  assumes "pool_ok p"
  shows "ReleaseQueue q p = (if q \<in> dom (queues p)
    then Some (p\<lparr>queues := (queues p)(q := None), qdestroyed := qdestroyed p @ [q], queue_pool := filter (\<lambda>e. fst e \<noteq> q) (queue_pool p)\<rparr>)
    else None)"
proof (cases "map_of (queue_pool p) q")
  case None
  then have "q \<notin> dom (queues p)" using assms by (simp add: pool_ok_def map_of_eq_None_iff)
  then show ?thesis using None by (simp add: ReleaseQueue_def)
next
  case (Some i)
  have "(q, i) \<in> set (queue_pool p)" using Some by (rule map_of_SomeD)
  then have "ref_count i = 1" "q \<in> dom (queues p)" using assms by (force simp: pool_ok_def)+
  then show ?thesis using Some by (simp add: ReleaseQueue_def)
qed

lemma pool_ok_step: "qstep p p' \<Longrightarrow> pool_ok p \<Longrightarrow> pool_ok p'"
proof (induction rule: qstep.induct)
  case (acquire new p pow2 built agent_type max_size agent hint r p')
  then show ?case using AcquireQueue_cases by blast
next
  case (release_queue q p p')
  then show ?case using ReleaseQueue_ok [of p q] by (auto simp: pool_ok_def distinct_map_filter split: if_splits)
qed

lemma pool_ok_reach: "qstep\<^sup>*\<^sup>* StreamPool_new p \<Longrightarrow> pool_ok p"
  by (induction rule: rtranclp_induct) (auto simp: pool_ok_step, simp add: pool_ok_def StreamPool_new_def)

text \<open>A queue of the pool has exactly one user: in every run acquiring a queue either fails and changes nothing or returns a new
  queue, never one of the pool; releasing a queue that was acquired destroys and forgets it, releasing any other fails the assertion;
  and acquiring without an agent, as the scheduler does, never succeeds.\<close>

lemma queue_pool_exclusive:
  assumes "qstep\<^sup>*\<^sup>* StreamPool_new p"
  shows "(\<forall>new agent r p'. new \<notin> dom (queues p) \<and> AcquireQueue pow2 built agent_type max_size new agent hint p = Some (r, p') \<longrightarrow>
      (\<exists>e. r = Inl e \<and> p' = p) \<or> (r = Inr new \<and> dom (queues p') = insert new (dom (queues p)))) \<and>
    (\<forall>new. AcquireQueue pow2 built agent_type max_size new None hint p = None) \<and>
    (\<forall>q. ReleaseQueue q p \<noteq> None \<longleftrightarrow> q \<in> dom (queues p)) \<and>
    (\<forall>q p'. ReleaseQueue q p = Some p' \<longrightarrow> dom (queues p') = dom (queues p) - {q} \<and> qdestroyed p' = qdestroyed p @ [q])"
proof -
  note ok = pool_ok_reach [OF assms]
  have r: "dom (queues p') = dom (queues p) - {q} \<and> qdestroyed p' = qdestroyed p @ [q]" if "ReleaseQueue q p = Some p'" for q p'
    using that ReleaseQueue_ok [OF ok, of q] by (auto split: if_splits)
  have "ReleaseQueue q p \<noteq> None \<longleftrightarrow> q \<in> dom (queues p)" for q using ReleaseQueue_ok [OF ok, of q] by simp
  moreover have "AcquireQueue pow2 built agent_type max_size new None hint p = None" for new
    by (simp add: AcquireQueue_def free_entry_None [OF ok])
  ultimately show ?thesis using AcquireQueue_cases [OF ok] r by blast
qed

end
