(* ===== verification/Event_Pool.thy ===== *)
theory Event_Pool
  imports Signals "HOL-Library.Multiset"
begin

text \<open>
  \<open>EventPool\<close> of \<open>src/core/EventPool.cpp\<close>: the free list of device events and the asynchronous signal handlers, which
  are kept in five parallel vectors. Signals, handlers and arguments are addresses; a null signal marks a plain
  function. Retaining and releasing a signal are entries of two logs.
\<close>

subsection \<open>The free list\<close>

record free_events =
  events :: "nat list"
  allEventsAllocated :: bool

text \<open>\<open>created\<close>: what the device's \<open>CreateEvent\<close> returns.\<close>

definition event_alloc :: "nat option \<Rightarrow> free_events \<Rightarrow> nat option \<times> free_events" where
  "event_alloc created p =
     (if events p = [] then if \<not> allEventsAllocated p then (created, if created = None then p\<lparr>allEventsAllocated := True\<rparr> else p) else (None, p)
      else (Some (last (events p)), p\<lparr>events := butlast (events p)\<rparr>))"

definition event_free :: "nat option \<Rightarrow> free_events \<Rightarrow> free_events" where
  "event_free evt p = (case evt of None \<Rightarrow> p | Some e \<Rightarrow> p\<lparr>events := events p @ [e]\<rparr>)"

definition event_clear :: "free_events \<Rightarrow> free_events" where
  "event_clear p = p\<lparr>events := [], allEventsAllocated := False\<rparr>"

subsection \<open>Parallel vectors\<close>

record async_events =
  asignal :: "nat option list"
  acond :: "signal_condition list"
  avalue :: "signal_value_t list"
  ahandler :: "nat list"
  aarg :: "nat list"

definition async_empty :: async_events where
  "async_empty = \<lparr>asignal = [], acond = [], avalue = [], ahandler = [], aarg = []\<rparr>"

definition PushBack :: "nat option \<Rightarrow> signal_condition \<Rightarrow> signal_value_t \<Rightarrow> nat \<Rightarrow> nat \<Rightarrow> async_events \<Rightarrow> async_events" where
  "PushBack s c v h x ae = \<lparr>asignal = asignal ae @ [s], acond = acond ae @ [c], avalue = avalue ae @ [v],
     ahandler = ahandler ae @ [h], aarg = aarg ae @ [x]\<rparr>"

definition CopyIndex :: "nat \<Rightarrow> nat \<Rightarrow> async_events \<Rightarrow> async_events" where
  "CopyIndex dst src ae = \<lparr>asignal = (asignal ae)[dst := asignal ae ! src], acond = (acond ae)[dst := acond ae ! src],
     avalue = (avalue ae)[dst := avalue ae ! src], ahandler = (ahandler ae)[dst := ahandler ae ! src],
     aarg = (aarg ae)[dst := aarg ae ! src]\<rparr>"

definition Size :: "async_events \<Rightarrow> nat" where
  "Size ae = length (asignal ae)"

definition PopBack :: "async_events \<Rightarrow> async_events" where
  "PopBack ae = \<lparr>asignal = butlast (asignal ae), acond = butlast (acond ae), avalue = butlast (avalue ae),
     ahandler = butlast (ahandler ae), aarg = butlast (aarg ae)\<rparr>"

text \<open>\<open>CopyIndex(index, Size() - 1); PopBack();\<close>\<close>

definition drop_index :: "nat \<Rightarrow> async_events \<Rightarrow> async_events" where
  "drop_index i ae = PopBack (CopyIndex i (Size ae - 1) ae)"

subsection \<open>Handlers\<close>

record event_pool =
  thread :: bool                        \<comment> \<open>\<open>async_events_thread_\<close> is not null\<close>
  wake :: "nat option"
  wakev :: signal_value_t               \<comment> \<open>the value of the control signal\<close>
  exiting :: bool
  async :: async_events
  newAsync :: async_events
  eretained :: "nat list"               \<comment> \<open>signals retained so far\<close>
  ereleased :: "nat list"               \<comment> \<open>signals released so far\<close>
  ran :: "(nat \<times> nat) list"             \<comment> \<open>handlers called so far\<close>
  ranf :: "(nat \<times> nat) list"            \<comment> \<open>plain functions called so far\<close>

definition EventPool_new :: event_pool where
  "EventPool_new = \<lparr>thread = False, wake = None, wakev = 0, exiting = False, async = async_empty, newAsync = async_empty, eretained = [],
     ereleased = [], ran = [], ranf = []\<rparr>"

datatype handler_status = HANDLER_SET | HANDLER_OUT_OF_RESOURCES

text \<open>\<open>w\<close> is the control signal that \<open>CreateSignal\<close> returns, \<open>started\<close> whether a thread is created at line 89.\<close>

definition SetAsyncSignalHandler :: "bool \<Rightarrow> nat \<Rightarrow> nat option \<Rightarrow> signal_condition \<Rightarrow> signal_value_t \<Rightarrow> nat \<Rightarrow> nat \<Rightarrow> event_pool
    \<Rightarrow> handler_status \<times> event_pool" where
  "SetAsyncSignalHandler started w sig cond val h x p =
     (let p1 = (case sig of None \<Rightarrow> p | Some s \<Rightarrow> p\<lparr>eretained := eretained p @ [s]\<rparr>);
          p2 = (if thread p1 then p1
                else p1\<lparr>wake := Some w, wakev := 0, async := PushBack (Some w) CONDITION_NE 0 0 0 (async p1), exiting := False, thread := started\<rparr>)
      in if \<not> thread p2 then (HANDLER_OUT_OF_RESOURCES, p2)
         else (HANDLER_SET, p2\<lparr>newAsync := PushBack sig cond val h x (newAsync p2), wakev := 1\<rparr>))"

definition release_at :: "nat \<Rightarrow> event_pool \<Rightarrow> event_pool option" where
  "release_at i p = (case asignal (async p) ! i of None \<Rightarrow> None
     | Some s \<Rightarrow> Some (p\<lparr>ereleased := ereleased p @ [s], async := drop_index i (async p)\<rparr>))"

text \<open>What \<open>WaitAnySignal\<close> returned: an index, or \<open>None\<close> for \<open>-1\<close>; \<open>keep\<close> is the answer of the handler.\<close>

definition handle_index :: "nat option \<Rightarrow> bool \<Rightarrow> event_pool \<Rightarrow> event_pool option" where
  "handle_index idx keep p = (case idx of
      None \<Rightarrow> Some p
    | Some i \<Rightarrow> if i = 0 then Some (p\<lparr>wakev := 0\<rparr>)
        else guarded (ahandler (async p) ! i \<noteq> 0)
          (let p1 = p\<lparr>ran := ran p @ [(ahandler (async p) ! i, aarg (async p) ! i)]\<rparr>
           in if keep then Some p1 else release_at i p1))"

function drop_dead :: "(nat \<Rightarrow> bool) \<Rightarrow> nat \<Rightarrow> event_pool \<Rightarrow> event_pool option" where
  "drop_dead valid i p =
     (if i < Size (async p)
      then case asignal (async p) ! i of
          None \<Rightarrow> None
        | Some s \<Rightarrow> if \<not> valid s then drop_dead valid i (p\<lparr>ereleased := ereleased p @ [s], async := drop_index i (async p)\<rparr>)
                    else drop_dead valid (Suc i) p
      else Some p)"
  by pat_completeness auto
termination by (relation "measure (\<lambda>(v, i, p). Size (async p) - i)") (auto simp: drop_index_def PopBack_def CopyIndex_def Size_def)

declare drop_dead.simps [simp del]

fun take_new :: "nat \<Rightarrow> nat \<Rightarrow> event_pool \<Rightarrow> (nat \<times> nat) list \<Rightarrow> event_pool \<times> (nat \<times> nat) list" where
  "take_new 0 i p fs = (p, fs)"
| "take_new (Suc k) i p fs =
     (let n = newAsync p in case asignal n ! i of
        None \<Rightarrow> take_new k (Suc i) p (fs @ [(ahandler n ! i, aarg n ! i)])
      | Some s \<Rightarrow> take_new k (Suc i) (p\<lparr>async := PushBack (Some s) (acond n ! i) (avalue n ! i) (ahandler n ! i) (aarg n ! i) (async p)\<rparr>) fs)"

text \<open>Taking the new handlers over, under the lock, and calling the plain functions.\<close>

definition take_handlers :: "event_pool \<Rightarrow> event_pool" where
  "take_handlers p = (let (p', fs) = take_new (Size (newAsync p)) 0 p [] in p'\<lparr>newAsync := async_empty, ranf := ranf p' @ fs\<rparr>)"

text \<open>The part of a round that the loop's thread does on its own state.\<close>

definition async_serve :: "nat option \<Rightarrow> bool \<Rightarrow> (nat \<Rightarrow> bool) \<Rightarrow> event_pool \<Rightarrow> event_pool option" where
  "async_serve idx keep valid p = (case handle_index idx keep p of None \<Rightarrow> None | Some p1 \<Rightarrow> drop_dead valid 0 p1)"

text \<open>One round of \<open>AsyncEventsLoop\<close>.\<close>

definition async_round :: "nat option \<Rightarrow> bool \<Rightarrow> (nat \<Rightarrow> bool) \<Rightarrow> event_pool \<Rightarrow> event_pool option" where
  "async_round idx keep valid p = map_option take_handlers (async_serve idx keep valid p)"

text \<open>The end of the loop.\<close>

definition async_exit :: "event_pool \<Rightarrow> event_pool option" where
  "async_exit p =
     (let old = tl (asignal (async p)); new = asignal (newAsync p)
      in guarded (None \<notin> set (old @ new))
           (Some (p\<lparr>ereleased := ereleased p @ map the (old @ new), async := async_empty, newAsync := async_empty\<rparr>)))"

text \<open>\<open>Shutdown\<close> up to the point where it waits for the thread.\<close>

definition Shutdown_begin :: "event_pool \<Rightarrow> event_pool" where
  "Shutdown_begin p = (if thread p then p\<lparr>exiting := True, wakev := 1\<rparr> else p)"

text \<open>
  The loop's thread against the callers. Callers enter under the lock at any moment; the thread holds it only while it takes the
  new handlers over. \<open>R\<close> says which registrations the callers make.
\<close>

datatype loop_pc = Loop_wait | Loop_take | Loop_exited

inductive estep :: "(nat option \<times> signal_condition \<times> signal_value_t \<times> nat \<times> nat \<Rightarrow> bool) \<Rightarrow> event_pool \<times> loop_pc \<Rightarrow> event_pool \<times> loop_pc \<Rightarrow> bool"
  for R where
  estep_set: "thread p \<Longrightarrow> R (sig, c, v, h, x) \<Longrightarrow> estep R (p, pc) (snd (SetAsyncSignalHandler True w sig c v h x p), pc)"
| estep_serve: "\<not> exiting p \<Longrightarrow> (\<And>i. idx = Some i \<Longrightarrow> i < Size (async p)) \<Longrightarrow> (\<And>w. wake p = Some w \<Longrightarrow> valid w) \<Longrightarrow>
    async_serve idx keep valid p = Some p' \<Longrightarrow> estep R (p, Loop_wait) (p', Loop_take)"
| estep_take: "estep R (p, Loop_take) (take_handlers p, Loop_wait)"
| estep_shutdown: "estep R (p, pc) (Shutdown_begin p, pc)"
| estep_exit: "exiting p \<Longrightarrow> async_exit p = Some p' \<Longrightarrow> estep R (p, Loop_wait) (p', Loop_exited)"

subsection \<open>Removal keeps the vectors aligned\<close>

definition swap_remove :: "nat \<Rightarrow> 'a list \<Rightarrow> 'a list" where
  "swap_remove i xs = butlast (xs[i := xs ! (length xs - 1)])"

lemma swap_remove_mset: "i < length xs \<Longrightarrow> mset (swap_remove i xs) + {#xs ! i#} = mset xs"
proof (induction xs rule: rev_induct)
  case (snoc z ys)
  show ?case
  proof (cases "i < length ys")
    case True
    then have "swap_remove i (ys @ [z]) = ys[i := z]" by (simp add: swap_remove_def nth_append list_update_append)
    moreover have "ys ! i \<in># mset ys" using True by simp
    ultimately show ?thesis using True by (simp add: mset_update nth_append)
  next
    case False
    then have "i = length ys" using snoc.prems by simp
    then show ?thesis by (simp add: swap_remove_def)
  qed
qed simp

lemma swap_remove_tail:
  assumes "0 < i" and "i < length xs"
  shows "hd (swap_remove i xs) = hd xs" and "swap_remove i xs \<noteq> []" and "mset (tl (swap_remove i xs)) + {#xs ! i#} = mset (tl xs)"
proof -
  have l: "length (swap_remove i xs) = length xs - 1" by (simp add: swap_remove_def)
  then show ne: "swap_remove i xs \<noteq> []" using assms by auto
  have "hd (swap_remove i xs) = swap_remove i xs ! 0" using ne by (rule hd_conv_nth)
  also have "\<dots> = xs ! 0" using assms by (simp add: swap_remove_def nth_butlast)
  also have "\<dots> = hd xs" using assms by (intro hd_conv_nth [symmetric]) auto
  finally show h: "hd (swap_remove i xs) = hd xs" .
  have xne: "xs \<noteq> []" using assms by auto
  have "add_mset (hd xs) (mset (tl (swap_remove i xs)) + {#xs ! i#}) = mset (swap_remove i xs) + {#xs ! i#}"
    using ne h by (metis mset.simps(2) list.collapse union_mset_add_mset_left)
  also have "\<dots> = mset xs" by (rule swap_remove_mset [OF assms(2)])
  also have "\<dots> = add_mset (hd xs) (mset (tl xs))" using xne by (metis mset.simps(2) list.collapse)
  finally show "mset (tl (swap_remove i xs)) + {#xs ! i#} = mset (tl xs)" by simp
qed

definition aligned :: "async_events \<Rightarrow> bool" where
  "aligned ae \<longleftrightarrow> length (acond ae) = Size ae \<and> length (avalue ae) = Size ae \<and> length (ahandler ae) = Size ae \<and> length (aarg ae) = Size ae"

definition entries :: "async_events \<Rightarrow> (nat option \<times> signal_condition \<times> signal_value_t \<times> nat \<times> nat) list" where
  "entries ae = zip (asignal ae) (zip (acond ae) (zip (avalue ae) (zip (ahandler ae) (aarg ae))))"

lemma swap_remove_zip:
  "length xs = length ys \<Longrightarrow> i < length xs \<Longrightarrow> zip (swap_remove i xs) (swap_remove i ys) = swap_remove i (zip xs ys)"
  by (simp add: swap_remove_def butlast_conv_take take_zip [symmetric] update_zip)

lemma drop_index_parts:
  "aligned ae \<Longrightarrow> drop_index i ae = \<lparr>asignal = swap_remove i (asignal ae), acond = swap_remove i (acond ae), avalue = swap_remove i (avalue ae),
     ahandler = swap_remove i (ahandler ae), aarg = swap_remove i (aarg ae)\<rparr>"
  by (simp add: drop_index_def CopyIndex_def PopBack_def swap_remove_def aligned_def Size_def)

lemma length_swap_remove [simp]: "length (swap_remove i xs) = length xs - 1"
  by (simp add: swap_remove_def)

lemma drop_index_aligned: "aligned ae \<Longrightarrow> aligned (drop_index i ae)"
  by (simp add: drop_index_parts) (simp add: aligned_def Size_def)

lemma drop_index_entries: "aligned ae \<Longrightarrow> i < Size ae \<Longrightarrow> entries (drop_index i ae) = swap_remove i (entries ae)"
  by (simp add: drop_index_parts) (simp add: entries_def aligned_def Size_def swap_remove_zip)

lemma PushBack_entries: "aligned ae \<Longrightarrow> aligned (PushBack s c v h x ae) \<and> entries (PushBack s c v h x ae) = entries ae @ [(s, c, v, h, x)]"
  by (auto simp: PushBack_def aligned_def entries_def Size_def)

lemma entries_signals: "aligned ae \<Longrightarrow> map fst (entries ae) = asignal ae \<and> length (entries ae) = Size ae"
  by (auto simp: entries_def aligned_def Size_def)

subsection \<open>Every retained signal is released once\<close>

definition some_signals :: "nat option list \<Rightarrow> nat list" where
  "some_signals xs = map the (filter (\<lambda>s. s \<noteq> None) xs)"

lemma some_signals_append [simp]: "some_signals (xs @ ys) = some_signals xs @ some_signals ys"
  by (simp add: some_signals_def)

lemma some_signals_Cons [simp]: "some_signals (s # xs) = (case s of None \<Rightarrow> some_signals xs | Some a \<Rightarrow> a # some_signals xs)"
  by (auto simp: some_signals_def split: option.splits)

definition einv :: "event_pool \<Rightarrow> bool" where
  "einv p \<longleftrightarrow> aligned (async p) \<and> aligned (newAsync p) \<and> asignal (async p) \<noteq> [] \<and> None \<notin> set (asignal (async p)) \<and>
     hd (asignal (async p)) = wake p \<and>
     mset (eretained p) = mset (ereleased p) + mset (some_signals (tl (asignal (async p)))) + mset (some_signals (asignal (newAsync p)))"

lemma some_signals_remove:
  assumes "0 < i" and "i < length xs" and "xs ! i = Some s"
  shows "mset (some_signals (tl (swap_remove i xs))) + {#s#} = mset (some_signals (tl xs))"
proof -
  have f: "mset (some_signals ys) = image_mset the (filter_mset (\<lambda>s. s \<noteq> None) (mset ys))" for ys by (simp add: some_signals_def)
  have e: "mset (tl xs) = add_mset (Some s) (mset (tl (swap_remove i xs)))" using swap_remove_tail(3) [OF assms(1,2)] assms(3) by simp
  show ?thesis unfolding f e by simp
qed

lemma release_at_ok:
  assumes "einv p" and "0 < i" and "i < Size (async p)"
  shows "\<exists>s p'. asignal (async p) ! i = Some s \<and> release_at i p = Some p' \<and> p' = p\<lparr>ereleased := ereleased p @ [s], async := drop_index i (async p)\<rparr> \<and>
    einv p' \<and> mset (entries (async p')) \<subseteq># mset (entries (async p))"
proof -
  have al: "aligned (async p)" and nn: "None \<notin> set (asignal (async p))" using assms(1) by (simp_all add: einv_def)
  have "asignal (async p) ! i \<noteq> None" using nn assms(3) nth_mem [of i "asignal (async p)"] unfolding Size_def by metis
  then obtain s where s: "asignal (async p) ! i = Some s" by blast
  define p' where "p' = p\<lparr>ereleased := ereleased p @ [s], async := drop_index i (async p)\<rparr>"
  let ?xs = "asignal (async p)"
  have sg: "asignal (async p') = swap_remove i ?xs" by (simp add: p'_def drop_index_parts [OF al])
  have il: "i < length ?xs" using assms(3) by (simp add: Size_def)
  note st = swap_remove_tail [OF assms(2) il]
  have "set (swap_remove i ?xs) \<subseteq> set ?xs" using arg_cong [OF swap_remove_mset [OF il], of set_mset] by auto
  then have "None \<notin> set (swap_remove i ?xs)" using nn by blast
  moreover have "mset (eretained p') = mset (ereleased p') + mset (some_signals (tl (asignal (async p')))) + mset (some_signals (asignal (newAsync p')))"
    using assms(1) some_signals_remove [OF assms(2) il s] unfolding sg einv_def by (simp add: p'_def ac_simps)
  ultimately have "einv p'" using assms(1) st(1,2) drop_index_aligned [OF al] unfolding einv_def sg by (simp add: p'_def)
  moreover have "mset (entries (async p')) \<subseteq># mset (entries (async p))"
  proof -
    have e: "entries (async p') = swap_remove i (entries (async p))" using drop_index_entries [OF al assms(3)] by (simp add: p'_def)
    have "i < length (entries (async p))" using entries_signals [OF al] assms(3) by simp
    from swap_remove_mset [OF this] show ?thesis unfolding e by (metis mset_subset_eq_add_left)
  qed
  ultimately show ?thesis using s by (auto simp: release_at_def p'_def)
qed

lemma wake_first: "einv p \<Longrightarrow> asignal (async p) ! 0 = wake p"
  unfolding einv_def by (metis hd_conv_nth)

lemma handle_index_ok:
  assumes "einv p" and "\<And>i. idx = Some i \<Longrightarrow> i < Size (async p) \<and> (0 < i \<longrightarrow> ahandler (async p) ! i \<noteq> 0)"
  shows "\<exists>p'. handle_index idx keep p = Some p' \<and> einv p' \<and> wake p' = wake p \<and> newAsync p' = newAsync p \<and> eretained p' = eretained p \<and> ranf p' = ranf p \<and>
    thread p' = thread p \<and>
    mset (entries (async p')) \<subseteq># mset (entries (async p))"
proof (cases "idx = None \<or> idx = Some 0")
  case True
  then show ?thesis using assms(1) by (auto simp: handle_index_def einv_def)
next
  case False
  then obtain i where i: "idx = Some i" "0 < i" by auto
  have b: "i < Size (async p)" "ahandler (async p) ! i \<noteq> 0" using assms(2) [OF i(1)] i(2) by simp_all
  define q where "q = p\<lparr>ran := ran p @ [(ahandler (async p) ! i, aarg (async p) ! i)]\<rparr>"
  have q: "einv q" "async q = async p" "wake q = wake p" "newAsync q = newAsync p" "eretained q = eretained p" "ranf q = ranf p" "thread q = thread p"
    using assms(1) by (simp_all add: q_def einv_def)
  have h: "handle_index idx keep p = (if keep then Some q else release_at i q)" using i b by (simp add: handle_index_def q_def Let_def)
  show ?thesis
  proof (cases keep)
    case True
    then show ?thesis using h q by simp
  next
    case False
    then show ?thesis using h q release_at_ok [OF q(1) i(2)] b(1) by auto
  qed
qed

lemma drop_dead_ok:
  "einv p \<Longrightarrow> (\<And>w. wake p = Some w \<Longrightarrow> valid w) \<Longrightarrow>
   \<exists>p'. drop_dead valid i p = Some p' \<and> einv p' \<and> wake p' = wake p \<and> newAsync p' = newAsync p \<and> eretained p' = eretained p \<and> ranf p' = ranf p \<and>
     thread p' = thread p \<and>
     mset (entries (async p')) \<subseteq># mset (entries (async p))"
proof (induction valid i p rule: drop_dead.induct)
  case (1 valid i p)
  show ?case
  proof (cases "i < Size (async p)")
    case False
    then show ?thesis using 1(3) by (subst drop_dead.simps) simp
  next
    case lt: True
    have "asignal (async p) ! i \<noteq> None" using 1(3) lt nth_mem [of i "asignal (async p)"] unfolding einv_def Size_def by metis
    then obtain s where s: "asignal (async p) ! i = Some s" by blast
    show ?thesis
    proof (cases "valid s")
      case True
      then have "drop_dead valid i p = drop_dead valid (Suc i) p" using lt s by (subst drop_dead.simps) simp
      then show ?thesis using 1(2) [OF lt s] True 1(3,4) by simp
    next
      case False
      have "i \<noteq> 0"
      proof
        assume "i = 0"
        then have "wake p = Some s" using s wake_first [OF 1(3)] by simp
        then show False using 1(4) False by blast
      qed
      then have i0: "0 < i" by simp
      define q where "q = p\<lparr>ereleased := ereleased p @ [s], async := drop_index i (async p)\<rparr>"
      have r: "einv q" "mset (entries (async q)) \<subseteq># mset (entries (async p))" using release_at_ok [OF 1(3) i0 lt] s by (auto simp: q_def)
      have fr: "wake q = wake p" "newAsync q = newAsync p" "eretained q = eretained p" "ranf q = ranf p" "thread q = thread p" by (simp_all add: q_def)
      have e: "drop_dead valid i p = drop_dead valid i q" using lt s False by (subst drop_dead.simps) (simp add: q_def)
      obtain p' where p': "drop_dead valid i q = Some p'" "einv p'" "wake p' = wake q" "newAsync p' = newAsync q" "eretained p' = eretained q"
        "ranf p' = ranf q" "thread p' = thread q" "mset (entries (async p')) \<subseteq># mset (entries (async q))"
        using 1(1) [OF lt s False, folded q_def, OF r(1)] 1(4) fr(1) by auto
      show ?thesis using e p' fr subset_mset.order_trans [OF p'(8) r(2)] by simp
    qed
  qed
qed

lemma entries_nth:
  "aligned ae \<Longrightarrow> i < Size ae \<Longrightarrow> entries ae ! i = (asignal ae ! i, acond ae ! i, avalue ae ! i, ahandler ae ! i, aarg ae ! i)"
  by (simp add: entries_def aligned_def Size_def)

lemma take_new_ok:
  "aligned (async p) \<Longrightarrow> aligned (newAsync p) \<Longrightarrow> i + k = Size (newAsync p) \<Longrightarrow>
   \<exists>A. take_new k i p fs = (p\<lparr>async := A\<rparr>, fs @ map (snd \<circ> snd \<circ> snd) (filter (\<lambda>e. fst e = None) (drop i (entries (newAsync p))))) \<and>
     aligned A \<and> entries A = entries (async p) @ filter (\<lambda>e. fst e \<noteq> None) (drop i (entries (newAsync p)))"
proof (induction k arbitrary: i p fs)
  case 0
  then have "drop i (entries (newAsync p)) = []" using entries_signals [of "newAsync p"] by simp
  then show ?case using 0 by (intro exI [of _ "async p"]) simp
next
  case (Suc k)
  let ?n = "newAsync p"
  have i: "i < Size ?n" using Suc.prems(3) by simp
  have d: "drop i (entries ?n) = (asignal ?n ! i, acond ?n ! i, avalue ?n ! i, ahandler ?n ! i, aarg ?n ! i) # drop (Suc i) (entries ?n)"
    using Cons_nth_drop_Suc [of i "entries ?n"] entries_signals [OF Suc.prems(2)] entries_nth [OF Suc.prems(2) i] i by simp
  show ?case
  proof (cases "asignal ?n ! i")
    case None
    then show ?thesis using Suc.IH [of p "Suc i" "fs @ [(ahandler ?n ! i, aarg ?n ! i)]"] Suc.prems unfolding d by (simp add: Let_def)
  next
    case (Some s)
    define B where "B = PushBack (Some s) (acond ?n ! i) (avalue ?n ! i) (ahandler ?n ! i) (aarg ?n ! i) (async p)"
    have b: "aligned B" "entries B = entries (async p) @ [(Some s, acond ?n ! i, avalue ?n ! i, ahandler ?n ! i, aarg ?n ! i)]"
      using PushBack_entries [OF Suc.prems(1)] by (simp_all add: B_def)
    have e: "take_new (Suc k) i p fs = take_new k (Suc i) (p\<lparr>async := B\<rparr>) fs" using Some by (simp add: Let_def B_def)
    show ?thesis using Suc.IH [of "p\<lparr>async := B\<rparr>" "Suc i" fs] Suc.prems b unfolding d e Some by simp
  qed
qed

text \<open>One round, from an invariant state. The control signal stays valid; a handler that is called is not null.\<close>

lemma some_signals_entries:
  "aligned ae \<Longrightarrow> some_signals (map fst (filter (\<lambda>e. fst e \<noteq> None) (entries ae))) = some_signals (asignal ae)"
proof -
  have "some_signals (map fst (filter (\<lambda>e. fst e \<noteq> None) es)) = some_signals (map fst es)"
    for es :: "(nat option \<times> signal_condition \<times> signal_value_t \<times> nat \<times> nat) list" by (induction es) (auto split: option.splits)
  then show "aligned ae \<Longrightarrow> ?thesis" using entries_signals by metis
qed

lemma async_serve_ok:
  assumes "einv p" and "\<And>i. idx = Some i \<Longrightarrow> i < Size (async p) \<and> (0 < i \<longrightarrow> ahandler (async p) ! i \<noteq> 0)"
    and "\<And>w. wake p = Some w \<Longrightarrow> valid w"
  shows "\<exists>p'. async_serve idx keep valid p = Some p' \<and> einv p' \<and> wake p' = wake p \<and> newAsync p' = newAsync p \<and> eretained p' = eretained p \<and>
    ranf p' = ranf p \<and> thread p' = thread p \<and> mset (entries (async p')) \<subseteq># mset (entries (async p))"
proof -
  obtain p1 where h: "handle_index idx keep p = Some p1" "einv p1" "wake p1 = wake p" "newAsync p1 = newAsync p" "eretained p1 = eretained p"
    "ranf p1 = ranf p" "thread p1 = thread p" "mset (entries (async p1)) \<subseteq># mset (entries (async p))" using handle_index_ok [OF assms(1,2)] by blast
  obtain p2 where d: "drop_dead valid 0 p1 = Some p2" "einv p2" "wake p2 = wake p1" "newAsync p2 = newAsync p1" "eretained p2 = eretained p1"
    "ranf p2 = ranf p1" "thread p2 = thread p1" "mset (entries (async p2)) \<subseteq># mset (entries (async p1))"
    using drop_dead_ok [OF h(2), of valid 0] assms(3) h(3) by auto
  show ?thesis using h d subset_mset.order_trans [OF d(8) h(8)] by (simp add: async_serve_def)
qed

lemma take_handlers_ok:
  assumes "einv p"
  shows "einv (take_handlers p)" and "newAsync (take_handlers p) = async_empty" and "thread (take_handlers p) = thread p"
    and "wake (take_handlers p) = wake p"
    and "eretained (take_handlers p) = eretained p"
    and "entries (async (take_handlers p)) = entries (async p) @ filter (\<lambda>e. fst e \<noteq> None) (entries (newAsync p))"
    and "ranf (take_handlers p) = ranf p @ map (snd \<circ> snd \<circ> snd) (filter (\<lambda>e. fst e = None) (entries (newAsync p)))"
proof -
  have al: "aligned (async p)" "aligned (newAsync p)" using assms by (simp_all add: einv_def)
  let ?new = "filter (\<lambda>e. fst e \<noteq> None) (entries (newAsync p))"
  let ?fs = "map (snd \<circ> snd \<circ> snd) (filter (\<lambda>e. fst e = None) (entries (newAsync p)))"
  obtain A where A: "take_new (Size (newAsync p)) 0 p [] = (p\<lparr>async := A\<rparr>, ?fs)" "aligned A" "entries A = entries (async p) @ ?new"
    using take_new_ok [OF al, of 0 "Size (newAsync p)" "[]"] by auto
  have t: "take_handlers p = p\<lparr>async := A, newAsync := async_empty, ranf := ranf p @ ?fs\<rparr>" using A(1) by (simp add: take_handlers_def)
  have sA: "asignal A = asignal (async p) @ map fst ?new" using entries_signals [OF A(2)] entries_signals [OF al(1)] A(3) by (metis map_append)
  have ne: "asignal (async p) \<noteq> []" using assms by (simp add: einv_def)
  show "einv (take_handlers p)" using assms A(2) ne some_signals_entries [OF al(2)] unfolding einv_def t
    by (auto simp: sA async_empty_def aligned_def Size_def some_signals_def [of "[]"])
  show "newAsync (take_handlers p) = async_empty" "thread (take_handlers p) = thread p" "eretained (take_handlers p) = eretained p"
    "wake (take_handlers p) = wake p" "entries (async (take_handlers p)) = entries (async p) @ ?new" "ranf (take_handlers p) = ranf p @ ?fs" using A(3) by (simp_all add: t)
qed

subsection \<open>Runs of the loop\<close>

definition erun :: "(nat option \<times> signal_condition \<times> signal_value_t \<times> nat \<times> nat \<Rightarrow> bool) \<Rightarrow> event_pool \<Rightarrow> event_pool \<Rightarrow> loop_pc \<Rightarrow> bool" where
  "erun R p0 p pc \<longleftrightarrow> (estep R)\<^sup>*\<^sup>* (p0, Loop_wait) (p, pc)"

definition registered :: "(nat option \<times> signal_condition \<times> signal_value_t \<times> nat \<times> nat \<Rightarrow> bool) \<Rightarrow> event_pool \<Rightarrow> bool" where
  "registered R p \<longleftrightarrow> (\<forall>e\<in>set (tl (entries (async p))) \<union> set (entries (newAsync p)). R e) \<and> (\<forall>(h, x)\<in>set (ran p). \<exists>s c v. R (Some s, c, v, h, x))"

definition outstanding :: "event_pool \<Rightarrow> nat list" where
  "outstanding p = some_signals (tl (asignal (async p))) @ some_signals (asignal (newAsync p))"

definition erun_inv :: "(nat option \<times> signal_condition \<times> signal_value_t \<times> nat \<times> nat \<Rightarrow> bool) \<Rightarrow> event_pool \<times> loop_pc \<Rightarrow> bool" where
  "erun_inv R = (\<lambda>(p, pc). thread p \<and> mset (eretained p) = mset (ereleased p) + mset (outstanding p) \<and> registered R p \<and>
     (pc \<noteq> Loop_exited \<longrightarrow> einv p) \<and> (pc = Loop_exited \<longrightarrow> async p = async_empty \<and> aligned (newAsync p)) \<and>
     (pc = Loop_wait \<and> asignal (newAsync p) \<noteq> [] \<longrightarrow> wakev p \<noteq> 0))"

lemma einv_conserved: "einv p \<Longrightarrow> mset (eretained p) = mset (ereleased p) + mset (outstanding p)"
  by (simp add: einv_def outstanding_def)

lemma set_thread:
  "thread p \<Longrightarrow> SetAsyncSignalHandler st w sig c v h x p =
     (HANDLER_SET, p\<lparr>newAsync := PushBack sig c v h x (newAsync p), wakev := 1,
        eretained := eretained p @ (case sig of None \<Rightarrow> [] | Some s \<Rightarrow> [s])\<rparr>)"
  by (auto simp: SetAsyncSignalHandler_def Let_def split: option.splits)

lemma swap_remove_tl_set:
  assumes "0 < i" and "i < length xs" shows "set (tl (swap_remove i xs)) \<subseteq> set (tl xs)"
  using swap_remove_tail(3) [OF assms] by (metis mset_subset_eq_add_left set_mset_mono set_mset_mset)

lemma registered_drop:
  assumes "registered R p" and "aligned (async p)" and "0 < i" and "i < Size (async p)"
  shows "registered R (p\<lparr>ereleased := r, async := drop_index i (async p)\<rparr>)"
proof -
  have "i < length (entries (async p))" using entries_signals [OF assms(2)] assms(4) by simp
  from swap_remove_tl_set [OF assms(3) this] show ?thesis
    using assms(1) drop_index_entries [OF assms(2,4)] unfolding registered_def by auto
qed

lemma registered_at:
  assumes "einv p" and "registered R p" and "0 < i" and "i < Size (async p)"
  shows "\<exists>s c v. R (Some s, c, v, ahandler (async p) ! i, aarg (async p) ! i)"
proof -
  have al: "aligned (async p)" and nn: "None \<notin> set (asignal (async p))" using assms(1) by (simp_all add: einv_def)
  have l: "length (entries (async p)) = Size (async p)" using entries_signals [OF al] by simp
  have "entries (async p) ! i = tl (entries (async p)) ! (i - 1)" using assms(3,4) l by (simp add: nth_tl)
  then have "entries (async p) ! i \<in> set (tl (entries (async p)))" using assms(3,4) l by simp
  then have R: "R (asignal (async p) ! i, acond (async p) ! i, avalue (async p) ! i, ahandler (async p) ! i, aarg (async p) ! i)"
    using assms(2) entries_nth [OF al assms(4)] unfolding registered_def by auto
  moreover obtain s where "asignal (async p) ! i = Some s" using nn assms(4) nth_mem [of i "asignal (async p)"] unfolding Size_def by (metis not_None_eq)
  ultimately show ?thesis by auto
qed

lemma registered_handle:
  assumes "registered R p" and "einv p" and "\<And>i. idx = Some i \<Longrightarrow> i < Size (async p)" and "handle_index idx keep p = Some p'"
  shows "registered R p'"
proof (cases "idx = None \<or> idx = Some 0")
  case True
  then show ?thesis using assms by (auto simp: handle_index_def registered_def)
next
  case False
  then obtain i where i: "idx = Some i" "0 < i" by auto
  have il: "i < Size (async p)" using assms(3) i by simp
  have al: "aligned (async p)" using assms(2) by (simp add: einv_def)
  define q where "q = p\<lparr>ran := ran p @ [(ahandler (async p) ! i, aarg (async p) ! i)]\<rparr>"
  have rq: "registered R q" using assms(1) registered_at [OF assms(2,1) i(2) il] unfolding registered_def q_def by auto
  have "p' = q \<or> release_at i q = Some p'" using assms(4) i by (auto simp: handle_index_def q_def Let_def split: if_splits)
  then show ?thesis
  proof
    assume "release_at i q = Some p'"
    then obtain s where "p' = q\<lparr>ereleased := ereleased q @ [s], async := drop_index i (async q)\<rparr>" by (auto simp: release_at_def split: option.splits)
    then show ?thesis using registered_drop [OF rq _ i(2)] al il by (simp add: q_def)
  qed (use rq in simp)
qed

lemma registered_drop_dead:
  "registered R p \<Longrightarrow> einv p \<Longrightarrow> (\<And>w. wake p = Some w \<Longrightarrow> valid w) \<Longrightarrow> drop_dead valid i p = Some p' \<Longrightarrow> registered R p'"
proof (induction valid i p rule: drop_dead.induct)
  case (1 valid i p)
  show ?case
  proof (cases "i < Size (async p)")
    case False
    then show ?thesis using 1(3,6) by (subst (asm) drop_dead.simps) simp
  next
    case lt: True
    then obtain s where s: "asignal (async p) ! i = Some s" using 1(6) by (subst (asm) drop_dead.simps) (auto split: option.splits)
    show ?thesis
    proof (cases "valid s")
      case True
      then have "drop_dead valid (Suc i) p = Some p'" using 1(6) lt s by (subst (asm) drop_dead.simps) simp
      then show ?thesis using 1(2) [OF lt s] True 1(3-5) by simp
    next
      case False
      have "i \<noteq> 0"
      proof
        assume "i = 0"
        then have "wake p = Some s" using s wake_first [OF 1(4)] by simp
        then show False using 1(5) False by blast
      qed
      then have i0: "0 < i" by simp
      define q where "q = p\<lparr>ereleased := ereleased p @ [s], async := drop_index i (async p)\<rparr>"
      have e: "drop_dead valid i q = Some p'" using 1(6) lt s False by (subst (asm) drop_dead.simps) (simp add: q_def)
      have al: "aligned (async p)" using 1(4) by (simp add: einv_def)
      have "registered R q" unfolding q_def by (rule registered_drop [OF 1(3) al i0 lt])
      moreover have "einv q" using release_at_ok [OF 1(4) i0 lt] s by (auto simp: q_def)
      moreover have "wake q = wake p" by (simp add: q_def)
      ultimately show ?thesis using 1(1) [OF lt s False, folded q_def] 1(5) e by simp
    qed
  qed
qed

lemma take_handlers_registered:
  assumes "registered R p" and "einv p" shows "registered R (take_handlers p)"
proof -
  have ne: "entries (async p) \<noteq> []" using assms(2) entries_signals [of "async p"] unfolding einv_def by (metis list.size(3) map_is_Nil_conv)
  have "ran (take_handlers p) = ran p"
  proof -
    have "ran (fst (take_new k i p fs)) = ran p" for k i p fs
      by (induction k i p fs rule: take_new.induct) (auto simp: Let_def split: option.splits)
    then show ?thesis by (simp add: take_handlers_def Let_def split_beta)
  qed
  moreover have "entries async_empty = []" by (simp add: entries_def async_empty_def)
  ultimately show ?thesis using assms(1) ne unfolding registered_def take_handlers_ok(2,6) [OF assms(2)] by auto
qed

lemma async_exit_ok:
  assumes "einv p" and "None \<notin> set (asignal (newAsync p))"
  shows "async_exit p = Some (p\<lparr>ereleased := ereleased p @ outstanding p, async := async_empty, newAsync := async_empty\<rparr>)"
proof -
  have n: "None \<notin> set (tl (asignal (async p)))" using assms(1) unfolding einv_def by (metis list.set_sel(2))
  have m: "None \<notin> set xs \<Longrightarrow> some_signals xs = map the xs" for xs by (induction xs) (auto simp: some_signals_def [of "[]"] split: option.splits dest!: not_None_eq [THEN iffD1, OF not_sym])
  show ?thesis using n assms(2) by (simp add: async_exit_def Let_def outstanding_def m)
qed

lemma async_exit_needs: "async_exit p = Some p' \<Longrightarrow> None \<notin> set (asignal (newAsync p))"
  by (auto simp: async_exit_def Let_def split: if_splits)

lemma set_inv:
  assumes "erun_inv R (p, pc)" and "R (sig, c, v, h, x)"
  shows "erun_inv R (snd (SetAsyncSignalHandler True w sig c v h x p), pc)"
proof -
  have t: "thread p" and al: "aligned (newAsync p)" using assms(1) by (cases pc; simp add: erun_inv_def einv_def)+
  note P = PushBack_entries [OF al, of sig c v h x]
  have ps: "asignal (PushBack sig c v h x (newAsync p)) = asignal (newAsync p) @ [sig]" by (simp add: PushBack_def)
  have reg: "registered R (snd (SetAsyncSignalHandler True w sig c v h x p))"
    using assms P unfolding set_thread [OF t] by (auto simp: registered_def erun_inv_def)
  show ?thesis using assms(1) reg P ps unfolding set_thread [OF t]
    by (cases sig) (auto simp: erun_inv_def einv_def outstanding_def some_signals_def [of "[]"])
qed

lemma estep_inv: "estep R s t \<Longrightarrow> erun_inv R s \<Longrightarrow> erun_inv R t"
proof (induction rule: estep.induct)
  case (estep_set p sig c v h x pc w)
  then show ?case using set_inv by blast
next
  case (estep_serve p idx valid keep p')
  have inv: "einv p" "registered R p" "thread p" using estep_serve.prems by (simp_all add: erun_inv_def)
  obtain p1 where h: "handle_index idx keep p = Some p1" "drop_dead valid 0 p1 = Some p'"
    using estep_serve(4) by (auto simp: async_serve_def split: option.splits)
  have nz: "\<And>i. idx = Some i \<Longrightarrow> i < Size (async p) \<and> (0 < i \<longrightarrow> ahandler (async p) ! i \<noteq> 0)"
    using h(1) estep_serve(2) by (auto simp: handle_index_def split: if_splits)
  have ok: "einv p'" "thread p'" using async_serve_ok [where idx = idx and keep = keep and valid = valid, OF inv(1) nz estep_serve(3)] estep_serve(4) inv(3) by auto
  obtain p1' where "handle_index idx keep p = Some p1'" "einv p1'" "wake p1' = wake p" using handle_index_ok [OF inv(1) nz] by blast
  then have "einv p1" "wake p1 = wake p" using h(1) by simp_all
  then have "registered R p'" using registered_drop_dead [OF registered_handle [OF inv(2,1) estep_serve(2) h(1)] _ _ h(2)] estep_serve(3) by simp
  then show ?case using ok einv_conserved by (simp add: erun_inv_def)
next
  case (estep_take p)
  then have inv: "einv p" "registered R p" "thread p" by (simp_all add: erun_inv_def)
  show ?case using take_handlers_ok(1-3) [OF inv(1)] take_handlers_registered [OF inv(2,1)] inv(3) einv_conserved
    by (simp add: erun_inv_def async_empty_def)
next
  case (estep_shutdown p pc)
  then show ?case by (simp add: erun_inv_def einv_def outstanding_def registered_def Shutdown_begin_def)
next
  case (estep_exit p p')
  then have inv: "einv p" "registered R p" "thread p" by (simp_all add: erun_inv_def)
  have e: "p' = p\<lparr>ereleased := ereleased p @ outstanding p, async := async_empty, newAsync := async_empty\<rparr>"
    using async_exit_ok [OF inv(1) async_exit_needs [OF estep_exit(2)]] estep_exit(2) by simp
  show ?case using inv einv_conserved [OF inv(1)] unfolding e
    by (auto simp: erun_inv_def outstanding_def registered_def some_signals_def async_empty_def aligned_def Size_def entries_def)
qed

lemma erun_inv_run: "erun R p0 p pc \<Longrightarrow> erun_inv R (p0, Loop_wait) \<Longrightarrow> erun_inv R (p, pc)"
  unfolding erun_def by (induction "(p, pc)" arbitrary: p pc rule: rtranclp_induct) (auto intro: estep_inv)

lemma started_inv:
  assumes "R (sig, c, v, h, x)"
  shows "erun_inv R (snd (SetAsyncSignalHandler True w sig c v h x EventPool_new), Loop_wait)"
  using assms by (cases sig) (auto simp: SetAsyncSignalHandler_def EventPool_new_def Let_def erun_inv_def einv_def outstanding_def registered_def
    PushBack_def async_empty_def aligned_def Size_def entries_def some_signals_def)

text \<open>As the source stands no thread is ever created at line 89: the registration fails, after the signal was retained.\<close>

lemma SetAsyncSignalHandler_unstarted:
  "\<not> thread p \<Longrightarrow> fst (SetAsyncSignalHandler False w (Some s) c v h x p) = HANDLER_OUT_OF_RESOURCES \<and>
   eretained (snd (SetAsyncSignalHandler False w (Some s) c v h x p)) = eretained p @ [s] \<and>
   ereleased (snd (SetAsyncSignalHandler False w (Some s) c v h x p)) = ereleased p \<and>
   newAsync (snd (SetAsyncSignalHandler False w (Some s) c v h x p)) = newAsync p \<and> \<not> thread (snd (SetAsyncSignalHandler False w (Some s) c v h x p))"
  by (simp add: SetAsyncSignalHandler_def Let_def)

text \<open>A plain function that is still pending when the loop ends is dereferenced as a signal.\<close>

lemma async_exit_null: "None \<in> set (asignal (newAsync p)) \<Longrightarrow> async_exit p = None"
  using async_exit_needs by (cases "async_exit p") auto


text \<open>One registration, which the loop takes over in its first round.\<close>

lemma erun_first_round:
  assumes "p0 = snd (SetAsyncSignalHandler True 9 (Some 1) CONDITION_EQ 0 7 8 EventPool_new)" and "R (Some 1, CONDITION_EQ, 0, 7, 8)"
  shows "erun R p0 (take_handlers (p0\<lparr>wakev := 0\<rparr>)) Loop_wait"
proof -
  have s: "async_serve (Some 0) True (\<lambda>_. True) p0 = Some (p0\<lparr>wakev := 0\<rparr>)"
    by (simp add: assms async_serve_def handle_index_def drop_dead.simps SetAsyncSignalHandler_def EventPool_new_def Let_def PushBack_def async_empty_def Size_def)
  have "estep R (p0, Loop_wait) (p0\<lparr>wakev := 0\<rparr>, Loop_take)"
    by (rule estep_serve [OF _ _ _ s])
       (simp_all add: assms SetAsyncSignalHandler_def EventPool_new_def Let_def PushBack_def async_empty_def Size_def)
  then show ?thesis unfolding erun_def by (meson estep_take r_into_rtranclp rtranclp.rtrancl_into_rtrancl)
qed


end
