(* ===== verification/Small_Heap.thy ===== *)
theory Small_Heap
  imports Co_Prelude
begin

text \<open>
  \<open>SmallHeap\<close> of \<open>src/common/small_heap.cpp\<close> and \<open>include/util/small_heap.h\<close>: an allocator that keeps the blocks of a memory pool in
  a \<open>std::map\<close> from addresses to nodes, with the free ones linked by iterators. The map is its sorted list of keys and a
  function from keys to nodes; an iterator is a key, \<open>None\<close> is \<open>end()\<close>. Dereferencing \<open>end()\<close>, a failed assertion and a loop that
  runs longer than there are nodes all give \<open>None\<close>. Pointer arithmetic is modulo \<open>2 ^ 64\<close>.
\<close>

definition top_addr :: nat where
  "top_addr = 2 ^ 64 - 1"

definition padd :: "nat \<Rightarrow> nat \<Rightarrow> nat" where
  "padd a n = (a + n) mod 2 ^ 64"

record sh_node =
  nlen :: nat
  nnext :: "nat option"
  nprior :: "nat option"

record small_heap =
  pool :: nat
  hlength :: nat
  total_free :: nat
  memory :: "nat list"
  node :: "nat \<Rightarrow> sh_node"
  high :: "nat list"

definition upd :: "nat \<Rightarrow> (sh_node \<Rightarrow> sh_node) \<Rightarrow> small_heap \<Rightarrow> small_heap" where
  "upd a f h = h\<lparr>node := (node h)(a := f (node h a))\<rparr>"

text \<open>\<open>memory[a]\<close>\<close>

definition mem_at :: "nat \<Rightarrow> small_heap \<Rightarrow> small_heap" where
  "mem_at a h = (if a \<in> set (memory h) then h
     else h\<lparr>memory := insort a (memory h), node := (node h)(a := \<lparr>nlen = 0, nnext = None, nprior = None\<rparr>)\<rparr>)"

definition begin_it :: "small_heap \<Rightarrow> nat option" where
  "begin_it h = (case memory h of [] \<Rightarrow> None | k # _ \<Rightarrow> Some k)"

definition isfree :: "small_heap \<Rightarrow> nat \<Rightarrow> bool" where
  "isfree h a \<longleftrightarrow> nnext (node h a) \<noteq> begin_it h"

definition islastfree :: "small_heap \<Rightarrow> nat \<Rightarrow> bool" where
  "islastfree h a \<longleftrightarrow> nnext (node h a) = None"

definition isfirstfree :: "small_heap \<Rightarrow> nat \<Rightarrow> bool" where
  "isfirstfree h a \<longleftrightarrow> nprior (node h a) = None"

definition setused :: "nat \<Rightarrow> small_heap \<Rightarrow> small_heap" where
  "setused a h = upd a (\<lambda>n. n\<lparr>nnext := begin_it h\<rparr>) h"

definition firstfree :: "small_heap \<Rightarrow> nat option" where
  "firstfree h = (case begin_it h of None \<Rightarrow> None | Some b \<Rightarrow> nnext (node h b))"

definition lastfree :: "small_heap \<Rightarrow> nat option" where
  "lastfree h = (if memory h = [] then None else nprior (node h (last (memory h))))"

definition SmallHeap_empty :: small_heap where
  "SmallHeap_empty = \<lparr>pool = 0, hlength = 0, total_free = 0, memory = [], node = (\<lambda>_. \<lparr>nlen = 0, nnext = None, nprior = None\<rparr>), high = []\<rparr>"

definition SmallHeap_new :: "nat \<Rightarrow> nat \<Rightarrow> small_heap option" where
  "SmallHeap_new base len = guarded (base \<noteq> 0 \<and> base \<noteq> top_addr \<and> padd base len \<noteq> top_addr)
     (let h0 = SmallHeap_empty\<lparr>pool := base, hlength := len, total_free := len\<rparr>;
          h1 = mem_at top_addr (mem_at base (mem_at 0 h0));
          h2 = upd 0 (\<lambda>n. n\<lparr>nlen := 0, nnext := Some base, nprior := None\<rparr>) h1;
          h3 = upd base (\<lambda>n. n\<lparr>nlen := len, nprior := begin_it h2, nnext := Some (last (memory h2))\<rparr>) h2;
          h4 = upd top_addr (\<lambda>n. n\<lparr>nlen := 0, nprior := nnext (node h3 0), nnext := None\<rparr>) h3
      in Some (h4\<lparr>high := [top_addr]\<rparr>))"

definition insertafter :: "nat \<Rightarrow> nat \<Rightarrow> small_heap \<Rightarrow> small_heap option" where
  "insertafter place nd h = guarded (place < nd \<and> isfree h place)
     (case nnext (node h place) of None \<Rightarrow> None
      | Some nx \<Rightarrow> Some (upd nx (\<lambda>n. n\<lparr>nprior := Some nd\<rparr>) (upd place (\<lambda>n. n\<lparr>nnext := Some nd\<rparr>)
          (upd nd (\<lambda>n. n\<lparr>nnext := Some nx, nprior := Some place\<rparr>) h))))"

definition heap_remove :: "nat \<Rightarrow> small_heap \<Rightarrow> small_heap option" where
  "heap_remove nd h = guarded (isfree h nd)
     (case nprior (node h nd) of None \<Rightarrow> None
      | Some p \<Rightarrow> let h1 = upd p (\<lambda>n. n\<lparr>nnext := nnext (node h nd)\<rparr>) h
          in case nnext (node h1 nd) of None \<Rightarrow> None
             | Some x \<Rightarrow> Some (setused nd (upd x (\<lambda>n. n\<lparr>nprior := nprior (node h1 nd)\<rparr>) h1)))"

definition heap_merge :: "nat \<Rightarrow> nat \<Rightarrow> small_heap \<Rightarrow> (nat \<times> small_heap) option" where
  "heap_merge low hi h = guarded (isfree h low \<and> isfree h hi)
     (if padd low (nlen (node h low)) \<noteq> hi then Some (hi, h)
      else case nnext (node h hi) of None \<Rightarrow> None
        | Some x \<Rightarrow> let h1 = upd low (\<lambda>n. n\<lparr>nlen := padd (nlen n) (nlen (node h hi)), nnext := Some x\<rparr>) h;
              h2 = upd x (\<lambda>n. n\<lparr>nprior := Some low\<rparr>) h1
          in Some (low, h2\<lparr>memory := remove1 hi (memory h2)\<rparr>))"

text \<open>\<open>before--; while (!isfree(before)) before--;\<close>\<close>

definition free_before :: "nat \<Rightarrow> small_heap \<Rightarrow> nat option" where
  "free_before a h = find (isfree h) (rev (takeWhile (\<lambda>k. k \<noteq> a) (memory h)))"

definition heap_free :: "nat \<Rightarrow> small_heap \<Rightarrow> small_heap option" where
  "heap_free ptr h =
     (if ptr = 0 then Some h
      else if ptr \<notin> set (memory h) then None
      else let h1 = h\<lparr>total_free := padd (total_free h) (nlen (node h ptr))\<rparr>
        in case free_before ptr h1 of None \<Rightarrow> None
           | Some before \<Rightarrow> guarded (case nnext (node h1 before) of None \<Rightarrow> False | Some x \<Rightarrow> ptr < x)
              (case insertafter before ptr h1 of None \<Rightarrow> None
               | Some h2 \<Rightarrow> (case heap_merge before ptr h2 of None \<Rightarrow> None
                  | Some (it, h3) \<Rightarrow> (case nnext (node h3 it) of None \<Rightarrow> None
                     | Some x \<Rightarrow> (case heap_merge it x h3 of None \<Rightarrow> None
                        | Some (_, h4) \<Rightarrow> Some (h4\<lparr>high := removeAll ptr (high h4)\<rparr>))))))"

text \<open>The part of \<open>alloc\<close> that takes a fitting block.\<close>

definition take_low :: "nat \<Rightarrow> nat \<Rightarrow> small_heap \<Rightarrow> (nat option \<times> small_heap) option" where
  "take_low current bytes h =
     (let h1 = h\<lparr>total_free := total_free h - bytes\<rparr>;
          h2 = (if bytes \<noteq> nlen (node h1 current)
                then let rest = padd current bytes;
                         h1a = mem_at rest h1;
                         h1b = upd rest (\<lambda>n. n\<lparr>nlen := nlen (node h1a current) - bytes\<rparr>) h1a;
                         h1c = upd current (\<lambda>n. n\<lparr>nlen := bytes\<rparr>) h1b
                     in insertafter current rest h1c
                else Some h1)
      in case h2 of None \<Rightarrow> None | Some g \<Rightarrow> map_option (\<lambda>g'. (Some current, g')) (heap_remove current g))"

fun alloc_loop :: "nat \<Rightarrow> nat \<Rightarrow> nat option \<Rightarrow> small_heap \<Rightarrow> (nat option \<times> small_heap) option" where
  "alloc_loop 0 bytes current h = None"
| "alloc_loop (Suc fuel) bytes None h = None"
| "alloc_loop (Suc fuel) bytes (Some current) h =
     (if islastfree h current then guarded (nlen (node h current) = 0) (Some (None, h))
      else if bytes \<le> nlen (node h current) then take_low current bytes h
      else alloc_loop fuel bytes (nnext (node h current)) h)"

definition heap_alloc :: "nat \<Rightarrow> small_heap \<Rightarrow> (nat option \<times> small_heap) option" where
  "heap_alloc bytes h = (if total_free h < bytes \<or> bytes = 0 then Some (None, h) else alloc_loop (length (memory h)) bytes (firstfree h) h)"

definition take_high :: "nat \<Rightarrow> nat \<Rightarrow> small_heap \<Rightarrow> (nat option \<times> small_heap) option" where
  "take_high current bytes h =
     (let h1 = h\<lparr>total_free := total_free h - bytes\<rparr>
      in if bytes \<noteq> nlen (node h1 current)
         then let a = padd current (nlen (node h1 current) - bytes);
                  h2 = upd current (\<lambda>n. n\<lparr>nlen := nlen n - bytes\<rparr>) h1;
                  h3 = setused a (upd a (\<lambda>n. n\<lparr>nlen := bytes\<rparr>) (mem_at a h2))
              in Some (Some a, h3\<lparr>high := List.insert a (high h3)\<rparr>)
         else map_option (\<lambda>g. (Some current, g\<lparr>high := List.insert current (high g)\<rparr>)) (heap_remove current h1))"

fun high_loop :: "nat \<Rightarrow> nat \<Rightarrow> nat option \<Rightarrow> small_heap \<Rightarrow> (nat option \<times> small_heap) option" where
  "high_loop 0 bytes current h = None"
| "high_loop (Suc fuel) bytes None h = None"
| "high_loop (Suc fuel) bytes (Some current) h =
     (if isfirstfree h current then guarded (nlen (node h current) = 0) (Some (None, h))
      else if bytes \<le> nlen (node h current) then take_high current bytes h
      else high_loop fuel bytes (nprior (node h current)) h)"

definition heap_alloc_high :: "nat \<Rightarrow> small_heap \<Rightarrow> (nat option \<times> small_heap) option" where
  "heap_alloc_high bytes h = (if total_free h < bytes \<or> bytes = 0 then Some (None, h) else high_loop (length (memory h)) bytes (lastfree h) h)"

text \<open>\<open>*high.begin()\<close>; the set is kept without its order.\<close>

definition high_split :: "small_heap \<Rightarrow> nat option" where
  "high_split h = (if high h = [] then None else Some (Min (set (high h))))"

subsection \<open>Blocks: what the heap represents\<close>

text \<open>The blocks of the pool in address order: address, length, free.\<close>

type_synonym block = "nat \<times> nat \<times> bool"

abbreviation faddrs :: "block list \<Rightarrow> nat list" where
  "faddrs bs \<equiv> map fst (filter (\<lambda>b. snd (snd b)) bs)"

definition chain :: "block list \<Rightarrow> nat list" where
  "chain bs = 0 # faddrs bs @ [top_addr]"

fun linked :: "(nat \<Rightarrow> sh_node) \<Rightarrow> nat list \<Rightarrow> bool" where
  "linked nd (x # y # r) \<longleftrightarrow> nnext (nd x) = Some y \<and> nprior (nd y) = Some x \<and> linked nd (y # r)"
| "linked nd _ \<longleftrightarrow> True"

fun tiled :: "nat \<Rightarrow> block list \<Rightarrow> nat \<Rightarrow> bool" where
  "tiled a [] e \<longleftrightarrow> a = e"
| "tiled a ((k, l, f) # bs) e \<longleftrightarrow> k = a \<and> 0 < l \<and> tiled (a + l) bs e"

definition compact :: "block list \<Rightarrow> bool" where
  "compact bs \<longleftrightarrow> successively (\<lambda>b c. \<not> (snd (snd b) \<and> snd (snd c))) bs"

definition free_sum :: "block list \<Rightarrow> nat" where
  "free_sum bs = sum_list (map (\<lambda>b. fst (snd b)) (filter (\<lambda>b. snd (snd b)) bs))"

definition nodes_ok :: "(nat \<Rightarrow> sh_node) \<Rightarrow> block list \<Rightarrow> bool" where
  "nodes_ok nd bs \<longleftrightarrow> (\<forall>(k, l, f)\<in>set bs. nlen (nd k) = l \<and> (\<not> f \<longrightarrow> nnext (nd k) = Some 0)) \<and> nlen (nd 0) = 0 \<and> nlen (nd top_addr) = 0 \<and>
     nnext (nd top_addr) = None \<and> nprior (nd 0) = None"

definition rep :: "block list \<Rightarrow> small_heap \<Rightarrow> bool" where
  "rep bs h \<longleftrightarrow> memory h = 0 # map fst bs @ [top_addr] \<and> nodes_ok (node h) bs \<and> linked (node h) (chain bs)"

definition fits_pool :: "nat \<Rightarrow> nat \<Rightarrow> block list \<Rightarrow> bool" where
  "fits_pool base len bs \<longleftrightarrow> 0 < base \<and> base + len < top_addr \<and> tiled base bs (base + len)"

subsection \<open>Linked nodes\<close>

lemma linked_append: "linked nd (xs @ y # ys) \<longleftrightarrow> linked nd (xs @ [y]) \<and> linked nd (y # ys)"
proof (induction xs)
  case (Cons x xs)
  then show ?case by (cases xs) auto
qed simp

lemma linked_cong:
  "linked nd xs \<Longrightarrow> (\<And>x. x \<in> set (butlast xs) \<Longrightarrow> nnext (nd' x) = nnext (nd x)) \<Longrightarrow> (\<And>x. x \<in> set (tl xs) \<Longrightarrow> nprior (nd' x) = nprior (nd x)) \<Longrightarrow>
   linked nd' xs"
proof (induction nd xs rule: linked.induct)
  case (1 nd x y r)
  have "linked nd' (y # r)" using 1 by (intro 1(1)) (auto dest: in_set_butlastD)
  then show ?case using 1(2-) by simp
qed simp_all

lemma linked_ends:
  assumes "linked nd (xs @ [x])" and "linked nd (y # ys)" and "distinct (xs @ x # y # ys)" and "z \<notin> set (xs @ x # y # ys)"
    and "\<And>k. k \<noteq> x \<Longrightarrow> k \<noteq> z \<Longrightarrow> nnext (nd' k) = nnext (nd k)" and "\<And>k. k \<noteq> y \<Longrightarrow> k \<noteq> z \<Longrightarrow> nprior (nd' k) = nprior (nd k)"
  shows "linked nd' (xs @ [x])" and "linked nd' (y # ys)"
proof -
  have t: "k \<noteq> y \<and> k \<noteq> z" if "k \<in> set (tl (xs @ [x]))" for k
    using that assms(3,4) list.set_sel(2) [of "xs @ [x]" k] by auto
  have b: "k \<noteq> x \<and> k \<noteq> z" if "k \<in> set (butlast (y # ys))" for k
    using in_set_butlastD [OF that] assms(3,4) by auto
  show "linked nd' (xs @ [x])"
  proof (rule linked_cong [OF assms(1)])
    fix k
    show "nnext (nd' k) = nnext (nd k)" if "k \<in> set (butlast (xs @ [x]))" using that assms(3,4) by (intro assms(5)) auto
    show "nprior (nd' k) = nprior (nd k)" if "k \<in> set (tl (xs @ [x]))" using t [OF that] by (intro assms(6)) auto
  qed
  show "linked nd' (y # ys)"
  proof (rule linked_cong [OF assms(2)])
    fix k
    show "nnext (nd' k) = nnext (nd k)" if "k \<in> set (butlast (y # ys))" using b [OF that] by (intro assms(5)) auto
    show "nprior (nd' k) = nprior (nd k)" if "k \<in> set (tl (y # ys))" using that assms(3,4) by (intro assms(6)) auto
  qed
qed

lemma linked_insert:
  assumes "linked nd (xs @ x # y # ys)" and "distinct (xs @ x # y # ys)" and "z \<notin> set (xs @ x # y # ys)"
    and "nnext (nd' x) = Some z" and "nprior (nd' z) = Some x" and "nnext (nd' z) = Some y" and "nprior (nd' y) = Some z"
    and "\<And>k. k \<noteq> x \<Longrightarrow> k \<noteq> z \<Longrightarrow> nnext (nd' k) = nnext (nd k)" and "\<And>k. k \<noteq> y \<Longrightarrow> k \<noteq> z \<Longrightarrow> nprior (nd' k) = nprior (nd k)"
  shows "linked nd' (xs @ x # z # y # ys)"
proof -
  have l: "linked nd (xs @ [x])" "linked nd (y # ys)" using assms(1) linked_append [of nd xs x "y # ys"] by simp_all
  show ?thesis using linked_ends [where nd' = nd', OF l assms(2,3,8,9)] assms(4-7) linked_append [of nd' xs x "z # y # ys"] by simp
qed

lemma linked_delete:
  assumes "linked nd (xs @ x # z # y # ys)" and "distinct (xs @ x # z # y # ys)"
    and "nnext (nd' x) = Some y" and "nprior (nd' y) = Some x"
    and "\<And>k. k \<noteq> x \<Longrightarrow> k \<noteq> z \<Longrightarrow> nnext (nd' k) = nnext (nd k)" and "\<And>k. k \<noteq> y \<Longrightarrow> k \<noteq> z \<Longrightarrow> nprior (nd' k) = nprior (nd k)"
  shows "linked nd' (xs @ x # y # ys)"
proof -
  have l: "linked nd (xs @ [x])" "linked nd (y # ys)" using assms(1) linked_append [of nd xs x "z # y # ys"] by simp_all
  have d: "distinct (xs @ x # y # ys)" "z \<notin> set (xs @ x # y # ys)" using assms(2) by auto
  show ?thesis using linked_ends [where nd' = nd', OF l d assms(5,6)] assms(3,4) linked_append [of nd' xs x "y # ys"] by simp
qed

lemma linked_next: "linked nd (xs @ x # y # ys) \<Longrightarrow> nnext (nd x) = Some y \<and> nprior (nd y) = Some x"
  using linked_append [of nd xs x "y # ys"] by simp

subsection \<open>Blocks of the pool\<close>

lemma tiled_append: "tiled a (xs @ ys) e \<longleftrightarrow> (\<exists>m. tiled a xs m \<and> tiled m ys e)"
  by (induction a xs e rule: tiled.induct) auto

lemma tiled_bounds: "tiled a bs e \<Longrightarrow> a \<le> e \<and> (\<forall>(k, l, f)\<in>set bs. a \<le> k \<and> 0 < l \<and> k + l \<le> e)"
  by (induction a bs e rule: tiled.induct) fastforce+

lemma tiled_sorted: "tiled a bs e \<Longrightarrow> sorted (map fst bs) \<and> distinct (map fst bs) \<and> (\<forall>k\<in>set (map fst bs). a \<le> k \<and> k < e)"
proof (induction a bs e rule: tiled.induct)
  case (2 a k l f bs e)
  then have "sorted (map fst bs)" "distinct (map fst bs)" "\<forall>k\<in>set (map fst bs). a + l \<le> k \<and> k < e" "k = a" "0 < l" "a + l \<le> e"
    using tiled_bounds [of "a + l" bs e] by auto
  then show ?case by fastforce
qed simp

lemma fits_addrs:
  assumes "fits_pool base len bs" and "(k, l, f) \<in> set bs"
  shows "0 < k" and "0 < l" and "k + l < top_addr" and "base \<le> k" and "k + l \<le> base + len"
  using assms tiled_bounds [of base bs "base + len"] unfolding fits_pool_def by fastforce+

lemma fits_distinct:
  assumes "fits_pool base len bs"
  shows "distinct (0 # map fst bs @ [top_addr])" and "sorted (0 # map fst bs @ [top_addr])"
  using assms tiled_sorted [of base bs "base + len"] unfolding fits_pool_def by (fastforce simp: sorted_append)+

lemma faddrs_subset: "set (faddrs bs) \<subseteq> set (map fst bs)" by auto

lemma chain_distinct: "fits_pool base len bs \<Longrightarrow> distinct (chain bs)"
  using fits_distinct(1) [of base len bs] unfolding chain_def by (auto simp: distinct_map_filter)

lemma top_addr_bound: "k < top_addr \<Longrightarrow> k mod 2 ^ 64 = k"
  by (simp add: top_addr_def)

lemma padd_in: "a + n < top_addr \<Longrightarrow> padd a n = a + n"
  unfolding padd_def by (rule top_addr_bound)

subsection \<open>The operations on nodes\<close>

lemma upd_simps [simp]:
  "memory (upd a f h) = memory h" "node (upd a f h) = (node h)(a := f (node h a))" "total_free (upd a f h) = total_free h"
  "high (upd a f h) = high h" "begin_it (upd a f h) = begin_it h" "pool (upd a f h) = pool h" "hlength (upd a f h) = hlength h"
  by (simp_all add: upd_def begin_it_def)

lemma rep_begin: "rep bs h \<Longrightarrow> begin_it h = Some 0"
  by (simp add: rep_def begin_it_def)

lemma insertafter_node:
  assumes "begin_it h = Some 0" and "nnext (node h x) = Some y" and "0 < y" and "x < z" and "y \<noteq> x" and "y \<noteq> z"
  shows "insertafter x z h = Some (h\<lparr>node := (node h)(z := (node h z)\<lparr>nnext := Some y, nprior := Some x\<rparr>, x := (node h x)\<lparr>nnext := Some z\<rparr>,
    y := (node h y)\<lparr>nprior := Some z\<rparr>)\<rparr>)"
  using assms by (simp add: insertafter_def isfree_def upd_def)

lemma heap_remove_node:
  assumes "begin_it h = Some 0" and "nnext (node h z) = Some y" and "nprior (node h z) = Some x" and "0 < y" and "x \<noteq> z" and "y \<noteq> z" and "x \<noteq> y"
  shows "heap_remove z h = Some (h\<lparr>node := (node h)(x := (node h x)\<lparr>nnext := Some y\<rparr>, y := (node h y)\<lparr>nprior := Some x\<rparr>,
    z := (node h z)\<lparr>nnext := Some 0\<rparr>)\<rparr>)"
  using assms by (simp add: heap_remove_def isfree_def Let_def setused_def upd_def begin_it_def)

lemma heap_merge_apart:
  "isfree h low \<Longrightarrow> isfree h hi \<Longrightarrow> padd low (nlen (node h low)) \<noteq> hi \<Longrightarrow> heap_merge low hi h = Some (hi, h)"
  by (simp add: heap_merge_def)

lemma heap_merge_node:
  assumes "isfree h x" and "isfree h z" and "padd x (nlen (node h x)) = z" and "nnext (node h z) = Some y" and "x \<noteq> y" and "x \<noteq> z"
  shows "heap_merge x z h = Some (x, h\<lparr>node := (node h)(x := (node h x)\<lparr>nlen := padd (nlen (node h x)) (nlen (node h z)), nnext := Some y\<rparr>,
    y := (node h y)\<lparr>nprior := Some x\<rparr>), memory := remove1 z (memory h)\<rparr>)"
  using assms by (simp add: heap_merge_def Let_def upd_def)

subsection \<open>Where the free blocks are\<close>

lemma chain_split: "chain (pre @ (a, l, True) # post) = (0 # faddrs pre) @ a # faddrs post @ [top_addr]"
  by (simp add: chain_def)

lemma chain_set: "set (chain (pre @ (a, l, True) # post)) = set (0 # faddrs pre) \<union> insert a (set (faddrs post @ [top_addr]))"
  by (simp add: chain_def) blast

lemma chain_used: "chain (pre @ (a, l, False) # post) = (0 # faddrs pre) @ faddrs post @ [top_addr]"
  by (simp add: chain_def)

lemma snoc_ex: "\<exists>xs x. y # ys = xs @ [x]"
  by (metis append_butlast_last_id list.distinct(1))

text \<open>The neighbours of a place in the chain.\<close>

lemma chain_neighbours:
  obtains xs x y ys where "0 # faddrs pre = xs @ [x]" and "faddrs post @ [top_addr] = y # ys"
  using snoc_ex [of 0 "faddrs pre"] by (metis append_is_Nil_conv neq_Nil_conv)

lemma linked_next_pos:
  "linked nd (x # xs) \<Longrightarrow> k \<in> set (x # xs) \<Longrightarrow> 0 \<notin> set xs \<Longrightarrow> nnext (nd (last (x # xs))) = None \<Longrightarrow> nnext (nd k) \<noteq> Some 0"
proof (induction xs arbitrary: x)
  case (Cons y ys)
  then show ?case by (cases "k = x") auto
qed auto

lemma isfree_iff:
  assumes "rep bs h" and "fits_pool base len bs" and "k \<in> set (memory h)"
  shows "isfree h k \<longleftrightarrow> k \<in> set (chain bs)"
proof -
  have "0 \<notin> set (faddrs bs @ [top_addr])" using chain_distinct [OF assms(2)] by (simp add: chain_def)
  then have "nnext (node h k) \<noteq> Some 0" if "k \<in> set (chain bs)"
    using linked_next_pos [of "node h" 0 "faddrs bs @ [top_addr]" k] assms(1) that by (simp add: rep_def chain_def nodes_ok_def)
  moreover have "nnext (node h k) = Some 0" if nk: "k \<notin> set (chain bs)"
  proof -
    have "k \<in> set (map fst bs)" using nk assms(1,3) by (auto simp: rep_def chain_def)
    then obtain l f where "(k, l, f) \<in> set bs" by auto
    moreover from this have "\<not> f" using nk by (force simp: chain_def)
    ultimately show ?thesis using assms(1) by (auto simp: rep_def nodes_ok_def)
  qed
  ultimately show ?thesis using rep_begin [OF assms(1)] by (auto simp: isfree_def)
qed

lemma insort_between: "\<forall>x\<in>set xs. x < z \<Longrightarrow> \<forall>y\<in>set ys. z < y \<Longrightarrow> insort z (xs @ ys) = xs @ z # (ys :: nat list)"
proof (induction xs)
  case Nil
  then show ?case by (cases ys) auto
next
  case (Cons x xs)
  then show ?case by auto
qed

subsection \<open>Allocation takes the first fitting block\<close>

fun spec_alloc :: "nat \<Rightarrow> block list \<Rightarrow> (nat \<times> block list) option" where
  "spec_alloc n [] = None"
| "spec_alloc n ((a, l, f) # bs) =
     (if f \<and> n \<le> l then Some (a, (a, n, False) # (if n = l then [] else [(a + n, l - n, True)]) @ bs)
      else map_option (\<lambda>(r, bs'). (r, (a, l, f) # bs')) (spec_alloc n bs))"

lemma spec_alloc_Some:
  "spec_alloc n bs = Some (r, bs') \<Longrightarrow> \<exists>pre l post. bs = pre @ (r, l, True) # post \<and> n \<le> l \<and> (\<forall>(k, m, f)\<in>set pre. f \<longrightarrow> m < n) \<and>
     bs' = pre @ (r, n, False) # (if n = l then [] else [(r + n, l - n, True)]) @ post"
proof (induction n bs arbitrary: bs' rule: spec_alloc.induct)
  case (2 n a l f bs)
  show ?case
  proof (cases "f \<and> n \<le> l")
    case True
    then show ?thesis using 2(2) by (intro exI [of _ "[]"] exI [of _ l] exI [of _ bs]) auto
  next
    case False
    then obtain bs'' where b: "spec_alloc n bs = Some (r, bs'')" "bs' = (a, l, f) # bs''" using 2(2) by (cases "f \<and> n \<le> l") auto
    from 2(1) [OF False b(1)] obtain pre m post where p: "bs = pre @ (r, m, True) # post" "n \<le> m" "\<forall>(k, m, f)\<in>set pre. f \<longrightarrow> m < n"
      "bs'' = pre @ (r, n, False) # (if n = m then [] else [(r + n, m - n, True)]) @ post" by blast
    show ?thesis using p b(2) False by (intro exI [of _ "(a, l, f) # pre"] exI [of _ m] exI [of _ post]) auto
  qed
qed simp

lemma spec_alloc_None: "spec_alloc n bs = None \<longleftrightarrow> (\<forall>(k, m, f)\<in>set bs. f \<longrightarrow> m < n)"
  by (induction n bs rule: spec_alloc.induct) auto

lemma alloc_loop_walk:
  assumes "rep (pre @ suf) h" and "fits_pool base len (pre @ suf)" and "length suf < fuel" and "0 < n"
  shows "alloc_loop fuel n (Some (hd (faddrs suf @ [top_addr]))) h =
    (case spec_alloc n suf of None \<Rightarrow> Some (None, h) | Some (r, _) \<Rightarrow> take_low r n h)"
  using assms
proof (induction suf arbitrary: pre fuel)
  case Nil
  then obtain f where "fuel = Suc f" by (cases fuel) auto
  then show ?case using Nil by (simp add: islastfree_def rep_def nodes_ok_def)
next
  case (Cons b suf)
  obtain a l f where b: "b = (a, l, f)" by (cases b) auto
  obtain g where g: "fuel = Suc g" using Cons.prems(3) by (cases fuel) auto
  have ih: "alloc_loop fu n (Some (hd (faddrs suf @ [top_addr]))) h = (case spec_alloc n suf of None \<Rightarrow> Some (None, h) | Some (r, _) \<Rightarrow> take_low r n h)"
    if "length suf < fu" for fu
    using Cons.IH [of "pre @ [b]" fu] Cons.prems that by simp
  show ?case
  proof (cases f)
    case False
    then show ?thesis using ih [of fuel] Cons.prems(3) unfolding b by (simp split: option.splits)
  next
    case True
    obtain xs x y ys where c: "0 # faddrs pre = xs @ [x]" "faddrs suf @ [top_addr] = y # ys" by (rule chain_neighbours)
    have "linked (node h) ((0 # faddrs pre) @ a # y # ys)" using Cons.prems(1) True c unfolding rep_def b by (simp add: chain_split)
    then have nx: "nnext (node h a) = Some y" using linked_next [of "node h" "0 # faddrs pre" a y ys] by simp
    have ln: "nlen (node h a) = l" using Cons.prems(1) by (simp add: rep_def nodes_ok_def b)
    show ?thesis using True ih [of g] Cons.prems(3) c(2) nx ln unfolding b g by (auto simp: islastfree_def split: option.splits)
  qed
qed

lemma fits_around:
  assumes "fits_pool base len (pre @ (a, l, f) # post)"
  shows "\<forall>k\<in>set (0 # map fst pre). k < a" and "\<forall>k\<in>set (map fst post @ [top_addr]). a + l \<le> k"
proof -
  obtain m where t: "tiled base pre m" "tiled m ((a, l, f) # post) (base + len)" using assms unfolding fits_pool_def tiled_append by blast
  have a: "a = m" "tiled (a + l) post (base + len)" "a + l \<le> base + len" using t(2) tiled_bounds [of "a + l" post "base + len"] by auto
  have "0 < a" using fits_addrs(1) [OF assms, of a l f] by simp
  then show "\<forall>k\<in>set (0 # map fst pre). k < a" using tiled_sorted [OF t(1)] a(1) by auto
  show "\<forall>k\<in>set (map fst post @ [top_addr]). a + l \<le> k" using tiled_sorted [OF a(2)] a(3) assms by (auto simp: fits_pool_def)
qed

lemma block_apart:
  assumes "fits_pool base len (pre @ (a, l, f) # post)" and "(k, m, g) \<in> set pre \<union> set post"
  shows "k < a \<or> a + l \<le> k"
proof -
  have "k \<in> set (map fst pre) \<or> k \<in> set (map fst post)" using assms(2) by (metis Un_iff fst_conv image_eqI set_map)
  then show ?thesis using fits_around [OF assms(1)] by auto
qed

lemma chain_memory: "rep bs h \<Longrightarrow> set (chain bs) \<subseteq> set (memory h)"
  by (auto simp: rep_def chain_def)

lemma used_not_chained:
  assumes "fits_pool base len bs" and "(k, m, False) \<in> set bs"
  shows "k \<notin> set (chain bs)"
proof -
  have d: "distinct (map fst bs)" "0 \<notin> set (map fst bs)" "top_addr \<notin> set (map fst bs)" using fits_distinct(1) [OF assms(1)] by auto
  have k: "k \<in> set (map fst bs)" using assms(2) by force
  have "k \<notin> set (faddrs bs)"
  proof
    assume "k \<in> set (faddrs bs)"
    then obtain l where "(k, l, True) \<in> set bs" by auto
    then show False using eq_key_imp_eq_value [OF d(1) _ assms(2)] by blast
  qed
  moreover have "k \<noteq> 0" "k \<noteq> top_addr" using k d(2,3) by metis+
  ultimately show ?thesis by (simp add: chain_def)
qed

lemma nodes_ok_len: "nodes_ok nd bs \<Longrightarrow> (k, l, f) \<in> set bs \<Longrightarrow> nlen (nd k) = l"
  by (auto simp: nodes_ok_def)

lemma nodes_ok_used: "nodes_ok nd bs \<Longrightarrow> (k, l, False) \<in> set bs \<Longrightarrow> nnext (nd k) = Some 0"
  by (auto simp: nodes_ok_def)

lemma nodes_ok_ends:
  "nodes_ok nd bs \<Longrightarrow> nlen (nd 0) = 0" "nodes_ok nd bs \<Longrightarrow> nlen (nd top_addr) = 0" "nodes_ok nd bs \<Longrightarrow> nnext (nd top_addr) = None"
  "nodes_ok nd bs \<Longrightarrow> nprior (nd 0) = None"
  by (simp_all add: nodes_ok_def)

lemma nodes_okI:
  "(\<And>k l f. (k, l, f) \<in> set bs \<Longrightarrow> nlen (nd k) = l) \<Longrightarrow> (\<And>k l. (k, l, False) \<in> set bs \<Longrightarrow> nnext (nd k) = Some 0) \<Longrightarrow>
   nlen (nd 0) = 0 \<Longrightarrow> nlen (nd top_addr) = 0 \<Longrightarrow> nnext (nd top_addr) = None \<Longrightarrow> nprior (nd 0) = None \<Longrightarrow> nodes_ok nd bs"
  by (auto simp: nodes_ok_def)

text \<open>Taking a free block out of the chain.\<close>

lemma remove_rep:
  assumes "rep (pre @ (a, l, True) # post) h" and "fits_pool base len (pre @ (a, l, True) # post)"
  shows "\<exists>nd. heap_remove a h = Some (h\<lparr>node := nd\<rparr>) \<and> rep (pre @ (a, l, False) # post) (h\<lparr>node := nd\<rparr>)"
proof -
  let ?bs = "pre @ (a, l, True) # post" and ?bs' = "pre @ (a, l, False) # post"
  obtain xs x y ys where c: "0 # faddrs pre = xs @ [x]" "faddrs post @ [top_addr] = y # ys" by (rule chain_neighbours)
  have ch: "chain ?bs = xs @ x # a # y # ys" unfolding chain_split c by simp
  have cu: "chain ?bs' = xs @ x # y # ys" unfolding chain_used c by simp
  have d: "distinct (xs @ x # a # y # ys)" using chain_distinct [OF assms(2)] ch by simp
  have lk: "linked (node h) (xs @ x # a # y # ys)" and ok: "nodes_ok (node h) ?bs" using assms(1) ch by (simp_all add: rep_def)
  have na: "nnext (node h a) = Some y" "nprior (node h a) = Some x"
    using linked_next [of "node h" "xs @ [x]" a y ys] linked_next [of "node h" xs x a "y # ys"] lk by simp_all
  have dt: "distinct ((0 # faddrs pre) @ a # y # ys)" using d unfolding c by simp
  then have y0: "0 < y" by auto
  have xt: "x \<noteq> top_addr" and at: "a \<noteq> top_addr"
  proof -
    have "top_addr \<in> set (y # ys)" unfolding c(2) [symmetric] by simp
    then show "x \<noteq> top_addr" "a \<noteq> top_addr" using d by auto
  qed
  define nd where "nd = (node h)(x := (node h x)\<lparr>nnext := Some y\<rparr>, y := (node h y)\<lparr>nprior := Some x\<rparr>, a := (node h a)\<lparr>nnext := Some 0\<rparr>)"
  have r: "heap_remove a h = Some (h\<lparr>node := nd\<rparr>)" unfolding nd_def using heap_remove_node [OF rep_begin [OF assms(1)] na y0] d by auto
  have "linked nd (xs @ x # y # ys)" by (rule linked_delete [OF lk d]) (use d in \<open>auto simp: nd_def\<close>)
  moreover have "nodes_ok nd ?bs'"
  proof -
    have ln: "nlen (nd k) = nlen (node h k)" for k by (simp add: nd_def)
    have us: "nnext (nd k) = Some 0" if "(k, m, False) \<in> set ?bs'" for k m
    proof (cases "k = a")
      case False
      then have m: "(k, m, False) \<in> set ?bs" using that by auto
      then have "k \<noteq> x" using used_not_chained [OF assms(2) m] unfolding ch by auto
      then show ?thesis using nodes_ok_used [OF ok m] False by (auto simp: nd_def)
    qed (simp add: nd_def)
    have "nlen (nd k) = m" if "(k, m, f) \<in> set ?bs'" for k m f
    proof -
      have "(k, m, f) \<in> set ?bs \<or> (k, m, True) \<in> set ?bs" using that by auto
      then show ?thesis using nodes_ok_len [OF ok] ln by auto
    qed
    moreover have "nnext (nd top_addr) = None" "nprior (nd 0) = None" using nodes_ok_ends [OF ok] xt at y0 by (auto simp: nd_def)
    moreover have "nlen (nd 0) = 0" "nlen (nd top_addr) = 0" using nodes_ok_ends [OF ok] by (simp_all add: ln)
    ultimately show ?thesis using us by (intro nodes_okI) blast+
  qed
  ultimately show ?thesis using r assms(1) cu by (auto simp: rep_def)
qed

text \<open>Cutting a free block in two.\<close>

lemma split_rep:
  assumes "rep (pre @ (a, l, True) # post) h" and "fits_pool base len (pre @ (a, l, True) # post)" and "0 < n" and "n < l"
    and "h1 = upd a (\<lambda>k. k\<lparr>nlen := n\<rparr>) (upd (a + n) (\<lambda>k. k\<lparr>nlen := l - n\<rparr>) (mem_at (a + n) h))"
  shows "\<exists>g. insertafter a (a + n) h1 = Some g \<and> rep (pre @ (a, n, True) # (a + n, l - n, True) # post) g \<and>
    total_free g = total_free h \<and> high g = high h"
proof -
  let ?bs = "pre @ (a, l, True) # post" and ?bs' = "pre @ (a, n, True) # (a + n, l - n, True) # post"
  obtain xs x y ys where c: "0 # faddrs pre = xs @ [x]" "faddrs post @ [top_addr] = y # ys" by (rule chain_neighbours)
  have ch: "chain ?bs = (0 # faddrs pre) @ a # y # ys" unfolding chain_split c by simp
  have cu: "chain ?bs' = (0 # faddrs pre) @ a # (a + n) # y # ys" using c by (simp add: chain_def)
  have d: "distinct ((0 # faddrs pre) @ a # y # ys)" using chain_distinct [OF assms(2)] ch by simp
  have lk: "linked (node h) ((0 # faddrs pre) @ a # y # ys)" and ok: "nodes_ok (node h) ?bs" and mem: "memory h = 0 # map fst ?bs @ [top_addr]"
    using assms(1) ch by (simp_all add: rep_def)
  have nx: "nnext (node h a) = Some y" using linked_next [OF lk] by simp
  have y0: "0 < y" using d by auto
  have lo: "\<forall>k\<in>set (0 # map fst pre @ [a]). k < a + n" and hi: "\<forall>k\<in>set (map fst post @ [top_addr]). a + n < k"
    using fits_around [OF assms(2)] assms(3,4) by fastforce+
  have mem': "memory h = (0 # map fst pre @ [a]) @ map fst post @ [top_addr]" using mem by simp
  have new: "a + n \<notin> set (memory h)" unfolding mem' set_append [of "0 # map fst pre @ [a]"]
    using bspec [OF lo, of "a + n"] bspec [OF hi, of "a + n"] by (metis Un_iff less_irrefl)
  have newc: "a + n \<notin> set ((0 # faddrs pre) @ a # y # ys)" using new unfolding ch [symmetric] mem by (auto simp: chain_def)
  define nd where "nd = (node h)(a + n := \<lparr>nlen = l - n, nnext = Some y, nprior = Some a\<rparr>, a := (node h a)\<lparr>nlen := n, nnext := Some (a + n)\<rparr>,
    y := (node h y)\<lparr>nprior := Some (a + n)\<rparr>)"
  have ins: "insert_at = insort (a + n) (memory h) \<Longrightarrow> insert_at = 0 # map fst pre @ a # (a + n) # map fst post @ [top_addr]" for insert_at
    using insort_between [OF lo hi] unfolding mem' by simp
  have ya: "y \<noteq> a" "y \<noteq> a + n" using d newc by auto
  have an: "a + n \<noteq> a" using assms(3) by simp
  have h1: "h1 = h\<lparr>memory := 0 # map fst pre @ a # (a + n) # map fst post @ [top_addr],
      node := (node h)(a + n := \<lparr>nlen = l - n, nnext = None, nprior = None\<rparr>, a := (node h a)\<lparr>nlen := n\<rparr>)\<rparr>"
    using new ins [OF refl] an unfolding assms(5) by (simp add: mem_at_def upd_def)
  have "insertafter a (a + n) h1 = Some (h\<lparr>memory := 0 # map fst pre @ a # (a + n) # map fst post @ [top_addr], node := nd\<rparr>)"
  proof -
    have p: "begin_it h1 = Some 0" "nnext (node h1 a) = Some y" "a < a + n" using nx an assms(3) by (simp_all add: h1 begin_it_def)
    show ?thesis unfolding insertafter_node [OF p(1,2) y0 p(3) ya] using an ya by (auto simp: h1 nd_def fun_eq_iff)
  qed
  moreover have "linked nd ((0 # faddrs pre) @ a # (a + n) # y # ys)"
    by (rule linked_insert [OF lk d newc]) (use an ya in \<open>auto simp: nd_def\<close>)
  moreover have "nodes_ok nd ?bs'"
  proof -
    have bl: "k \<noteq> a \<and> k \<noteq> a + n \<and> (k, m, f) \<in> set ?bs" if "(k, m, f) \<in> set pre \<or> (k, m, f) \<in> set post" for k m f
    proof -
      have "k < a \<or> a + l \<le> k" using block_apart [OF assms(2), of k m f] that by blast
      then show ?thesis using assms(3,4) that by auto
    qed
    have ends: "a \<noteq> 0" "a + n \<noteq> 0" "a \<noteq> top_addr" "a + n \<noteq> top_addr" using fits_addrs [OF assms(2), of a l True] assms(4) by auto
    show ?thesis
    proof (rule nodes_okI)
      show "nlen (nd k) = m" if "(k, m, f) \<in> set ?bs'" for k m f
        using that bl [of k m f] nodes_ok_len [OF ok, of k m f] an ya by (auto simp: nd_def)
      show "nnext (nd k) = Some 0" if "(k, m, False) \<in> set ?bs'" for k m
        using that bl [of k m False] nodes_ok_used [OF ok, of k m] by (auto simp: nd_def)
    qed (use nodes_ok_ends [OF ok] ends y0 in \<open>auto simp: nd_def\<close>)
  qed
  ultimately show ?thesis unfolding rep_def cu by simp
qed

lemma fits_replace:
  assumes "fits_pool base len (pre @ mid @ post)" and "\<And>a e. tiled a mid e \<Longrightarrow> tiled a mid' e"
  shows "fits_pool base len (pre @ mid' @ post)"
  using assms unfolding fits_pool_def tiled_append by blast

lemma fits_split:
  "fits_pool base len (pre @ (a, l, f) # post) \<Longrightarrow> 0 < n \<Longrightarrow> n < l \<Longrightarrow> fits_pool base len (pre @ (a, n, g) # (a + n, l - n, g') # post)"
  using fits_replace [of base len pre "[(a, l, f)]" post "[(a, n, g), (a + n, l - n, g')]"] by simp

lemma fits_mark: "fits_pool base len (pre @ (a, l, f) # post) \<Longrightarrow> fits_pool base len (pre @ (a, l, g) # post)"
  using fits_replace [of base len pre "[(a, l, f)]" post "[(a, l, g)]"] by simp

lemma rep_frame [simp]: "rep bs (h\<lparr>total_free := t\<rparr>) = rep bs h" "rep bs (h\<lparr>high := x\<rparr>) = rep bs h"
  by (simp_all add: rep_def)

lemma take_low_rep:
  assumes "rep (pre @ (a, l, True) # post) h" and "fits_pool base len (pre @ (a, l, True) # post)" and "0 < n" and "n \<le> l"
  shows "\<exists>g. take_low a n h = Some (Some a, g) \<and> rep (pre @ (a, n, False) # (if n = l then [] else [(a + n, l - n, True)]) @ post) g \<and>
    total_free g = total_free h - n \<and> high g = high h"
proof -
  let ?h = "h\<lparr>total_free := total_free h - n\<rparr>"
  have r: "rep (pre @ (a, l, True) # post) ?h" using assms(1) by simp
  have ln: "nlen (node h a) = l" using assms(1) nodes_ok_len [of "node h" "pre @ (a, l, True) # post" a l True] by (simp add: rep_def)
  show ?thesis
  proof (cases "n = l")
    case True
    then show ?thesis using remove_rep [OF r assms(2)] ln by (auto simp: take_low_def Let_def)
  next
    case False
    then have nl: "n < l" using assms(4) by simp
    have p: "padd a n = a + n" using fits_addrs(3) [OF assms(2), of a l True] nl by (intro padd_in) simp
    define h1 where "h1 = upd a (\<lambda>k. k\<lparr>nlen := n\<rparr>) (upd (a + n) (\<lambda>k. k\<lparr>nlen := l - n\<rparr>) (mem_at (a + n) ?h))"
    obtain g where g: "insertafter a (a + n) h1 = Some g" "rep (pre @ (a, n, True) # (a + n, l - n, True) # post) g"
      "total_free g = total_free h - n" "high g = high h" using split_rep [OF r assms(2,3) nl h1_def] by auto
    obtain nd where nd: "heap_remove a g = Some (g\<lparr>node := nd\<rparr>)" "rep (pre @ (a, n, False) # (a + n, l - n, True) # post) (g\<lparr>node := nd\<rparr>)"
      using remove_rep [OF g(2) fits_split [OF assms(2,3) nl]] by blast
    have "nlen (node (mem_at (a + n) ?h) a) = l" using ln assms(3) by (simp add: mem_at_def)
    then have "take_low a n h = Some (Some a, g\<lparr>node := nd\<rparr>)"
      using False ln p g(1) nd(1) unfolding h1_def by (simp add: take_low_def Let_def)
    then show ?thesis using nd(2) g(3,4) False by simp
  qed
qed

lemma rep_firstfree: "rep bs h \<Longrightarrow> firstfree h = Some (hd (faddrs bs @ [top_addr]))"
proof -
  assume r: "rep bs h"
  obtain y ys where y: "faddrs bs @ [top_addr] = y # ys" by (cases "faddrs bs @ [top_addr]") auto
  have "linked (node h) (0 # y # ys)" using r y by (simp add: rep_def chain_def)
  then show ?thesis using rep_begin [OF r] y by (simp add: firstfree_def)
qed

lemma free_sum_simps [simp]:
  "free_sum [] = 0" "free_sum ((a, l, f) # bs) = (if f then l else 0) + free_sum bs" "free_sum (bs @ cs) = free_sum bs + free_sum cs"
  by (simp_all add: free_sum_def)

definition heap_ok :: "nat \<Rightarrow> nat \<Rightarrow> block list \<Rightarrow> small_heap \<Rightarrow> bool" where
  "heap_ok base len bs h \<longleftrightarrow> rep bs h \<and> fits_pool base len bs \<and> total_free h = free_sum bs \<and> compact bs"

lemma compact_append:
  "compact (xs @ ys) \<longleftrightarrow> compact xs \<and> compact ys \<and> (xs = [] \<or> ys = [] \<or> \<not> (snd (snd (last xs)) \<and> snd (snd (hd ys))))"
  by (auto simp: compact_def successively_append_iff)

lemma compact_Cons: "compact ((a, l, f) # ys) \<longleftrightarrow> compact ys \<and> (ys = [] \<or> \<not> (f \<and> snd (snd (hd ys))))"
  by (cases ys) (auto simp: compact_def)

lemma compact_Nil [simp]: "compact []"
  by (simp add: compact_def)

lemma free_sum_member: "(k, m, True) \<in> set bs \<Longrightarrow> m \<le> free_sum bs"
  by (induction bs) auto

lemma length_memory: "rep bs h \<Longrightarrow> length (memory h) = length bs + 2"
  by (simp add: rep_def)

text \<open>\<open>alloc\<close> is first fit on the blocks.\<close>

lemma alloc_null:
  assumes "heap_ok base len bs h" and "n = 0 \<or> spec_alloc n bs = None"
  shows "heap_alloc n h = Some (None, h)"
proof (cases "total_free h < n \<or> n = 0")
  case False
  have ok: "rep bs h" "fits_pool base len bs" using assms(1) by (simp_all add: heap_ok_def)
  have "alloc_loop (length (memory h)) n (firstfree h) h = Some (None, h)"
    using alloc_loop_walk [of "[]" bs h base len "length (memory h)" n] ok False assms(2) length_memory [OF ok(1)]
    unfolding rep_firstfree [OF ok(1)] by simp
  then show ?thesis using False by (simp add: heap_alloc_def)
qed (simp add: heap_alloc_def)

lemma alloc_some:
  assumes "heap_ok base len bs h" and "0 < n" and "spec_alloc n bs = Some (r, bs')"
  shows "\<exists>g. heap_alloc n h = Some (Some r, g) \<and> heap_ok base len bs' g \<and> high g = high h"
proof -
  have ok: "rep bs h" "fits_pool base len bs" "total_free h = free_sum bs" "compact bs" using assms(1) by (simp_all add: heap_ok_def)
  obtain pre l post where p: "bs = pre @ (r, l, True) # post" "n \<le> l"
    "bs' = pre @ (r, n, False) # (if n = l then [] else [(r + n, l - n, True)]) @ post" using spec_alloc_Some [OF assms(3)] by blast
  have t: "n \<le> total_free h" using ok(3) p(2) free_sum_member [of r l bs] by (simp add: p(1))
  have "alloc_loop (length (memory h)) n (firstfree h) h = take_low r n h"
    using alloc_loop_walk [of "[]" bs h base len "length (memory h)" n] ok assms(2,3) length_memory [OF ok(1)]
    unfolding rep_firstfree [OF ok(1)] by simp
  then have e: "heap_alloc n h = take_low r n h" using t assms(2) by (simp add: heap_alloc_def)
  obtain g where g: "take_low r n h = Some (Some r, g)" "rep bs' g" "total_free g = total_free h - n" "high g = high h"
    using take_low_rep [OF ok(1,2) [unfolded p(1)] assms(2) p(2)] unfolding p(3) by blast
  have "fits_pool base len bs'" unfolding p(3)
    using fits_split [OF ok(2) [unfolded p(1)] assms(2), of False True] fits_mark [OF ok(2) [unfolded p(1)], of False] p(2) by simp
  moreover have "total_free g = free_sum bs'" using g(3) ok(3) p(1-3) by simp
  moreover have "compact bs'" using ok(4) unfolding p(1,3) by (auto simp: compact_append compact_Cons)
  ultimately show ?thesis using e g by (simp add: heap_ok_def)
qed

subsection \<open>Allocation from the other end\<close>

fun spec_high :: "nat \<Rightarrow> block list \<Rightarrow> (nat \<times> block list) option" where
  "spec_high n [] = None"
| "spec_high n ((a, l, f) # bs) = (case spec_high n bs of
      Some (r, bs') \<Rightarrow> Some (r, (a, l, f) # bs')
    | None \<Rightarrow> if f \<and> n \<le> l then Some (a + (l - n), (if n = l then [(a, n, False)] else [(a, l - n, True), (a + (l - n), n, False)]) @ bs) else None)"

lemma spec_high_None: "spec_high n bs = None \<longleftrightarrow> (\<forall>(k, m, f)\<in>set bs. f \<longrightarrow> m < n)"
proof (induction n bs rule: spec_high.induct)
  case (2 n a l f bs)
  then show ?case by (cases "spec_high n bs") auto
qed simp

lemma spec_high_snoc:
  "spec_high n (bs @ [(a, l, f)]) =
     (if f \<and> n \<le> l then Some (a + (l - n), bs @ (if n = l then [(a, n, False)] else [(a, l - n, True), (a + (l - n), n, False)]))
      else map_option (\<lambda>(r, bs'). (r, bs' @ [(a, l, f)])) (spec_high n bs))"
  by (induction bs) (auto split: option.splits)

lemma spec_high_Some:
  "spec_high n bs = Some (r, bs') \<Longrightarrow> \<exists>pre a l post. bs = pre @ (a, l, True) # post \<and> n \<le> l \<and> r = a + (l - n) \<and> (\<forall>(k, m, f)\<in>set post. f \<longrightarrow> m < n) \<and>
     bs' = pre @ (if n = l then [(a, n, False)] else [(a, l - n, True), (a + (l - n), n, False)]) @ post"
proof (induction n bs arbitrary: bs' rule: spec_high.induct)
  case (2 n a l f bs)
  show ?case
  proof (cases "spec_high n bs")
    case None
    then show ?thesis using 2(2) spec_high_None [of n bs]
      by (intro exI [of _ "[]"] exI [of _ a] exI [of _ l] exI [of _ bs]) (auto split: if_splits)
  next
    case (Some x)
    then obtain bs'' where b: "spec_high n bs = Some (r, bs'')" "bs' = (a, l, f) # bs''" using 2(2) by (cases x) auto
    from 2(1) [OF b(1)] obtain pre c m post where p: "bs = pre @ (c, m, True) # post" "n \<le> m" "r = c + (m - n)" "\<forall>(k, m, f)\<in>set post. f \<longrightarrow> m < n"
      "bs'' = pre @ (if n = m then [(c, n, False)] else [(c, m - n, True), (c + (m - n), n, False)]) @ post" by blast
    show ?thesis using p b(2) by (intro exI [of _ "(a, l, f) # pre"] exI [of _ c] exI [of _ m] exI [of _ post]) auto
  qed
qed simp

lemma high_loop_walk:
  assumes "rep (pre @ suf) h" and "fits_pool base len (pre @ suf)" and "length pre < fuel" and "0 < n"
  shows "high_loop fuel n (Some (last (0 # faddrs pre))) h =
    (case spec_high n pre of None \<Rightarrow> Some (None, h) | Some _ \<Rightarrow> (case find (\<lambda>(k, m, f). f \<and> n \<le> m) (rev pre) of None \<Rightarrow> None | Some (k, _) \<Rightarrow> take_high k n h))"
  using assms
proof (induction pre arbitrary: suf fuel rule: rev_induct)
  case Nil
  then obtain f where "fuel = Suc f" by (cases fuel) auto
  then show ?case using Nil by (simp add: isfirstfree_def rep_def nodes_ok_def)
next
  case (snoc b pre)
  obtain a l f where b: "b = (a, l, f)" by (cases b) auto
  obtain g where g: "fuel = Suc g" using snoc.prems(3) by (cases fuel) auto
  have ih: "high_loop fu n (Some (last (0 # faddrs pre))) h =
    (case spec_high n pre of None \<Rightarrow> Some (None, h) | Some _ \<Rightarrow> (case find (\<lambda>(k, m, f). f \<and> n \<le> m) (rev pre) of None \<Rightarrow> None | Some (k, _) \<Rightarrow> take_high k n h))"
    if "length pre < fu" for fu
    using snoc.IH [of "b # suf" fu] snoc.prems that by simp
  show ?case
  proof (cases f)
    case False
    then show ?thesis using ih [of fuel] snoc.prems(3) unfolding b by (simp add: spec_high_snoc split: option.splits)
  next
    case True
    obtain xs x y ys where c: "0 # faddrs pre = xs @ [x]" "faddrs suf @ [top_addr] = y # ys" by (rule chain_neighbours)
    have "linked (node h) (xs @ x # a # y # ys)" using snoc.prems(1) True c chain_split [of pre a l suf] unfolding rep_def b by simp
    then have nx: "nprior (node h a) = Some x" using linked_next [of "node h" xs x a "y # ys"] by simp
    have ln: "nlen (node h a) = l" using snoc.prems(1) by (simp add: rep_def nodes_ok_def b)
    have lx: "last (0 # faddrs pre) = x" unfolding c(1) by simp
    show ?thesis using True ih [of g, unfolded lx] snoc.prems(3) nx ln unfolding b g
      by (auto simp: isfirstfree_def spec_high_snoc split: option.splits)
  qed
qed

lemma rep_lastfree:
  assumes "rep bs h" shows "lastfree h = Some (last (0 # faddrs bs))"
proof -
  obtain xs x where x: "0 # faddrs bs = xs @ [x]" using snoc_ex [of 0 "faddrs bs"] by blast
  have "linked (node h) (xs @ x # top_addr # [])" using assms x by (metis append.assoc append_Cons append_Nil chain_def rep_def)
  then have "nprior (node h top_addr) = Some x" using linked_next by blast
  then show ?thesis unfolding x using assms by (simp add: lastfree_def rep_def)
qed

text \<open>Shrinking a free block; what is cut off is used.\<close>

lemma take_high_rep:
  assumes "rep (pre @ (a, l, True) # post) h" and "fits_pool base len (pre @ (a, l, True) # post)" and "0 < n" and "n \<le> l"
  shows "\<exists>g. take_high a n h = Some (Some (a + (l - n)), g) \<and>
    rep (pre @ (if n = l then [(a, n, False)] else [(a, l - n, True), (a + (l - n), n, False)]) @ post) g \<and>
    total_free g = total_free h - n \<and> high g = List.insert (a + (l - n)) (high h)"
proof -
  let ?h = "h\<lparr>total_free := total_free h - n\<rparr>" and ?bs = "pre @ (a, l, True) # post" and ?m = "l - n"
  let ?bs' = "pre @ (a, ?m, True) # (a + ?m, n, False) # post"
  have r: "rep ?bs ?h" using assms(1) by simp
  have ok: "nodes_ok (node h) ?bs" and lk: "linked (node h) (chain ?bs)" and mem: "memory h = (0 # map fst pre @ [a]) @ map fst post @ [top_addr]"
    using assms(1) by (simp_all add: rep_def)
  have ln: "nlen (node h a) = l" using nodes_ok_len [OF ok, of a l True] by simp
  show ?thesis
  proof (cases "n = l")
    case True
    then show ?thesis using remove_rep [OF r assms(2)] ln by (auto simp: take_high_def Let_def)
  next
    case False
    then have nl: "n < l" using assms(4) by simp
    have m: "0 < ?m" "?m < l" using nl assms(3) by simp_all
    have p: "padd a ?m = a + ?m" using fits_addrs(3) [OF assms(2), of a l True] by (intro padd_in) simp
    have lo: "\<forall>k\<in>set (0 # map fst pre @ [a]). k < a + ?m" and hi: "\<forall>k\<in>set (map fst post @ [top_addr]). a + ?m < k"
      using fits_around [OF assms(2)] m by fastforce+
    have new: "a + ?m \<notin> set (memory h)" unfolding mem set_append [of "0 # map fst pre @ [a]"]
      using bspec [OF lo, of "a + ?m"] bspec [OF hi, of "a + ?m"] by (metis Un_iff less_irrefl)
    define nd where "nd = (node h)(a := (node h a)\<lparr>nlen := ?m\<rparr>, a + ?m := \<lparr>nlen = n, nnext = Some 0, nprior = None\<rparr>)"
    define g where "g = ?h\<lparr>memory := 0 # map fst ?bs' @ [top_addr], node := nd, high := List.insert (a + ?m) (high h)\<rparr>"
    have "take_high a n h = Some (Some (a + ?m), g)"
      using False ln p new insort_between [OF lo hi] m(1) mem
      by (simp add: take_high_def Let_def mem_at_def upd_def setused_def begin_it_def g_def nd_def)
    moreover have "rep ?bs' g"
    proof -
      have nc: "k \<noteq> a + ?m" if "k \<in> set (chain ?bs)" for k
        using that new chain_memory [OF assms(1)] by blast
      have "chain ?bs' = chain ?bs" by (simp add: chain_def)
      moreover have "linked nd (chain ?bs)" using lk
      proof (rule linked_cong)
        fix k
        show "nnext (nd k) = nnext (node h k)" if "k \<in> set (butlast (chain ?bs))"
          using nc [OF in_set_butlastD [OF that]] by (auto simp: nd_def)
        have "set (tl (chain ?bs)) \<subseteq> set (chain ?bs)" by (simp add: chain_def subset_insertI)
        then show "nprior (nd k) = nprior (node h k)" if "k \<in> set (tl (chain ?bs))" using that nc [of k] by (auto simp: nd_def)
      qed
      moreover have "nodes_ok nd ?bs'"
      proof (rule nodes_okI)
        have bl: "k \<noteq> a \<and> k \<noteq> a + ?m \<and> (k, j, f) \<in> set ?bs" if "(k, j, f) \<in> set pre \<or> (k, j, f) \<in> set post" for k j f
          using block_apart [OF assms(2), of k j f] that m assms(3) by auto
        show "nlen (nd k) = j" if "(k, j, f) \<in> set ?bs'" for k j f
          using that bl [of k j f] nodes_ok_len [OF ok, of k j f] m by (auto simp: nd_def)
        show "nnext (nd k) = Some 0" if "(k, j, False) \<in> set ?bs'" for k j
          using that bl [of k j False] nodes_ok_used [OF ok, of k j] by (auto simp: nd_def)
      qed (use nodes_ok_ends [OF ok] fits_addrs [OF assms(2), of a l True] m assms(3) in \<open>auto simp: nd_def\<close>)
      ultimately show ?thesis by (simp add: rep_def g_def)
    qed
    ultimately show ?thesis using False by (simp add: g_def)
  qed
qed

lemma find_first: "\<forall>x\<in>set xs. \<not> P x \<Longrightarrow> P y \<Longrightarrow> find P (xs @ y # ys) = Some y"
  by (induction xs) auto

lemma alloc_high_null:
  assumes "heap_ok base len bs h" and "n = 0 \<or> spec_high n bs = None"
  shows "heap_alloc_high n h = Some (None, h)"
proof (cases "total_free h < n \<or> n = 0")
  case False
  have ok: "rep bs h" "fits_pool base len bs" using assms(1) by (simp_all add: heap_ok_def)
  have "high_loop (length (memory h)) n (lastfree h) h = Some (None, h)"
    using high_loop_walk [of bs "[]" h base len "length (memory h)" n] ok False assms(2) length_memory [OF ok(1)]
    unfolding rep_lastfree [OF ok(1)] by simp
  then show ?thesis using False by (simp add: heap_alloc_high_def)
qed (simp add: heap_alloc_high_def)

lemma alloc_high_some:
  assumes "heap_ok base len bs h" and "0 < n" and "spec_high n bs = Some (r, bs')"
  shows "\<exists>g. heap_alloc_high n h = Some (Some r, g) \<and> heap_ok base len bs' g \<and> high g = List.insert r (high h)"
proof -
  have ok: "rep bs h" "fits_pool base len bs" "total_free h = free_sum bs" "compact bs" using assms(1) by (simp_all add: heap_ok_def)
  obtain pre a l post where p: "bs = pre @ (a, l, True) # post" "n \<le> l" "r = a + (l - n)" "\<forall>(k, m, f)\<in>set post. f \<longrightarrow> m < n"
    "bs' = pre @ (if n = l then [(a, n, False)] else [(a, l - n, True), (a + (l - n), n, False)]) @ post" using spec_high_Some [OF assms(3)] by blast
  have t: "n \<le> total_free h" using ok(3) p(2) free_sum_member [of a l bs] by (simp add: p(1))
  have "find (\<lambda>(k, m, f). f \<and> n \<le> m) (rev bs) = Some (a, l, True)"
    using find_first [of "rev post" "\<lambda>(k, m, f). f \<and> n \<le> m" "(a, l, True)" "rev pre"] p(2,4) by (force simp: p(1))
  then have "high_loop (length (memory h)) n (lastfree h) h = take_high a n h"
    using high_loop_walk [of bs "[]" h base len "length (memory h)" n] ok assms(2,3) length_memory [OF ok(1)]
    unfolding rep_lastfree [OF ok(1)] by simp
  then have e: "heap_alloc_high n h = take_high a n h" using t assms(2) by (simp add: heap_alloc_high_def)
  obtain g where g: "take_high a n h = Some (Some r, g)" "rep bs' g" "total_free g = total_free h - n" "high g = List.insert r (high h)"
    using take_high_rep [OF ok(1,2) [unfolded p(1)] assms(2) p(2)] unfolding p(3,5) by blast
  have "fits_pool base len bs'" unfolding p(5)
    using fits_split [OF ok(2) [unfolded p(1)], of "l - n" True False] fits_mark [OF ok(2) [unfolded p(1)], of False] p(2) assms(2) by simp
  moreover have "total_free g = free_sum bs'" using g(3) ok(3) p(1,2,5) by simp
  moreover have "compact bs'" using ok(4) unfolding p(1,5) by (auto simp: compact_append compact_Cons)
  ultimately show ?thesis using e g by (simp add: heap_ok_def)
qed

subsection \<open>Freeing links and coalesces\<close>

fun coalesce :: "block list \<Rightarrow> block list" where
  "coalesce ((a, l, f) # (b, m, g) # bs) = (if f \<and> g then coalesce ((a, l + m, True) # bs) else (a, l, f) # coalesce ((b, m, g) # bs))"
| "coalesce bs = bs"

definition mark :: "nat \<Rightarrow> block list \<Rightarrow> block list" where
  "mark a bs = map (\<lambda>(k, l, f). (k, l, f \<or> k = a)) bs"

text \<open>Putting a block back into the chain: the inverse of \<open>remove_rep\<close>.\<close>

lemma insert_rep:
  assumes "rep (pre @ (a, l, False) # post) h" and "fits_pool base len (pre @ (a, l, False) # post)"
  shows "\<exists>g. insertafter (last (0 # faddrs pre)) a h = Some g \<and> rep (pre @ (a, l, True) # post) g \<and> total_free g = total_free h \<and> high g = high h"
    and "\<exists>y. nnext (node h (last (0 # faddrs pre))) = Some y \<and> a < y"
proof -
  let ?bs = "pre @ (a, l, False) # post" and ?bs' = "pre @ (a, l, True) # post"
  obtain xs x y ys where c: "0 # faddrs pre = xs @ [x]" "faddrs post @ [top_addr] = y # ys" by (rule chain_neighbours)
  have lx: "last (0 # faddrs pre) = x" unfolding c(1) by simp
  have ch: "chain ?bs = xs @ x # y # ys" unfolding chain_used c by simp
  have cu: "chain ?bs' = xs @ x # a # y # ys" unfolding chain_split c by simp
  have d: "distinct (xs @ x # y # ys)" using chain_distinct [OF assms(2)] ch by simp
  have lk: "linked (node h) (xs @ x # y # ys)" and ok: "nodes_ok (node h) ?bs" using assms(1) ch by (simp_all add: rep_def)
  have nx: "nnext (node h x) = Some y" using linked_next [OF lk] by simp
  have na: "a \<notin> set (xs @ x # y # ys)" using used_not_chained [OF assms(2), of a l] ch by simp
  have "x \<in> set (0 # faddrs pre)" unfolding c(1) by simp
  then have xa: "x < a" using fits_around(1) [OF assms(2)] by auto
  have "y \<in> set (faddrs post @ [top_addr])" unfolding c(2) by simp
  then have "y \<in> set (map fst post @ [top_addr])" by auto
  then have ay: "a < y" using fits_around(2) [OF assms(2)] fits_addrs(2) [OF assms(2), of a l False] by fastforce
  show "\<exists>y. nnext (node h (last (0 # faddrs pre))) = Some y \<and> a < y" using nx ay unfolding lx by blast
  define nd where "nd = (node h)(a := (node h a)\<lparr>nnext := Some y, nprior := Some x\<rparr>, x := (node h x)\<lparr>nnext := Some a\<rparr>, y := (node h y)\<lparr>nprior := Some a\<rparr>)"
  have "insertafter x a h = Some (h\<lparr>node := nd\<rparr>)"
    unfolding nd_def by (rule insertafter_node [OF rep_begin [OF assms(1)] nx]) (use xa ay in auto)
  moreover have "linked nd (xs @ x # a # y # ys)" by (rule linked_insert [OF lk d na]) (use xa ay in \<open>auto simp: nd_def\<close>)
  moreover have "nodes_ok nd ?bs'"
  proof (rule nodes_okI)
    have ln: "nlen (nd k) = nlen (node h k)" for k by (simp add: nd_def)
    show "nlen (nd k) = m" if "(k, m, f) \<in> set ?bs'" for k m f
    proof -
      have "(k, m, f) \<in> set ?bs \<or> (k, m, False) \<in> set ?bs" using that by auto
      then show ?thesis using nodes_ok_len [OF ok] ln by auto
    qed
    show "nnext (nd k) = Some 0" if "(k, m, False) \<in> set ?bs'" for k m
    proof -
      have m: "(k, m, False) \<in> set pre \<or> (k, m, False) \<in> set post" "(k, m, False) \<in> set ?bs" using that by auto
      then have "k \<noteq> x" using used_not_chained [OF assms(2) m(2)] unfolding ch by auto
      moreover have "k \<noteq> a" using block_apart [OF assms(2), of k m False] m(1) fits_addrs(2) [OF assms(2), of a l False] by auto
      ultimately show ?thesis using nodes_ok_used [OF ok m(2)] by (auto simp: nd_def)
    qed
    show "nlen (nd 0) = 0" "nlen (nd top_addr) = 0" using nodes_ok_ends [OF ok] by (simp_all add: ln)
    show "nnext (nd top_addr) = None" "nprior (nd 0) = None"
      using nodes_ok_ends [OF ok] fits_addrs [OF assms(2), of a l False] xa ay by (auto simp: nd_def)
  qed
  ultimately show "\<exists>g. insertafter (last (0 # faddrs pre)) a h = Some g \<and> rep ?bs' g \<and> total_free g = total_free h \<and> high g = high h"
    using assms(1) cu unfolding lx by (auto simp: rep_def)
qed

text \<open>Merging two free neighbours.\<close>

lemma fits_join:
  "fits_pool base len (pre @ (a, l, f) # (b, m, g) # post) \<Longrightarrow> b = a + l \<and> fits_pool base len (pre @ (a, l + m, e) # post)"
proof -
  assume f: "fits_pool base len (pre @ (a, l, f) # (b, m, g) # post)"
  then have "b = a + l" unfolding fits_pool_def tiled_append by auto
  moreover have "fits_pool base len (pre @ (a, l + m, e) # post)"
    using fits_replace [of base len pre "[(a, l, f), (b, m, g)]" post "[(a, l + m, e)]"] f by (simp add: add.assoc)
  ultimately show ?thesis ..
qed

lemma merge_rep:
  assumes "rep (pre @ (a, l, True) # (b, m, True) # post) h" and "fits_pool base len (pre @ (a, l, True) # (b, m, True) # post)"
  shows "\<exists>g. heap_merge a b h = Some (a, g) \<and> rep (pre @ (a, l + m, True) # post) g \<and> total_free g = total_free h \<and> high g = high h"
proof -
  let ?bs = "pre @ (a, l, True) # (b, m, True) # post" and ?bs' = "pre @ (a, l + m, True) # post"
  have b: "b = a + l" and fit: "fits_pool base len ?bs'" using fits_join [OF assms(2)] by simp_all
  obtain xs x y ys where c: "0 # faddrs pre = xs @ [x]" "faddrs post @ [top_addr] = y # ys" by (rule chain_neighbours)
  have ch: "chain ?bs = (0 # faddrs pre) @ a # b # y # ys" using c by (simp add: chain_def)
  have cu: "chain ?bs' = (0 # faddrs pre) @ a # y # ys" unfolding chain_split c by simp
  have d: "distinct ((0 # faddrs pre) @ a # b # y # ys)" using chain_distinct [OF assms(2)] ch by simp
  have lk: "linked (node h) ((0 # faddrs pre) @ a # b # y # ys)" and ok: "nodes_ok (node h) ?bs" and mem: "memory h = 0 # map fst ?bs @ [top_addr]"
    using assms(1) ch by (simp_all add: rep_def)
  have nb: "nnext (node h b) = Some y" using linked_next [of "node h" "(0 # faddrs pre) @ [a]" b y ys] lk by simp
  have al: "nlen (node h a) = l" "nlen (node h b) = m" using nodes_ok_len [OF ok, of a l True] nodes_ok_len [OF ok, of b m True] by simp_all
  have bd: "0 < l" "0 < m" "0 < a" "a + l < top_addr" "a + (l + m) < top_addr"
    using fits_addrs [OF assms(2), of a l True] fits_addrs [OF assms(2), of b m True] b by auto
  have fr: "isfree h a" "isfree h b" using isfree_iff [OF assms] mem ch by simp_all
  have "padd l m = l + m" using bd(5) by (intro padd_in) simp
  moreover have "padd a l = b" using padd_in [OF bd(4)] b by simp
  moreover define nd where "nd = (node h)(a := (node h a)\<lparr>nlen := l + m, nnext := Some y\<rparr>, y := (node h y)\<lparr>nprior := Some a\<rparr>)"
  moreover have "remove1 b (memory h) = 0 # map fst ?bs' @ [top_addr]"
    using d fits_distinct(1) [OF assms(2)] bd b unfolding mem by (auto simp: remove1_append)
  ultimately have "heap_merge a b h = Some (a, h\<lparr>node := nd, memory := 0 # map fst ?bs' @ [top_addr]\<rparr>)"
    using heap_merge_node [OF fr, of y] al nb d by simp
  moreover have "linked nd ((0 # faddrs pre) @ a # y # ys)" by (rule linked_delete [OF lk d]) (use d in \<open>auto simp: nd_def\<close>)
  moreover have "nodes_ok nd ?bs'"
  proof (rule nodes_okI)
    have bl: "k \<noteq> a \<and> (k, j, f) \<in> set ?bs" if "(k, j, f) \<in> set pre \<or> (k, j, f) \<in> set post" for k j f
      using block_apart [OF fit, of k j f] that bd(1) by auto
    show "nlen (nd k) = j" if "(k, j, f) \<in> set ?bs'" for k j f
      using that bl [of k j f] nodes_ok_len [OF ok, of k j f] d by (auto simp: nd_def)
    show "nnext (nd k) = Some 0" if "(k, j, False) \<in> set ?bs'" for k j
      using that bl [of k j False] nodes_ok_used [OF ok, of k j] by (auto simp: nd_def)
  qed (use nodes_ok_ends [OF ok] bd d in \<open>auto simp: nd_def\<close>)
  ultimately show ?thesis using cu by (auto simp: rep_def)
qed

lemma find_rev: "filter P xs \<noteq> [] \<Longrightarrow> find P (rev xs) = Some (last (filter P xs))"
proof (induction xs rule: rev_induct)
  case (snoc y ys)
  then show ?case by (cases "P y") auto
qed simp

lemma free_before_rep:
  assumes "rep (pre @ (a, l, f) # post) h" and "fits_pool base len (pre @ (a, l, f) # post)"
  shows "free_before a h = Some (last (0 # faddrs pre))"
proof -
  let ?bs = "pre @ (a, l, f) # post"
  have mem: "memory h = (0 # map fst pre) @ a # map fst post @ [top_addr]" using assms(1) by (simp add: rep_def)
  have lt: "k < a" if "k \<in> set (0 # map fst pre)" for k using fits_around(1) [OF assms(2)] that by blast
  have tw: "takeWhile (\<lambda>k. k \<noteq> a) (memory h) = 0 # map fst pre"
    unfolding mem by (subst takeWhile_append2) (use lt in auto)
  have fr: "isfree h k \<longleftrightarrow> k \<in> set (chain ?bs)" if "k \<in> set (0 # map fst pre)" for k
  proof -
    have "k \<in> set (memory h)" using that unfolding mem by auto
    then show ?thesis by (rule isfree_iff [OF assms])
  qed
  have "isfree h (fst b) \<longleftrightarrow> snd (snd b)" if "b \<in> set pre" for b
  proof -
    obtain k m g where b: "b = (k, m, g)" by (cases b) auto
    have k: "k \<in> set (0 # map fst pre)" "(k, m, g) \<in> set ?bs" using that unfolding b by force+
    show ?thesis
    proof (cases g)
      case True
      then have "k \<in> set (chain ?bs)" using that unfolding b by (force simp: chain_def)
      then show ?thesis using fr [OF k(1)] True b by simp
    next
      case False
      then show ?thesis using fr [OF k(1)] used_not_chained [OF assms(2), of k m] k(2) b by simp
    qed
  qed
  then have "filter (isfree h \<circ> fst) pre = filter (\<lambda>b. snd (snd b)) pre" by (intro filter_cong) auto
  then have "filter (isfree h) (0 # map fst pre) = 0 # faddrs pre" using fr [of 0] by (simp add: filter_map chain_def)
  then show ?thesis unfolding free_before_def tw using find_rev [of "isfree h" "0 # map fst pre"] by simp
qed

lemma coalesce_compact: "compact bs \<Longrightarrow> coalesce bs = bs"
  by (induction bs rule: coalesce.induct) (auto simp: compact_Cons)

lemma coalesce_skip: "compact (pre @ [(a, l, False)]) \<Longrightarrow> coalesce (pre @ (a, l, False) # bs) = pre @ (a, l, False) # coalesce bs"
proof (induction pre)
  case Nil
  then show ?case by (cases bs) (auto simp: prod_cases3)
next
  case (Cons b pre)
  obtain k m f where b: "b = (k, m, f)" by (cases b) auto
  show ?case
  proof (cases pre)
    case Nil
    then show ?thesis using Cons by (simp add: b compact_Cons)
  next
    case (Cons c pre')
    obtain k' m' f' where c: "c = (k', m', f')" by (cases c) auto
    show ?thesis using Cons.IH Cons.prems unfolding Cons b c by (auto simp: compact_Cons)
  qed
qed

text \<open>After \<open>insertafter\<close>: the merge with the block below.\<close>

definition join_low :: "block list \<Rightarrow> nat \<Rightarrow> nat \<Rightarrow> block list \<times> nat \<times> nat" where
  "join_low pre a l = (if pre \<noteq> [] \<and> snd (snd (last pre)) then (butlast pre, fst (last pre), fst (snd (last pre)) + l) else (pre, a, l))"

definition join_high :: "nat \<Rightarrow> nat \<Rightarrow> block list \<Rightarrow> block list" where
  "join_high a l post = (case post of (b, m, True) # p \<Rightarrow> (a, l + m, True) # p | _ \<Rightarrow> (a, l, True) # post)"

lemma merge_low:
  assumes "rep (pre @ (a, l, True) # post) h" and "fits_pool base len (pre @ (a, l, True) # post)" and "join_low pre a l = (pre', a', l')"
  shows "\<exists>g. heap_merge (last (0 # faddrs pre)) a h = Some (a', g) \<and> rep (pre' @ (a', l', True) # post) g \<and>
    fits_pool base len (pre' @ (a', l', True) # post) \<and> total_free g = total_free h \<and> high g = high h"
proof (cases "pre \<noteq> [] \<and> snd (snd (last pre))")
  case True
  then obtain q k m where p: "pre = q @ [(k, m, True)]" by (cases pre rule: rev_cases) auto
  have e: "pre' = q" "a' = k" "l' = m + l" using assms(3) by (simp_all add: p join_low_def)
  show ?thesis using merge_rep [of q k m a l post h base len] fits_join [of base len q k m True a l True post True] assms(1,2) unfolding e p by simp
next
  case False
  obtain x where x: "last (0 # faddrs pre) = x" by blast
  let ?bs = "pre @ (a, l, True) # post"
  have e: "pre' = pre" "a' = a" "l' = l" using assms(3) False by (auto simp: join_low_def)
  have mem: "memory h = 0 # map fst ?bs @ [top_addr]" and ok: "nodes_ok (node h) ?bs" using assms(1) by (simp_all add: rep_def)
  have xin: "x \<in> set (0 # faddrs pre)" unfolding x [symmetric] by (rule last_in_set) simp
  have xa: "x \<in> set (chain ?bs)" "a \<in> set (chain ?bs)" unfolding chain_set using xin by blast+
  then have fr: "isfree h x" "isfree h a" using isfree_iff [OF assms(1,2)] chain_memory [OF assms(1)] by blast+
  have "padd x (nlen (node h x)) \<noteq> a"
  proof (cases "faddrs pre = []")
    case True
    then have "x = 0" using x by simp
    then show ?thesis using nodes_ok_ends(1) [OF ok] fits_addrs(1) [OF assms(2), of a l True] by (simp add: padd_def)
  next
    case nf: False
    then have "x \<in> set (faddrs pre)" using last_in_set [OF nf] nf x by (simp only: last.simps if_False)
    then obtain m where m: "(x, m, True) \<in> set pre" by auto
    then obtain p1 p2 where p: "pre = p1 @ (x, m, True) # p2" by (meson split_list)
    have "p2 \<noteq> []"
    proof
      assume "p2 = []"
      then have "last pre = (x, m, True)" "pre \<noteq> []" using p by simp_all
      then show False using False by simp
    qed
    then obtain k j f p3 where p2: "p2 = (k, j, f) # p3" by (cases p2) auto
    have "fits_pool base len (p1 @ (x, m, True) # (k, j, f) # p3 @ (a, l, True) # post)" using assms(2) p p2 by simp
    then have "k = x + m" by (rule fits_join [THEN conjunct1])
    moreover have "k < a" using fits_around(1) [OF assms(2)] p p2 by simp
    ultimately have "x + m < a" by simp
    moreover have "padd x m = x + m" using fits_addrs(3) [OF assms(2), of x m True] m by (intro padd_in) simp
    moreover have "nlen (node h x) = m" using nodes_ok_len [OF ok, of x m True] m by simp
    ultimately show ?thesis by simp
  qed
  then show ?thesis using heap_merge_apart [OF fr] assms(1,2) unfolding e x by blast
qed

lemma merge_high:
  assumes "rep (pre @ (a, l, True) # post) h" and "fits_pool base len (pre @ (a, l, True) # post)"
  shows "\<exists>y c g. nnext (node h a) = Some y \<and> heap_merge a y h = Some (c, g) \<and> rep (pre @ join_high a l post) g \<and>
    fits_pool base len (pre @ join_high a l post) \<and> total_free g = total_free h \<and> high g = high h"
proof -
  let ?bs = "pre @ (a, l, True) # post"
  obtain xs x y ys where c: "0 # faddrs pre = xs @ [x]" "faddrs post @ [top_addr] = y # ys" by (rule chain_neighbours)
  have "linked (node h) ((0 # faddrs pre) @ a # y # ys)" using assms(1) c chain_split [of pre a l post] by (simp add: rep_def)
  then have nx: "nnext (node h a) = Some y" using linked_next by blast
  have mem: "memory h = 0 # map fst ?bs @ [top_addr]" and ok: "nodes_ok (node h) ?bs" using assms(1) by (simp_all add: rep_def)
  show ?thesis
  proof (cases "\<exists>b m p. post = (b, m, True) # p")
    case True
    then obtain b m p where p: "post = (b, m, True) # p" by blast
    have y: "y = b" using c(2) p by simp
    have jh: "join_high a l post = (a, l + m, True) # p" by (simp add: p join_high_def)
    show ?thesis using merge_rep [OF assms [unfolded p]] fits_join [OF assms(2) [unfolded p], of True] nx unfolding y jh by blast
  next
    case False
    have jh: "join_high a l post = (a, l, True) # post" using False by (auto simp: join_high_def split: list.splits)
    have yin: "y \<in> set (faddrs post @ [top_addr])" unfolding c(2) by simp
    then have "y \<in> set (chain ?bs)" "a \<in> set (chain ?bs)" unfolding chain_set by blast+
    then have fr: "isfree h a" "isfree h y" using isfree_iff [OF assms] chain_memory [OF assms(1)] by blast+
    have "a + l < y"
    proof (cases post)
      case Nil
      then show ?thesis using c(2) fits_addrs(3) [OF assms(2), of a l True] by simp
    next
      case (Cons b p)
      then obtain k m where b: "post = (k, m, False) # p" using False by (cases b) auto
      have "fits_pool base len ((pre @ [(a, l, True)]) @ (k, m, False) # p)" using assms(2) b by simp
      from fits_around(2) [OF this] have "k + m \<le> y" using yin b by auto
      moreover have "k = a + l" using fits_join [of base len pre a l True k m False p] assms(2) b by simp
      moreover have "0 < m" using fits_addrs(2) [OF assms(2), of k m False] b by simp
      ultimately show ?thesis by simp
    qed
    moreover have "padd a l = a + l" using fits_addrs(3) [OF assms(2), of a l True] by (intro padd_in) simp
    ultimately have "padd a (nlen (node h a)) \<noteq> y" using nodes_ok_len [OF ok, of a l True] by simp
    then show ?thesis using heap_merge_apart [OF fr] assms nx unfolding jh by blast
  qed
qed

text \<open>\<open>free\<close> marks the block and coalesces.\<close>

lemma coalesce_join_high: "compact post \<Longrightarrow> coalesce ((a, l, True) # post) = join_high a l post"
proof (cases post)
  case (Cons b p)
  assume c: "compact post"
  obtain k m f where b: "b = (k, m, f)" by (cases b) auto
  show ?thesis
  proof (cases f)
    case True
    have "compact ((a, l + m, True) # p)" using c True unfolding Cons b by (auto simp: compact_Cons)
    then show ?thesis using coalesce_compact True unfolding Cons b by (simp add: join_high_def)
  next
    case False
    then show ?thesis using c coalesce_compact unfolding Cons b by (simp add: join_high_def)
  qed
qed (simp add: join_high_def)

lemma join_high_compact: "compact post \<Longrightarrow> compact (join_high a l post)"
  by (cases post) (auto simp: join_high_def compact_Cons split: bool.splits)

lemma coalesce_after:
  assumes "compact q" and "q = [] \<or> \<not> snd (snd (last q))"
  shows "coalesce (q @ (k, m, True) # bs) = q @ coalesce ((k, m, True) # bs)"
proof (cases q rule: rev_cases)
  case (snoc r b)
  then obtain c j where b: "b = (c, j, False)" using assms(2) by (cases b) auto
  show ?thesis using coalesce_skip [of r c j "(k, m, True) # bs"] assms(1) unfolding snoc b by simp
qed simp

lemma compact_after: "compact q \<Longrightarrow> q = [] \<or> \<not> snd (snd (last q)) \<Longrightarrow> compact bs \<Longrightarrow> compact (q @ bs)"
  by (auto simp: compact_append)

lemma coalesce_joins:
  assumes "compact (pre @ (a, l, False) # post)" and "join_low pre a l = (pre', a', l')"
  shows "coalesce (pre @ (a, l, True) # post) = pre' @ join_high a' l' post \<and> compact (pre' @ join_high a' l' post)"
proof -
  have cp: "compact pre" "compact post" using assms(1) by (auto simp: compact_append compact_Cons)
  show ?thesis
  proof (cases "pre \<noteq> [] \<and> snd (snd (last pre))")
    case True
    then obtain q k m where p: "pre = q @ [(k, m, True)]" by (cases pre rule: rev_cases) auto
    have e: "pre' = q" "a' = k" "l' = m + l" using assms(2) by (simp_all add: p join_low_def)
    have q: "compact q" "q = [] \<or> \<not> snd (snd (last q))" using cp(1) unfolding p by (auto simp: compact_append)
    show ?thesis unfolding e p using coalesce_after [OF q, of k m "(a, l, True) # post"] compact_after [OF q] coalesce_join_high [OF cp(2), of k "m + l"]
        join_high_compact [OF cp(2), of k "m + l"] by simp
  next
    case False
    then have e: "pre' = pre" "a' = a" "l' = l" using assms(2) by (auto simp: join_low_def)
    have q: "pre = [] \<or> \<not> snd (snd (last pre))" using False by blast
    show ?thesis unfolding e using coalesce_after [OF cp(1) q, of a l post] compact_after [OF cp(1) q] coalesce_join_high [OF cp(2), of a l]
        join_high_compact [OF cp(2), of a l] by simp
  qed
qed

lemma free_sum_joins:
  assumes "join_low pre a l = (pre', a', l')"
  shows "free_sum (pre' @ join_high a' l' post) = free_sum (pre @ (a, l, True) # post)"
proof -
  have "free_sum (join_high a' l' post) = l' + free_sum post" by (auto simp: join_high_def split: list.splits bool.splits)
  moreover have "free_sum pre' + l' = free_sum pre + l"
  proof (cases pre rule: rev_cases)
    case Nil
    then show ?thesis using assms by (simp add: join_low_def)
  next
    case (snoc q b)
    then show ?thesis using assms by (cases b) (auto simp: join_low_def split: if_splits)
  qed
  ultimately show ?thesis by simp
qed

lemma free_sum_bound:
  assumes "tiled a bs e" shows "a + free_sum bs \<le> e"
  using assms
proof (induction a bs e rule: tiled.induct)
  case (2 a k l f bs e)
  then have "a + l + free_sum bs \<le> e" by auto
  then show ?case by auto
qed simp

lemma free_ok:
  assumes "heap_ok base len bs h" and "(a, l, False) \<in> set bs"
  shows "\<exists>g. heap_free a h = Some g \<and> heap_ok base len (coalesce (mark a bs)) g \<and> high g = removeAll a (high h)"
proof -
  have ok: "rep bs h" "fits_pool base len bs" "total_free h = free_sum bs" "compact bs" using assms(1) by (simp_all add: heap_ok_def)
  obtain pre post where p: "bs = pre @ (a, l, False) # post" using assms(2) by (meson split_list)
  note fit = ok(2) [unfolded p]
  let ?t = "free_sum (pre @ (a, l, True) # post)"
  define h1 where "h1 = h\<lparr>total_free := padd (total_free h) (nlen (node h a))\<rparr>"
  have ln: "nlen (node h a) = l" using ok(1) assms(2) nodes_ok_len by (auto simp: rep_def)
  have t: "padd (total_free h) l = ?t"
  proof -
    have "total_free h + l = ?t" using ok(3) by (simp add: p)
    moreover have "?t < top_addr" using free_sum_bound fits_mark [OF fit, of True] unfolding fits_pool_def by fastforce
    ultimately show ?thesis using padd_in [of "total_free h" l] by simp
  qed
  have r1: "rep (pre @ (a, l, False) # post) h1" "total_free h1 = ?t" "high h1 = high h" using ok(1) t ln by (simp_all add: p h1_def)
  note bf = free_before_rep [OF r1(1) fit]
  obtain y where y: "nnext (node h1 (last (0 # faddrs pre))) = Some y" "a < y" using insert_rep(2) [OF r1(1) fit] by blast
  obtain h2 where h2: "insertafter (last (0 # faddrs pre)) a h1 = Some h2" "rep (pre @ (a, l, True) # post) h2" "total_free h2 = ?t" "high h2 = high h"
    using insert_rep(1) [OF r1(1) fit] r1(2,3) by auto
  obtain pre' a' l' where j: "join_low pre a l = (pre', a', l')" by (cases "join_low pre a l") auto
  obtain h3 where h3: "heap_merge (last (0 # faddrs pre)) a h2 = Some (a', h3)" "rep (pre' @ (a', l', True) # post) h3"
    "fits_pool base len (pre' @ (a', l', True) # post)" "total_free h3 = ?t" "high h3 = high h"
    using merge_low [OF h2(2) fits_mark [OF fit] j] h2(3,4) by auto
  obtain z c h4 where h4: "nnext (node h3 a') = Some z" "heap_merge a' z h3 = Some (c, h4)" "rep (pre' @ join_high a' l' post) h4"
    "fits_pool base len (pre' @ join_high a' l' post)" "total_free h4 = ?t" "high h4 = high h"
    using merge_high [OF h3(2,3)] h3(4,5) by auto
  have "a \<in> set (memory h)" "a \<noteq> 0" using ok(1) fits_addrs(1) [OF fit, of a l False] by (simp_all add: rep_def p)
  then have "heap_free a h = Some (h4\<lparr>high := removeAll a (high h4)\<rparr>)"
    using bf y h2(1) h3(1) h4(1,2) by (simp add: heap_free_def Let_def h1_def [symmetric])
  moreover have "mark a bs = pre @ (a, l, True) # post"
  proof -
    have "map (\<lambda>(k, m, f). (k, m, f \<or> k = a)) xs = xs" if "set xs \<subseteq> set pre \<union> set post" for xs
    proof (rule map_idI)
      fix b assume b: "b \<in> set xs"
      obtain k m g where k: "b = (k, m, g)" by (cases b) auto
      have "k \<noteq> a" using block_apart [OF fit, of k m g] that b k fits_addrs(2) [OF fit, of a l False] by auto
      then show "(case b of (k, m, f) \<Rightarrow> (k, m, f \<or> k = a)) = b" by (simp add: k)
    qed
    then show ?thesis by (simp add: mark_def p)
  qed
  ultimately show ?thesis using coalesce_joins [OF ok(4) [unfolded p] j] free_sum_joins [OF j] h4 by (simp add: heap_ok_def)
qed

subsection \<open>Blocks in use and gaps between them\<close>

definition used :: "block list \<Rightarrow> (nat \<times> nat) set" where
  "used bs = {(k, l). (k, l, False) \<in> set bs}"

lemma used_simps [simp]: "used [] = {}" "used ((k, l, f) # bs) = (if f then used bs else insert (k, l) (used bs))" "used (xs @ ys) = used xs \<union> used ys"
  by (auto simp: used_def)

lemma used_iff: "(k, l) \<in> used bs \<longleftrightarrow> (k, l, False) \<in> set bs"
  by (simp add: used_def)

text \<open>\<open>n\<close> bytes at \<open>a\<close> lie in the pool and touch no block in use.\<close>

definition gap :: "nat \<Rightarrow> nat \<Rightarrow> (nat \<times> nat) set \<Rightarrow> nat \<Rightarrow> nat \<Rightarrow> bool" where
  "gap base len us n a \<longleftrightarrow> base \<le> a \<and> a + n \<le> base + len \<and> (\<forall>(b, m)\<in>us. a + n \<le> b \<or> b + m \<le> a)"

lemma gap_in_block:
  assumes "tiled c bs e" and "compact bs" and "c \<le> a" and "a + n \<le> e" and "0 < n" and "\<forall>(b, m)\<in>used bs. a + n \<le> b \<or> b + m \<le> a"
  shows "\<exists>k l. (k, l, True) \<in> set bs \<and> k \<le> a \<and> a + n \<le> k + l"
  using assms
proof (induction c bs e rule: tiled.induct)
  case (2 c k l f bs e)
  show ?case
  proof (cases "k + l \<le> a")
    case True
    then have "\<exists>k l. (k, l, True) \<in> set bs \<and> k \<le> a \<and> a + n \<le> k + l" using 2 by (intro 2(1)) (auto simp: compact_Cons split: if_splits)
    then show ?thesis by auto
  next
    case False
    have f: f
    proof (rule ccontr)
      assume "\<not> f"
      then have "a + n \<le> k \<or> k + l \<le> a" using 2(7) by simp
      then show False using False 2(2,4,6) by simp
    qed
    have "a + n \<le> k + l"
    proof (cases bs)
      case Nil
      then show ?thesis using 2(2,5) by simp
    next
      case (Cons b bs')
      obtain j m g where b: "b = (j, m, g)" by (cases b) auto
      have "\<not> g" "j = k + l" using 2(2,3) f unfolding Cons b by (auto simp: compact_Cons)
      then have "a + n \<le> k + l \<or> k + l + m \<le> a" using 2(7) f unfolding Cons b by simp
      then show ?thesis using False by simp
    qed
    then show ?thesis using f 2(2,4) by auto
  qed
qed simp

lemma block_gap:
  assumes "tiled c (pre @ (k, l, f) # post) e" and "(b, m, False) \<in> set pre \<union> set post"
  shows "b + m \<le> k \<or> k + l \<le> b"
proof -
  obtain x where t: "tiled c pre x" "tiled x ((k, l, f) # post) e" using assms(1) unfolding tiled_append by blast
  then have x: "x = k" "tiled (k + l) post e" by simp_all
  show ?thesis using assms(2) tiled_bounds [OF t(1)] tiled_bounds [OF x(2)] x(1) by fastforce
qed

lemma free_gap:
  assumes "fits_pool base len (pre @ (k, l, True) # post)" and "k \<le> a" and "a + n \<le> k + l"
  shows "gap base len (used (pre @ (k, l, True) # post)) n a"
proof -
  have t: "tiled base (pre @ (k, l, True) # post) (base + len)" using assms(1) by (simp add: fits_pool_def)
  have "a + n \<le> b \<or> b + m \<le> a" if "(b, m) \<in> used (pre @ (k, l, True) # post)" for b m
  proof -
    have "(b, m, False) \<in> set pre \<union> set post" using that by (auto simp: used_iff)
    from block_gap [OF t this] show ?thesis using assms(2,3) by auto
  qed
  then show ?thesis using fits_addrs(4,5) [OF assms(1), of k l True] assms(2,3) by (auto simp: gap_def)
qed

lemma spec_alloc_gap:
  assumes "fits_pool base len bs" and "compact bs" and "0 < n"
  shows "spec_alloc n bs = None \<longleftrightarrow> (\<forall>a. \<not> gap base len (used bs) n a)"
    and "spec_alloc n bs = Some (r, bs') \<Longrightarrow> gap base len (used bs) n r \<and> (\<forall>a. gap base len (used bs) n a \<longrightarrow> r \<le> a) \<and> used bs' = insert (r, n) (used bs)"
proof -
  have t: "tiled base bs (base + len)" using assms(1) by (simp add: fits_pool_def)
  have inb: "\<exists>k l. (k, l, True) \<in> set bs \<and> k \<le> a \<and> a + n \<le> k + l" if "gap base len (used bs) n a" for a
    using gap_in_block [OF t assms(2) _ _ assms(3)] that by (simp add: gap_def)
  show "spec_alloc n bs = None \<longleftrightarrow> (\<forall>a. \<not> gap base len (used bs) n a)"
  proof
    assume "spec_alloc n bs = None"
    then have "\<forall>k l. (k, l, True) \<in> set bs \<longrightarrow> l < n" by (auto simp: spec_alloc_None)
    then show "\<forall>a. \<not> gap base len (used bs) n a" using inb by fastforce
  next
    assume g: "\<forall>a. \<not> gap base len (used bs) n a"
    show "spec_alloc n bs = None"
    proof (cases "spec_alloc n bs")
      case (Some x)
      obtain r bs' where "x = (r, bs')" by (cases x) auto
      then obtain pre l post where p: "bs = pre @ (r, l, True) # post" "n \<le> l" using spec_alloc_Some Some by blast
      then show ?thesis using free_gap [OF assms(1) [unfolded p(1)], of r n] g by auto
    qed simp
  qed
  assume "spec_alloc n bs = Some (r, bs')"
  then obtain pre l post where p: "bs = pre @ (r, l, True) # post" "n \<le> l" "\<forall>(k, m, f)\<in>set pre. f \<longrightarrow> m < n"
    "bs' = pre @ (r, n, False) # (if n = l then [] else [(r + n, l - n, True)]) @ post" using spec_alloc_Some by blast
  have "gap base len (used bs) n r" using free_gap [OF assms(1) [unfolded p(1)], of r n] p(1,2) by simp
  moreover have "r \<le> a" if g: "gap base len (used bs) n a" for a
  proof -
    obtain k j where k: "(k, j, True) \<in> set bs" "k \<le> a" "a + n \<le> k + j" using inb [OF g] by blast
    have "(k, j, True) \<notin> set pre" using p(3) k(2,3) by fastforce
    then have "k = r \<or> r + l \<le> k" using k(1) fits_around(2) [OF assms(1) [unfolded p(1)]] unfolding p(1) by force
    then show ?thesis using k(2) by auto
  qed
  moreover have "used bs' = insert (r, n) (used bs)" unfolding p by auto
  ultimately show "gap base len (used bs) n r \<and> (\<forall>a. gap base len (used bs) n a \<longrightarrow> r \<le> a) \<and> used bs' = insert (r, n) (used bs)" by blast
qed

lemma spec_high_gap:
  assumes "fits_pool base len bs" and "compact bs" and "0 < n"
  shows "spec_high n bs = None \<longleftrightarrow> spec_alloc n bs = None"
    and "spec_high n bs = Some (r, bs') \<Longrightarrow> gap base len (used bs) n r \<and> (\<forall>a. gap base len (used bs) n a \<longrightarrow> a \<le> r) \<and> used bs' = insert (r, n) (used bs)"
proof -
  have t: "tiled base bs (base + len)" using assms(1) by (simp add: fits_pool_def)
  show "spec_high n bs = None \<longleftrightarrow> spec_alloc n bs = None" by (simp add: spec_high_None spec_alloc_None)
  assume "spec_high n bs = Some (r, bs')"
  then obtain pre k l post where p: "bs = pre @ (k, l, True) # post" "n \<le> l" "r = k + (l - n)" "\<forall>(k, m, f)\<in>set post. f \<longrightarrow> m < n"
    "bs' = pre @ (if n = l then [(k, n, False)] else [(k, l - n, True), (k + (l - n), n, False)]) @ post" using spec_high_Some by blast
  have "gap base len (used bs) n r" using free_gap [OF assms(1) [unfolded p(1)], of r n] p(1-3) by simp
  moreover have "a \<le> r" if g: "gap base len (used bs) n a" for a
  proof -
    have "\<exists>k l. (k, l, True) \<in> set bs \<and> k \<le> a \<and> a + n \<le> k + l" using gap_in_block [OF t assms(2) _ _ assms(3)] g by (simp add: gap_def)
    then obtain c j where c: "(c, j, True) \<in> set bs" "c \<le> a" "a + n \<le> c + j" by blast
    have "(c, j, True) \<notin> set post" using p(4) c(2,3) by fastforce
    then consider "c = k" "j = l" | "(c, j, True) \<in> set pre" using c(1) unfolding p(1) by auto
    then show ?thesis
    proof cases
      case 2
      obtain x where "tiled base pre x" "tiled x ((k, l, True) # post) (base + len)" using t unfolding p(1) tiled_append by blast
      then have "c + j \<le> k" using tiled_bounds [of base pre x] 2 by fastforce
      then show ?thesis using c(3) p(3) by simp
    qed (use c p(2,3) in simp)
  qed
  moreover have "used bs' = insert (r, n) (used bs)" unfolding p by auto
  ultimately show "gap base len (used bs) n r \<and> (\<forall>a. gap base len (used bs) n a \<longrightarrow> a \<le> r) \<and> used bs' = insert (r, n) (used bs)" by blast
qed

end
