(* ===== verification/Heap_Runs.thy ===== *)
theory Heap_Runs
  imports Small_Heap
begin

text \<open>
  Runs of the small heap: whatever sequence of \<open>alloc\<close>, \<open>alloc_high\<close> and \<open>free\<close> of allocated blocks, seen through the blocks in
  use. The contract a client relies on is the locale \<open>block_allocator\<close>, interpreted on both ends of the heap.
\<close>

subsection \<open>Construction and freeing, on the blocks in use\<close>

lemma used_coalesce: "used (coalesce bs) = used bs"
  by (induction bs rule: coalesce.induct) auto

lemma mark_iff: "(k, m, False) \<in> set (mark a bs) \<longleftrightarrow> (k, m, False) \<in> set bs \<and> k \<noteq> a"
  by (induction bs) (auto simp: mark_def)

lemma used_mark:
  assumes "fits_pool base len bs" and "(a, l, False) \<in> set bs"
  shows "used (coalesce (mark a bs)) = used bs - {(a, l)}"
proof -
  have d: "distinct (map fst bs)" using fits_distinct(1) [OF assms(1)] by simp
  have "m = l" if "(a, m, f) \<in> set bs" for m f using eq_key_imp_eq_value [OF d that assms(2)] by simp
  then have "(k, m) \<in> used (coalesce (mark a bs)) \<longleftrightarrow> (k, m) \<in> used bs - {(a, l)}" for k m
    unfolding used_coalesce Diff_iff used_iff mark_iff singleton_iff prod.inject using assms(2) by blast
  then show ?thesis by auto
qed

lemma new_ok:
  assumes "0 < base" and "0 < len" and "base + len < top_addr"
  shows "\<exists>h. SmallHeap_new base len = Some h \<and> heap_ok base len [(base, len, True)] h \<and> high h = [top_addr]"
proof -
  have a: "base \<noteq> top_addr" "base \<noteq> 0" "padd base len = base + len" "top_addr \<noteq> 0" using assms padd_in by auto
  have "rep [(base, len, True)] (the (SmallHeap_new base len)) \<and> total_free (the (SmallHeap_new base len)) = len \<and> high (the (SmallHeap_new base len)) = [top_addr]"
    using a assms by (auto simp: SmallHeap_new_def Let_def rep_def chain_def nodes_ok_def mem_at_def SmallHeap_empty_def begin_it_def)
  moreover have "SmallHeap_new base len = Some (the (SmallHeap_new base len))" using a assms by (simp add: SmallHeap_new_def Let_def)
  ultimately show ?thesis using assms by (auto simp: heap_ok_def fits_pool_def compact_Cons)
qed

definition heap_used :: "small_heap \<Rightarrow> (nat \<times> nat) set" where
  "heap_used h = set (map (\<lambda>k. (k, nlen (node h k))) (filter (\<lambda>k. \<not> isfree h k) (memory h)))"

lemma heap_used_rep:
  assumes "rep bs h" and "fits_pool base len bs"
  shows "heap_used h = used bs"
proof -
  have "(k, j) \<in> heap_used h \<longleftrightarrow> (k, j) \<in> used bs" for k j
  proof
    assume "(k, j) \<in> heap_used h"
    then have k: "k \<in> set (memory h)" "\<not> isfree h k" "j = nlen (node h k)" by (auto simp: heap_used_def)
    then have "k \<notin> set (chain bs)" using isfree_iff [OF assms] by simp
    then have "k \<in> set (map fst bs)" using k(1) assms(1) by (auto simp: rep_def chain_def)
    then obtain m f where m: "(k, m, f) \<in> set bs" by auto
    moreover have "\<not> f"
    proof
      assume f
      then have "k \<in> set (faddrs bs)" using m by force
      then show False using \<open>k \<notin> set (chain bs)\<close> unfolding chain_def by simp
    qed
    moreover from m have "j = m" using k(3) assms(1) nodes_ok_len by (auto simp: rep_def)
    ultimately show "(k, j) \<in> used bs" by (simp add: used_iff)
  next
    assume "(k, j) \<in> used bs"
    then have k: "(k, j, False) \<in> set bs" by (simp add: used_iff)
    have "k \<in> set (memory h)" using k assms(1) by (force simp: rep_def)
    moreover have "\<not> isfree h k" using isfree_iff [OF assms calculation] used_not_chained [OF assms(2) k] by simp
    moreover have "nlen (node h k) = j" using k assms(1) nodes_ok_len by (auto simp: rep_def)
    ultimately show "(k, j) \<in> heap_used h" by (auto simp: heap_used_def)
  qed
  then show ?thesis by auto
qed

definition heap_inv :: "nat \<Rightarrow> nat \<Rightarrow> small_heap \<Rightarrow> bool" where
  "heap_inv base len h \<longleftrightarrow> (\<exists>bs. heap_ok base len bs h)"

lemma heap_inv_used:
  "heap_ok base len bs h \<Longrightarrow> heap_used h = used bs"
  using heap_used_rep by (auto simp: heap_ok_def)

lemma alloc_cases:
  assumes "heap_inv base len h"
  shows "(\<exists>h'. heap_alloc n h = Some (None, h') \<and> h' = h \<and> (n = 0 \<or> (\<forall>a. \<not> gap base len (heap_used h) n a))) \<or>
    (\<exists>r h'. heap_alloc n h = Some (Some r, h') \<and> heap_inv base len h' \<and> 0 < n \<and> gap base len (heap_used h) n r \<and>
       (\<forall>a. gap base len (heap_used h) n a \<longrightarrow> r \<le> a) \<and> heap_used h' = insert (r, n) (heap_used h) \<and> high h' = high h)"
proof -
  obtain bs where ok: "heap_ok base len bs h" using assms by (auto simp: heap_inv_def)
  then have f: "fits_pool base len bs" "compact bs" by (simp_all add: heap_ok_def)
  note u = heap_inv_used [OF ok]
  show ?thesis
  proof (cases "n = 0 \<or> spec_alloc n bs = None")
    case True
    then show ?thesis using alloc_null [OF ok True] spec_alloc_gap(1) [OF f, of n] unfolding u by (cases "n = 0") auto
  next
    case False
    then obtain r bs' where s: "spec_alloc n bs = Some (r, bs')" "0 < n" by (cases "spec_alloc n bs") auto
    obtain g where g: "heap_alloc n h = Some (Some r, g)" "heap_ok base len bs' g" "high g = high h" using alloc_some [OF ok s(2,1)] by blast
    then show ?thesis using spec_alloc_gap(2) [OF f s(2,1)] s(2) heap_inv_used [OF g(2)] unfolding u heap_inv_def by blast
  qed
qed

lemma alloc_high_cases:
  assumes "heap_inv base len h"
  shows "(\<exists>h'. heap_alloc_high n h = Some (None, h') \<and> h' = h \<and> (n = 0 \<or> (\<forall>a. \<not> gap base len (heap_used h) n a))) \<or>
    (\<exists>r h'. heap_alloc_high n h = Some (Some r, h') \<and> heap_inv base len h' \<and> 0 < n \<and> gap base len (heap_used h) n r \<and>
       (\<forall>a. gap base len (heap_used h) n a \<longrightarrow> a \<le> r) \<and> heap_used h' = insert (r, n) (heap_used h) \<and> high h' = List.insert r (high h))"
proof -
  obtain bs where ok: "heap_ok base len bs h" using assms by (auto simp: heap_inv_def)
  then have f: "fits_pool base len bs" "compact bs" by (simp_all add: heap_ok_def)
  note u = heap_inv_used [OF ok]
  show ?thesis
  proof (cases "n = 0 \<or> spec_high n bs = None")
    case True
    then show ?thesis using alloc_high_null [OF ok True] spec_high_gap(1) [OF f, of n] spec_alloc_gap(1) [OF f, of n] unfolding u by (cases "n = 0") auto
  next
    case False
    then obtain r bs' where s: "spec_high n bs = Some (r, bs')" "0 < n" by (cases "spec_high n bs") auto
    obtain g where g: "heap_alloc_high n h = Some (Some r, g)" "heap_ok base len bs' g" "high g = List.insert r (high h)"
      using alloc_high_some [OF ok s(2,1)] by blast
    then show ?thesis using spec_high_gap(2) [OF f s(2,1)] s(2) heap_inv_used [OF g(2)] unfolding u heap_inv_def by blast
  qed
qed

lemma free_cases:
  assumes "heap_inv base len h" and "(a, n) \<in> heap_used h"
  shows "\<exists>h'. heap_free a h = Some h' \<and> heap_inv base len h' \<and> heap_used h' = heap_used h - {(a, n)} \<and> high h' = removeAll a (high h)"
proof -
  obtain bs where ok: "heap_ok base len bs h" using assms by (auto simp: heap_inv_def)
  then have f: "fits_pool base len bs" by (simp add: heap_ok_def)
  note u = heap_inv_used [OF ok]
  have m: "(a, n, False) \<in> set bs" using assms(2) unfolding u by (simp add: used_iff)
  obtain g where g: "heap_free a h = Some g" "heap_ok base len (coalesce (mark a bs)) g" "high g = removeAll a (high h)" using free_ok [OF ok m] by blast
  then show ?thesis using used_mark [OF f m] heap_inv_used [OF g(2)] unfolding u heap_inv_def by auto
qed

subsection \<open>The contract of an allocator\<close>

locale block_allocator =
  fixes inv :: "'h \<Rightarrow> bool" and in_use :: "'h \<Rightarrow> (nat \<times> nat) set"
    and alloc :: "nat \<Rightarrow> 'h \<Rightarrow> (nat option \<times> 'h) option" and dealloc :: "nat \<Rightarrow> 'h \<Rightarrow> 'h option"
  assumes alloc_total: "inv h \<Longrightarrow> \<exists>r h'. alloc n h = Some (r, h')"
    and alloc_none: "inv h \<Longrightarrow> alloc n h = Some (None, h') \<Longrightarrow> h' = h"
    and alloc_block: "inv h \<Longrightarrow> alloc n h = Some (Some a, h') \<Longrightarrow> inv h' \<and> 0 < n \<and> (\<forall>(b, m)\<in>in_use h. a + n \<le> b \<or> b + m \<le> a) \<and>
      in_use h' = insert (a, n) (in_use h)"
    and dealloc_block: "inv h \<Longrightarrow> (a, n) \<in> in_use h \<Longrightarrow> \<exists>h'. dealloc a h = Some h' \<and> inv h' \<and> in_use h' = in_use h - {(a, n)}"
    and in_use_pos: "inv h \<Longrightarrow> (a, n) \<in> in_use h \<Longrightarrow> 0 < n"
begin

text \<open>A client that asks for several blocks, and gives back those it got.\<close>

fun alloc_all :: "nat list \<Rightarrow> 'h \<Rightarrow> ((nat \<times> nat) list \<times> 'h) option" where
  "alloc_all [] h = Some ([], h)"
| "alloc_all (n # ns) h = (case alloc n h of None \<Rightarrow> None
     | Some (r, h1) \<Rightarrow> (case alloc_all ns h1 of None \<Rightarrow> None
        | Some (as, h2) \<Rightarrow> Some ((case r of None \<Rightarrow> as | Some a \<Rightarrow> (a, n) # as), h2)))"

fun dealloc_all :: "(nat \<times> nat) list \<Rightarrow> 'h \<Rightarrow> 'h option" where
  "dealloc_all [] h = Some h"
| "dealloc_all ((a, n) # as) h = (case dealloc a h of None \<Rightarrow> None | Some h1 \<Rightarrow> dealloc_all as h1)"

lemma alloc_fresh:
  assumes "inv h" and "alloc n h = Some (Some a, h')" shows "(a, m) \<notin> in_use h"
proof
  assume m: "(a, m) \<in> in_use h"
  then have "0 < m" using in_use_pos [OF assms(1)] by simp
  then show False using alloc_block [OF assms] m by auto
qed

lemma alloc_all_gets:
  "inv h \<Longrightarrow> \<exists>as h'. alloc_all ns h = Some (as, h') \<and> inv h' \<and> in_use h' = set as \<union> in_use h \<and> distinct as \<and> set as \<inter> in_use h = {}"
proof (induction ns arbitrary: h)
  case (Cons n ns)
  obtain r h1 where a: "alloc n h = Some (r, h1)" using alloc_total [OF Cons.prems] by blast
  show ?case
  proof (cases r)
    case None
    then show ?thesis using Cons a alloc_none by fastforce
  next
    case (Some x)
    note b = alloc_block [OF Cons.prems a [unfolded Some]]
    have x: "(x, n) \<notin> in_use h" using alloc_fresh [OF Cons.prems a [unfolded Some]] .
    obtain as h2 where as: "alloc_all ns h1 = Some (as, h2)" "inv h2" "in_use h2 = set as \<union> in_use h1" "distinct as" "set as \<inter> in_use h1 = {}"
      using Cons.IH b by blast
    then show ?thesis using a b x Some by auto
  qed
qed simp

lemma dealloc_all_frees:
  "inv h \<Longrightarrow> distinct as \<Longrightarrow> set as \<subseteq> in_use h \<Longrightarrow> \<exists>h'. dealloc_all as h = Some h' \<and> inv h' \<and> in_use h' = in_use h - set as"
proof (induction as arbitrary: h)
  case (Cons b as)
  obtain a n where b: "b = (a, n)" by (cases b) auto
  obtain h1 where "dealloc a h = Some h1" "inv h1" "in_use h1 = in_use h - {(a, n)}" using dealloc_block [of h a n] Cons.prems b by auto
  moreover from this obtain h2 where "dealloc_all as h1 = Some h2" "inv h2" "in_use h2 = in_use h1 - set as"
    using Cons.IH [of h1] Cons.prems b by auto
  ultimately show ?case unfolding b by auto
qed simp

lemma alloc_dealloc_all:
  assumes "inv h"
  shows "\<exists>as h' h''. alloc_all ns h = Some (as, h') \<and> dealloc_all as h' = Some h'' \<and> inv h'' \<and> in_use h'' = in_use h"
proof -
  obtain as h' where a: "alloc_all ns h = Some (as, h')" "inv h'" "in_use h' = set as \<union> in_use h" "distinct as" "set as \<inter> in_use h = {}"
    using alloc_all_gets [OF assms] by blast
  obtain h'' where "dealloc_all as h' = Some h''" "inv h''" "in_use h'' = in_use h' - set as" using dealloc_all_frees [OF a(2,4)] a(3) by blast
  then show ?thesis using a by blast
qed

end

lemma heap_used_pos: "heap_inv base len h \<Longrightarrow> (a, n) \<in> heap_used h \<Longrightarrow> 0 < n \<and> base \<le> a \<and> a + n \<le> base + len"
  using heap_inv_used fits_addrs by (fastforce simp: heap_inv_def heap_ok_def used_iff)

interpretation low_end: block_allocator "heap_inv base len" heap_used heap_alloc heap_free for base len
proof (unfold_locales, goal_cases)
  case (1 h n)
  then show ?case using alloc_cases [of base len h n] by blast
next
  case (2 h n h')
  then show ?case using alloc_cases [of base len h n] by fastforce
next
  case (3 h n a h')
  then show ?case using alloc_cases [of base len h n] by (auto simp: gap_def)
next
  case (4 h a n)
  then show ?case using free_cases by blast
next
  case (5 h a n)
  then show ?case using heap_used_pos by blast
qed

interpretation high_end: block_allocator "heap_inv base len" heap_used heap_alloc_high heap_free for base len
proof (unfold_locales, goal_cases)
  case (1 h n)
  then show ?case using alloc_high_cases [of base len h n] by blast
next
  case (2 h n h')
  then show ?case using alloc_high_cases [of base len h n] by fastforce
next
  case (3 h n a h')
  then show ?case using alloc_high_cases [of base len h n] by (auto simp: gap_def)
next
  case (4 h a n)
  then show ?case using free_cases by blast
next
  case (5 h a n)
  then show ?case using heap_used_pos by blast
qed

subsection \<open>Runs\<close>

text \<open>The clients know which blocks they hold, \<open>us\<close>, and which of them \<open>alloc_high\<close> returned, \<open>hs\<close>.\<close>

inductive hrun :: "nat \<Rightarrow> nat \<Rightarrow> small_heap \<Rightarrow> (nat \<times> nat) set \<Rightarrow> nat set \<Rightarrow> bool" for base len where
  hrun_new: "SmallHeap_new base len = Some h \<Longrightarrow> hrun base len h {} {}"
| hrun_alloc: "hrun base len h us hs \<Longrightarrow> heap_alloc n h = Some (r, h') \<Longrightarrow> hrun base len h' (case r of None \<Rightarrow> us | Some a \<Rightarrow> insert (a, n) us) hs"
| hrun_high: "hrun base len h us hs \<Longrightarrow> heap_alloc_high n h = Some (r, h') \<Longrightarrow>
    hrun base len h' (case r of None \<Rightarrow> us | Some a \<Rightarrow> insert (a, n) us) (case r of None \<Rightarrow> hs | Some a \<Rightarrow> insert a hs)"
| hrun_free: "hrun base len h us hs \<Longrightarrow> (a, n) \<in> us \<Longrightarrow> heap_free a h = Some h' \<Longrightarrow> hrun base len h' (us - {(a, n)}) (hs - {a})"

lemma hrun_inv:
  assumes "hrun base len h us hs" and "0 < base" and "0 < len" and "base + len < top_addr"
  shows "heap_inv base len h \<and> heap_used h = us \<and> set (high h) = insert top_addr hs"
  using assms(1)
proof induction
  case (hrun_new h)
  then obtain ok: "heap_ok base len [(base, len, True)] h" and h: "high h = [top_addr]" using new_ok [OF assms(2-4)] by auto
  have "heap_used h = {}" using heap_inv_used [OF ok] by simp
  then show ?case using ok h by (auto simp: heap_inv_def)
next
  case (hrun_alloc h us hs n r h')
  then have i: "heap_inv base len h" by simp
  consider "heap_alloc n h = Some (None, h)" | a g where "heap_alloc n h = Some (Some a, g)" "heap_inv base len g" "heap_used g = insert (a, n) (heap_used h)" "high g = high h"
    using alloc_cases [OF i, of n] by blast
  then show ?case using hrun_alloc by cases auto
next
  case (hrun_high h us hs n r h')
  then have i: "heap_inv base len h" by simp
  consider "heap_alloc_high n h = Some (None, h)" | a g where "heap_alloc_high n h = Some (Some a, g)" "heap_inv base len g" "heap_used g = insert (a, n) (heap_used h)" "high g = List.insert a (high h)"
    using alloc_high_cases [OF i, of n] by blast
  then show ?case using hrun_high by cases auto
next
  case (hrun_free h us hs a n h')
  then have u: "heap_inv base len h" "(a, n) \<in> heap_used h" by simp_all
  have "a < top_addr" using heap_used_pos [OF u] assms(4) by linarith
  moreover obtain g where "heap_free a h = Some g" "heap_inv base len g" "heap_used g = heap_used h - {(a, n)}" "high g = removeAll a (high h)"
    using free_cases [OF u] by blast
  ultimately show ?case using hrun_free by auto
qed

lemma free_used_sum:
  assumes "tiled a bs e" shows "finite (used bs) \<and> a + free_sum bs + (\<Sum>b\<in>used bs. snd b) = e"
  using assms
proof (induction a bs e rule: tiled.induct)
  case (2 a k l f bs e)
  have "(k, l) \<notin> used bs" using tiled_sorted [of "a + l" bs e] 2(2) by (force simp: used_iff)
  then show ?case using 2 by (auto simp: add.assoc)
qed simp

text \<open>Two blocks in use are apart.\<close>

lemma used_apart:
  assumes "tiled c bs e" and "(a, n) \<in> used bs" and "(b, m) \<in> used bs" and "(a, n) \<noteq> (b, m)"
  shows "a + n \<le> b \<or> b + m \<le> a"
proof -
  obtain pre post where p: "bs = pre @ (a, n, False) # post" using assms(2) unfolding used_iff by (meson split_list)
  then have "(b, m, False) \<in> set pre \<union> set post" using assms(3,4) unfolding used_iff by auto
  then show ?thesis using block_gap [of c pre a n False post e b m] assms(1) p by auto
qed

text \<open>C4: In every run of the small heap no assertion fails; the blocks in use lie in the pool, are pairwise apart and, together with
  what \<open>remaining()\<close> counts, fill it; \<open>alloc\<close> returns the lowest and \<open>alloc_high\<close> the highest address where the request
  fits between the blocks in use, and null only for an empty request or when it fits nowhere, so neighbouring free blocks are always merged;
  every block in use can be freed; and \<open>high_split()\<close> is the lowest address \<open>alloc_high\<close> has given out.\<close>

theorem small_heap_correct:
  assumes "0 < base" and "0 < len" and "base + len < top_addr" and "hrun base len h us hs"
  shows "(\<forall>(a, n)\<in>us. 0 < n \<and> base \<le> a \<and> a + n \<le> base + len) \<and>
    (\<forall>(a, n)\<in>us. \<forall>(b, m)\<in>us. (a, n) \<noteq> (b, m) \<longrightarrow> a + n \<le> b \<or> b + m \<le> a) \<and>
    total_free h + (\<Sum>b\<in>us. snd b) = len \<and>
    high_split h = Some (Min (insert top_addr hs)) \<and>
    (\<forall>n. \<exists>r h'. heap_alloc n h = Some (r, h') \<and> (case r of
        None \<Rightarrow> h' = h \<and> (n = 0 \<or> (\<forall>a. \<not> gap base len us n a))
      | Some a \<Rightarrow> 0 < n \<and> gap base len us n a \<and> (\<forall>b. gap base len us n b \<longrightarrow> a \<le> b))) \<and>
    (\<forall>n. \<exists>r h'. heap_alloc_high n h = Some (r, h') \<and> (case r of
        None \<Rightarrow> h' = h \<and> (n = 0 \<or> (\<forall>a. \<not> gap base len us n a))
      | Some a \<Rightarrow> 0 < n \<and> gap base len us n a \<and> (\<forall>b. gap base len us n b \<longrightarrow> b \<le> a))) \<and>
    (\<forall>(a, n)\<in>us. \<exists>h'. heap_free a h = Some h')"
proof -
  have inv: "heap_inv base len h" and u: "heap_used h = us" and hi: "set (high h) = insert top_addr hs" using hrun_inv [OF assms(4,1-3)] by simp_all
  obtain bs where ok: "heap_ok base len bs h" using inv by (auto simp: heap_inv_def)
  have t: "tiled base bs (base + len)" and tf: "total_free h = free_sum bs" using ok by (simp_all add: heap_ok_def fits_pool_def)
  have ub: "us = used bs" using heap_inv_used [OF ok] u by simp
  have p: "0 < n \<and> base \<le> a \<and> a + n \<le> base + len" if "(a, n) \<in> us" for a n using heap_used_pos [OF inv] that u by simp
  have q: "a + n \<le> b \<or> b + m \<le> a" if "(a, n) \<in> us" "(b, m) \<in> us" "(a, n) \<noteq> (b, m)" for a n b m using used_apart [OF t] that ub by simp
  have s: "total_free h + (\<Sum>b\<in>us. snd b) = len" using free_used_sum [OF t] unfolding ub tf by simp
  have sp: "high_split h = Some (Min (insert top_addr hs))" using hi by (auto simp: high_split_def)
  have lo: "\<exists>r h'. heap_alloc n h = Some (r, h') \<and> (case r of None \<Rightarrow> h' = h \<and> (n = 0 \<or> (\<forall>a. \<not> gap base len us n a))
      | Some a \<Rightarrow> 0 < n \<and> gap base len us n a \<and> (\<forall>b. gap base len us n b \<longrightarrow> a \<le> b))" for n
    using alloc_cases [OF inv, of n] unfolding u by (elim disjE exE conjE) (intro exI conjI, assumption, simp)+
  have hg: "\<exists>r h'. heap_alloc_high n h = Some (r, h') \<and> (case r of None \<Rightarrow> h' = h \<and> (n = 0 \<or> (\<forall>a. \<not> gap base len us n a))
      | Some a \<Rightarrow> 0 < n \<and> gap base len us n a \<and> (\<forall>b. gap base len us n b \<longrightarrow> b \<le> a))" for n
    using alloc_high_cases [OF inv, of n] unfolding u by (elim disjE exE conjE) (intro exI conjI, assumption, simp)+
  have fr: "\<exists>h'. heap_free a h = Some h'" if "(a, n) \<in> us" for a n using free_cases [OF inv] that u by blast
  have bp: "\<forall>(a, n)\<in>us. 0 < n \<and> base \<le> a \<and> a + n \<le> base + len" and bf: "\<forall>(a, n)\<in>us. \<exists>h'. heap_free a h = Some h'"
    and bq: "\<forall>(a, n)\<in>us. \<forall>(b, m)\<in>us. (a, n) \<noteq> (b, m) \<longrightarrow> a + n \<le> b \<or> b + m \<le> a"
    unfolding Ball_def split_paired_All prod.case using p q fr by blast+
  show ?thesis using bp bq s sp lo hg bf by blast
qed

text \<open>C40: Clients that ask for any blocks at either end of a heap, at any moment of a run, and later give back those they got leave the blocks in use as
  they were; and a heap of which everything was given back is one free block again, so it can be allocated as a whole.\<close>

theorem small_heap_restored:
  assumes "0 < base" and "0 < len" and "base + len < top_addr" and "hrun base len h us hs"
  shows "(\<exists>as h' h''. block_allocator.alloc_all heap_alloc ns h = Some (as, h') \<and> block_allocator.dealloc_all heap_free as h' = Some h'' \<and> heap_used h'' = us) \<and>
    (\<exists>as h' h''. block_allocator.alloc_all heap_alloc_high ns h = Some (as, h') \<and> block_allocator.dealloc_all heap_free as h' = Some h'' \<and> heap_used h'' = us) \<and>
    (us = {} \<longrightarrow> (\<exists>h'. heap_alloc len h = Some (Some base, h') \<and> total_free h' = 0))"
proof -
  have inv: "heap_inv base len h" and u: "heap_used h = us" using hrun_inv [OF assms(4,1-3)] by simp_all
  have "\<exists>h'. heap_alloc len h = Some (Some base, h') \<and> total_free h' = 0" if e: "us = {}"
  proof -
    have "gap base len us len base" by (simp add: gap_def e)
    then obtain r h' where r: "heap_alloc len h = Some (Some r, h')" "heap_inv base len h'" "gap base len us len r" "heap_used h' = insert (r, len) us"
      using alloc_cases [OF inv, of len] assms(2) unfolding u by auto
    have "r = base" using r(3) by (simp add: gap_def)
    obtain bs where ok: "heap_ok base len bs h'" using r(2) by (auto simp: heap_inv_def)
    have ub: "used bs = {(r, len)}" using heap_inv_used [OF ok] r(4) e by simp
    have "tiled base bs (base + len)" "total_free h' = free_sum bs" using ok by (simp_all add: heap_ok_def fits_pool_def)
    then have "total_free h' = 0" using free_used_sum [of base bs "base + len"] unfolding ub by simp
    then show ?thesis using r(1) \<open>r = base\<close> by blast
  qed
  then show ?thesis using low_end.alloc_dealloc_all [OF inv] high_end.alloc_dealloc_all [OF inv] unfolding u by blast
qed

text \<open>A heap of 1024 bytes after one allocation at each end.\<close>

lemma hrun_sample:
  "\<exists>h. hrun 4096 1024 h {(4096, 100), (5056, 64)} {5056}"
proof -
  have b: "(0::nat) < 4096" "(0::nat) < 1024" "4096 + 1024 < top_addr" by (simp_all add: top_addr_def)
  obtain h0 where "SmallHeap_new 4096 1024 = Some h0" using new_ok [OF b] by blast
  then have h0: "hrun 4096 1024 h0 {} {}" by (rule hrun_new)
  note i0 = hrun_inv [OF h0 b]
  obtain r h1 where r: "heap_alloc 100 h0 = Some (Some r, h1)" "gap 4096 1024 {} 100 r" "\<forall>a. gap 4096 1024 {} 100 a \<longrightarrow> r \<le> a"
    using alloc_cases [of 4096 1024 h0 100] i0 by (auto simp: gap_def)
  have "gap 4096 1024 {} 100 4096" by (simp add: gap_def)
  then have "r = 4096" using r(2,3) by (simp add: gap_def antisym)
  then have h1: "hrun 4096 1024 h1 {(4096, 100)} {}" using hrun_alloc [OF h0 r(1)] by simp
  note i1 = hrun_inv [OF h1 b]
  have g: "gap 4096 1024 {(4096, 100)} 64 5056" by (simp add: gap_def)
  obtain t h2 where t: "heap_alloc_high 64 h1 = Some (Some t, h2)" "gap 4096 1024 {(4096, 100)} 64 t" "\<forall>a. gap 4096 1024 {(4096, 100)} 64 a \<longrightarrow> a \<le> t"
    using alloc_high_cases [of 4096 1024 h1 64] i1 g by auto
  have "t = 5056" using t(2,3) g by (auto simp: gap_def intro: antisym)
  then show ?thesis using hrun_high [OF h1 t(1)] by (auto simp: insert_commute)
qed

theorem small_heap_correct_witness:
  "\<exists>h. hrun 4096 1024 h {(4096, 100), (5056, 64)} {5056} \<and> total_free h = 860 \<and> high_split h = Some 5056 \<and>
     (\<exists>h'. heap_alloc 900 h = Some (None, h')) \<and> (\<exists>h'. heap_free 4096 h = Some h')"
proof -
  obtain h where h: "hrun 4096 1024 h {(4096, 100), (5056, 64)} {5056}" using hrun_sample by blast
  have b: "(0::nat) < 4096" "(0::nat) < 1024" "4096 + 1024 < top_addr" by (simp_all add: top_addr_def)
  note c = small_heap_correct [OF b h]
  have "total_free h = 860" using c by simp
  moreover have "high_split h = Some 5056" using c by (simp add: top_addr_def)
  moreover have "\<forall>a. \<not> gap 4096 1024 {(4096, 100), (5056, 64)} 900 a" by (auto simp: gap_def)
  then have "\<exists>h'. heap_alloc 900 h = Some (None, h')"
    using c [THEN conjunct2, THEN conjunct2, THEN conjunct2, THEN conjunct2, THEN conjunct1, THEN spec [of _ 900]] by (auto split: option.splits)
  moreover have "\<exists>h'. heap_free 4096 h = Some h'" using c by simp
  ultimately show ?thesis using h by blast
qed

theorem small_heap_restored_witness:
  "\<exists>h as h' h''. block_allocator.alloc_all heap_alloc [10, 2000, 20] h = Some (as, h') \<and> block_allocator.dealloc_all heap_free as h' = Some h'' \<and>
     heap_used h'' = {(4096, 100), (5056, 64)}"
proof -
  obtain h where h: "hrun 4096 1024 h {(4096, 100), (5056, 64)} {5056}" using hrun_sample by blast
  have b: "(0::nat) < 4096" "(0::nat) < 1024" "4096 + 1024 < top_addr" by (simp_all add: top_addr_def)
  show ?thesis using small_heap_restored [OF b h, of "[10, 2000, 20]"] by blast
qed

end
