(* ===== verification/Rw_Lock.thy ===== *)
theory Rw_Lock
  imports Co_Prelude
begin

text \<open>
  \<open>ReaderWriterLock\<close> of \<open>include/util/locks.h\<close> and \<open>src/core/util/locks.cpp\<close>: a monitor with two condition variables. A call
  runs under \<open>internal_lock_\<close> up to its return or to a wait, and again from each wakeup to the next wait or the return; these
  are the steps. Threads asleep in a condition variable may also wake spuriously. \<open>notify_one\<close> wakes any one sleeper.
\<close>

datatype rw_status = RW_idle | R_sleep | R_woken | R_hold | W_sleep | W_woken | W_hold

record rw_lock =
  readers_count :: nat
  writers_count :: nat
  writers_waiting :: nat
  rw_thread :: "nat \<Rightarrow> rw_status"     \<comment> \<open>who is where: the queues of the two conditions and the callers\<close>

definition rw_new :: rw_lock where
  "rw_new = \<lparr>readers_count = 0, writers_count = 0, writers_waiting = 0, rw_thread = (\<lambda>_. RW_idle)\<rparr>"

definition at_rw :: "nat \<Rightarrow> rw_status \<Rightarrow> rw_lock \<Rightarrow> rw_lock" where
  "at_rw t x s = s\<lparr>rw_thread := (rw_thread s)(t := x)\<rparr>"

text \<open>The loop of \<open>ReaderLock\<close>, from its test to the wait or the return; also what a woken reader runs.\<close>

definition ReaderLock_enter :: "nat \<Rightarrow> rw_lock \<Rightarrow> rw_lock" where
  "ReaderLock_enter t s = (if 0 < writers_count s then at_rw t R_sleep s
     else at_rw t R_hold (s\<lparr>readers_count := readers_count s + 1\<rparr>))"

definition WriterLock_enter :: "nat \<Rightarrow> rw_lock \<Rightarrow> rw_lock" where
  "WriterLock_enter t s = (if 0 < readers_count s \<or> 0 < writers_count s then at_rw t W_sleep s
     else at_rw t W_hold (s\<lparr>writers_count := writers_count s + 1, writers_waiting := writers_waiting s - 1\<rparr>))"

definition WriterLock :: "nat \<Rightarrow> rw_lock \<Rightarrow> rw_lock" where
  "WriterLock t s = WriterLock_enter t (s\<lparr>writers_waiting := writers_waiting s + 1\<rparr>)"

text \<open>\<open>writers_condition_.notify_one()\<close>: \<open>pick\<close> is the thread that wakes, if any sleeps.\<close>

definition notify_writer :: "nat option \<Rightarrow> rw_lock \<Rightarrow> rw_lock" where
  "notify_writer pick s = (case pick of None \<Rightarrow> s | Some w \<Rightarrow> at_rw w W_woken s)"

definition can_pick :: "nat option \<Rightarrow> rw_lock \<Rightarrow> bool" where
  "can_pick pick s \<longleftrightarrow> (case pick of None \<Rightarrow> \<forall>w. rw_thread s w \<noteq> W_sleep | Some w \<Rightarrow> rw_thread s w = W_sleep)"

definition ReaderUnlock :: "nat option \<Rightarrow> nat \<Rightarrow> rw_lock \<Rightarrow> rw_lock" where
  "ReaderUnlock pick t s =
     (let s1 = s\<lparr>readers_count := readers_count s - 1\<rparr>;
          s2 = (if readers_count s1 = 0 \<and> 0 < writers_waiting s1 then notify_writer pick s1 else s1)
      in at_rw t RW_idle s2)"

text \<open>\<open>readers_condition_.notify_all()\<close>\<close>

definition wake_readers :: "rw_lock \<Rightarrow> rw_lock" where
  "wake_readers s = s\<lparr>rw_thread := (\<lambda>t. if rw_thread s t = R_sleep then R_woken else rw_thread s t)\<rparr>"

definition WriterUnlock :: "nat option \<Rightarrow> nat \<Rightarrow> rw_lock \<Rightarrow> rw_lock" where
  "WriterUnlock pick t s =
     (let s1 = s\<lparr>writers_count := writers_count s - 1\<rparr>;
          s2 = (if 0 < writers_waiting s1 then notify_writer pick s1 else s1)
      in at_rw t RW_idle (wake_readers s2))"

inductive rw_step :: "rw_lock \<Rightarrow> rw_lock \<Rightarrow> bool" where
  rw_ReaderLock: "rw_thread s t = RW_idle \<Longrightarrow> rw_step s (ReaderLock_enter t s)"
| rw_reader_wakes: "rw_thread s t = R_woken \<Longrightarrow> rw_step s (ReaderLock_enter t s)"
| rw_ReaderUnlock: "rw_thread s t = R_hold \<Longrightarrow> can_pick pick s \<Longrightarrow> rw_step s (ReaderUnlock pick t s)"
| rw_WriterLock: "rw_thread s t = RW_idle \<Longrightarrow> rw_step s (WriterLock t s)"
| rw_writer_wakes: "rw_thread s t = W_woken \<Longrightarrow> rw_step s (WriterLock_enter t s)"
| rw_WriterUnlock: "rw_thread s t = W_hold \<Longrightarrow> can_pick pick s \<Longrightarrow> rw_step s (WriterUnlock pick t s)"
| rw_spurious_reader: "rw_thread s t = R_sleep \<Longrightarrow> rw_step s (at_rw t R_woken s)"
| rw_spurious_writer: "rw_thread s t = W_sleep \<Longrightarrow> rw_step s (at_rw t W_woken s)"

subsection \<open>Counters are numbers of threads\<close>

definition who :: "rw_status set \<Rightarrow> (nat \<Rightarrow> rw_status) \<Rightarrow> nat set" where
  "who X th = {t. th t \<in> X}"

definition counts :: "(nat \<Rightarrow> rw_status) \<Rightarrow> nat \<Rightarrow> nat \<Rightarrow> nat \<Rightarrow> bool" where
  "counts th r w q \<longleftrightarrow> finite (who (- {RW_idle}) th) \<and> r = card (who {R_hold} th) \<and> w = card (who {W_hold} th) \<and> q = card (who {W_sleep, W_woken} th)"

lemma who_finite: "finite (who (- {RW_idle}) th) \<Longrightarrow> RW_idle \<notin> X \<Longrightarrow> finite (who X th)"
  by (erule finite_subset [rotated]) (auto simp: who_def)

lemma who_upd: "who X (th(t := x)) = (if x \<in> X then insert t (who X th) else who X th - {t})"
  by (auto simp: who_def)

text \<open>A move of one thread changes the numbers by at most one.\<close>

lemma card_move:
  assumes "finite (who (- {RW_idle}) th)" and "RW_idle \<notin> X"
  shows "card (who X (th(t := x))) + (if th t \<in> X then 1 else 0) = card (who X th) + (if x \<in> X then 1 else 0)"
proof -
  have f: "finite (who X th)" by (rule who_finite [OF assms])
  show ?thesis
  proof (cases "th t \<in> X")
    case True
    then have t: "t \<in> who X th" by (simp add: who_def)
    then have "card (who X th) = Suc (card (who X th - {t}))" using f by (metis card_Suc_Diff1)
    then show ?thesis using True f t by (simp add: who_upd insert_absorb)
  next
    case False
    then have "t \<notin> who X th" by (simp add: who_def)
    then show ?thesis using False f by (simp add: who_upd)
  qed
qed

lemma counts_move:
  assumes "counts th r w q"
    and "r' + (if th t = R_hold then 1 else 0) = r + (if x = R_hold then 1 else 0)"
    and "w' + (if th t = W_hold then 1 else 0) = w + (if x = W_hold then 1 else 0)"
    and "q' + (if th t \<in> {W_sleep, W_woken} then 1 else 0) = q + (if x \<in> {W_sleep, W_woken} then 1 else 0)"
  shows "counts (th(t := x)) r' w' q'"
proof -
  have f: "finite (who (- {RW_idle}) th)" using assms(1) by (simp add: counts_def)
  have "finite (who (- {RW_idle}) (th(t := x)))" using f by (simp add: who_upd)
  then show ?thesis using assms card_move [OF f, of "{R_hold}" t x] card_move [OF f, of "{W_hold}" t x] card_move [OF f, of "{W_sleep, W_woken}" t x]
    unfolding counts_def by (simp only: singleton_iff) simp
qed

lemma counts_wake: "counts th r w q \<Longrightarrow> counts (\<lambda>t. if th t = R_sleep then R_woken else th t) r w q"
proof -
  let ?th = "\<lambda>t. if th t = R_sleep then R_woken else th t"
  have "who (- {RW_idle}) ?th = who (- {RW_idle}) th" "who {R_hold} ?th = who {R_hold} th" "who {W_hold} ?th = who {W_hold} th"
    "who {W_sleep, W_woken} ?th = who {W_sleep, W_woken} th" by (auto simp: who_def)
  then show "counts th r w q \<Longrightarrow> ?thesis" by (simp add: counts_def)
qed

lemma card_who: "finite (who (- {RW_idle}) th) \<Longrightarrow> RW_idle \<notin> X \<Longrightarrow> 0 < card (who X th) \<longleftrightarrow> (\<exists>t. th t \<in> X)"
  using who_finite [of th X] by (simp add: card_gt_0_iff) (simp add: who_def)

lemma counts_ex:
  assumes "counts th r w q"
  shows "0 < r \<longleftrightarrow> (\<exists>t. th t = R_hold)" and "0 < w \<longleftrightarrow> (\<exists>t. th t = W_hold)" and "0 < q \<longleftrightarrow> (\<exists>t. th t \<in> {W_sleep, W_woken})"
  using assms card_who [of th "{R_hold}"] card_who [of th "{W_hold}"] card_who [of th "{W_sleep, W_woken}"] by (simp_all add: counts_def)

lemma counts_pos:
  assumes "counts th r w q"
  shows "th t = R_hold \<Longrightarrow> 0 < r" and "th t = W_hold \<Longrightarrow> 0 < w" and "th t \<in> {W_sleep, W_woken} \<Longrightarrow> 0 < q"
  using counts_ex [OF assms] by blast+

text \<open>Nobody sleeps without someone who will wake him.\<close>

definition rw_inv :: "(nat \<Rightarrow> rw_status) \<Rightarrow> nat \<Rightarrow> nat \<Rightarrow> nat \<Rightarrow> bool" where
  "rw_inv th r w q \<longleftrightarrow> counts th r w q \<and> w \<le> 1 \<and> (0 < w \<longrightarrow> r = 0) \<and> ((\<exists>t. th t = R_sleep) \<longrightarrow> 0 < w) \<and>
     ((\<exists>t. th t = W_sleep) \<longrightarrow> 0 < r \<or> 0 < w \<or> (\<exists>t. th t = W_woken))"

abbreviation rw_ok :: "rw_lock \<Rightarrow> bool" where
  "rw_ok s \<equiv> rw_inv (rw_thread s) (readers_count s) (writers_count s) (writers_waiting s)"

lemma rw_invI:
  "counts th r w q \<Longrightarrow> w \<le> 1 \<Longrightarrow> (0 < w \<Longrightarrow> r = 0) \<Longrightarrow> (\<And>t. th t = R_sleep \<Longrightarrow> 0 < w) \<Longrightarrow>
   (\<And>t. th t = W_sleep \<Longrightarrow> r = 0 \<Longrightarrow> w = 0 \<Longrightarrow> \<exists>u. th u = W_woken) \<Longrightarrow> rw_inv th r w q"
  unfolding rw_inv_def by blast

lemma rw_invD:
  assumes "rw_inv th r w q"
  shows "counts th r w q" and "w \<le> 1" and "0 < w \<Longrightarrow> r = 0" and "th t = R_sleep \<Longrightarrow> 0 < w"
    and "th t = W_sleep \<Longrightarrow> r = 0 \<Longrightarrow> w = 0 \<Longrightarrow> \<exists>u. th u = W_woken"
  using assms unfolding rw_inv_def by blast+

lemma enter_reader:
  assumes "rw_ok s" and "rw_thread s t \<in> {RW_idle, R_woken}"
  shows "rw_ok (ReaderLock_enter t s)"
proof (cases "0 < writers_count s")
  case True
  have "counts ((rw_thread s)(t := R_sleep)) (readers_count s) (writers_count s) (writers_waiting s)"
    by (rule counts_move [OF rw_invD(1) [OF assms(1)]]) (use assms(2) in auto)
  then have "rw_inv ((rw_thread s)(t := R_sleep)) (readers_count s) (writers_count s) (writers_waiting s)"
    using rw_invD(2,3) [OF assms(1)] True by (intro rw_invI) simp_all
  then show ?thesis using True by (simp add: ReaderLock_enter_def at_rw_def)
next
  case False
  then have w: "writers_count s = 0" by simp
  have "counts ((rw_thread s)(t := R_hold)) (readers_count s + 1) (writers_count s) (writers_waiting s)"
    by (rule counts_move [OF rw_invD(1) [OF assms(1)]]) (use assms(2) in auto)
  moreover have "0 < writers_count s" if "((rw_thread s)(t := R_hold)) u = R_sleep" for u
    using that rw_invD(4) [OF assms(1), of u] by (auto split: if_splits)
  ultimately have "rw_inv ((rw_thread s)(t := R_hold)) (readers_count s + 1) (writers_count s) (writers_waiting s)"
    using w by (intro rw_invI) simp_all
  then show ?thesis using False by (simp add: ReaderLock_enter_def at_rw_def)
qed

text \<open>A writer that has been counted as waiting runs the loop; \<open>c\<close>: he was asleep and woken, or has just come.\<close>

lemma enter_writer:
  assumes "counts (th(t := W_woken)) r w q" and "w \<le> 1" and "0 < w \<Longrightarrow> r = 0" and "\<And>u. th u = R_sleep \<Longrightarrow> 0 < w" and "th t \<noteq> R_sleep"
    and s: "readers_count s = r" "writers_count s = w" "writers_waiting s = q" "rw_thread s = th"
  shows "rw_ok (WriterLock_enter t s)"
proof (cases "0 < r \<or> 0 < w")
  case True
  have "counts ((th(t := W_woken))(t := W_sleep)) r w q" by (rule counts_move [OF assms(1)]) auto
  moreover have "0 < w" if "(th(t := W_sleep)) u = R_sleep" for u using that assms(4) [of u] by (auto split: if_splits)
  ultimately have "rw_inv (th(t := W_sleep)) r w q" using assms(2,3) True by (intro rw_invI) auto
  then show ?thesis using True s by (simp add: WriterLock_enter_def at_rw_def)
next
  case False
  then have z: "r = 0" "w = 0" by simp_all
  have q: "0 < q" using counts_pos(3) [OF assms(1), of t] by simp
  have "counts ((th(t := W_woken))(t := W_hold)) r (w + 1) (q - 1)" by (rule counts_move [OF assms(1)]) (use q in auto)
  then have "rw_inv (th(t := W_hold)) r (w + 1) (q - 1)" using z by (intro rw_invI) auto
  then show ?thesis using False s z by (simp add: WriterLock_enter_def at_rw_def)
qed

lemma WriterLock_ok:
  assumes "rw_ok s" and "rw_thread s t = RW_idle"
  shows "rw_ok (WriterLock t s)"
  unfolding WriterLock_def
proof (rule enter_writer)
  show "counts ((rw_thread s)(t := W_woken)) (readers_count s) (writers_count s) (writers_waiting s + 1)"
    by (rule counts_move [OF rw_invD(1) [OF assms(1)]]) (use assms(2) in auto)
qed (use assms rw_invD(2-4) [OF assms(1)] in simp_all)

lemma writer_wakes_ok:
  assumes "rw_ok s" and "rw_thread s t = W_woken"
  shows "rw_ok (WriterLock_enter t s)"
proof (rule enter_writer)
  have "(rw_thread s)(t := W_woken) = rw_thread s" using assms(2) by (metis fun_upd_triv)
  then show "counts ((rw_thread s)(t := W_woken)) (readers_count s) (writers_count s) (writers_waiting s)"
    using rw_invD(1) [OF assms(1)] by simp
qed (use assms rw_invD(2-4) [OF assms(1)] in simp_all)

text \<open>Unlocking: what \<open>notify_one\<close> leaves.\<close>

lemma notify_counts:
  assumes "counts th r w q" and "\<And>v. pick = Some v \<Longrightarrow> th v = W_sleep"
  shows "counts (case pick of None \<Rightarrow> th | Some v \<Rightarrow> th(v := W_woken)) r w q"
proof (cases pick)
  case (Some v)
  have "counts (th(v := W_woken)) r w q" by (rule counts_move [OF assms(1)]) (use assms(2) [OF Some] in auto)
  then show ?thesis using Some by simp
qed (use assms(1) in simp)

lemma ReaderUnlock_ok:
  assumes "rw_ok s" and "rw_thread s t = R_hold" and "can_pick pick s"
  shows "rw_ok (ReaderUnlock pick t s)"
proof -
  let ?th = "rw_thread s" and ?r = "readers_count s" and ?w = "writers_count s" and ?q = "writers_waiting s"
  note c = rw_invD(1) [OF assms(1)]
  have r: "0 < ?r" "?w = 0" using counts_pos(1) [OF c, of t] rw_invD(3) [OF assms(1)] assms(2) by auto
  have c1: "counts (?th(t := RW_idle)) (?r - 1) ?w ?q" by (rule counts_move [OF c]) (use assms(2) r in auto)
  have nr: "?th u \<noteq> R_sleep" for u using rw_invD(4) [OF assms(1), of u] r(2) by auto
  show ?thesis
  proof (cases "?r - 1 = 0 \<and> 0 < ?q")
    case True
    have vt: "v \<noteq> t" if "pick = Some v" for v using that assms(2,3) by (auto simp: can_pick_def)
    have "counts (case pick of None \<Rightarrow> ?th(t := RW_idle) | Some v \<Rightarrow> (?th(t := RW_idle))(v := W_woken)) (?r - 1) ?w ?q"
      by (rule notify_counts [OF c1]) (use vt assms(3) in \<open>auto simp: can_pick_def\<close>)
    moreover have e: "(case pick of None \<Rightarrow> ?th(t := RW_idle) | Some v \<Rightarrow> (?th(t := RW_idle))(v := W_woken)) = rw_thread (ReaderUnlock pick t s)"
      using True vt by (cases pick) (auto simp: ReaderUnlock_def Let_def notify_writer_def at_rw_def)
    ultimately have "counts (rw_thread (ReaderUnlock pick t s)) (?r - 1) ?w ?q" by simp
    moreover have "\<exists>u. rw_thread (ReaderUnlock pick t s) u = W_woken" if "rw_thread (ReaderUnlock pick t s) u = W_sleep" for u
    proof (cases pick)
      case None
      then have "?th u = W_sleep" using that unfolding e [symmetric] by (auto split: if_splits)
      then show ?thesis using assms(3) None by (simp add: can_pick_def)
    next
      case (Some v)
      then show ?thesis unfolding e [symmetric] by (intro exI [of _ v]) simp
    qed
    moreover have "rw_thread (ReaderUnlock pick t s) u \<noteq> R_sleep" for u using nr [of u] unfolding e [symmetric] by (auto split: option.splits)
    ultimately have "rw_inv (rw_thread (ReaderUnlock pick t s)) (?r - 1) ?w ?q" using r(2) by (intro rw_invI) auto
    moreover have "readers_count (ReaderUnlock pick t s) = ?r - 1" "writers_count (ReaderUnlock pick t s) = ?w" "writers_waiting (ReaderUnlock pick t s) = ?q"
      by (auto simp: ReaderUnlock_def Let_def notify_writer_def at_rw_def split: option.splits)
    ultimately show ?thesis by simp
  next
    case False
    have "\<exists>v. (?th(t := RW_idle)) v = W_woken" if "(?th(t := RW_idle)) u = W_sleep" "?r - 1 = 0" for u
      using that False counts_pos(3) [OF c, of u] by (auto split: if_splits)
    then have "rw_inv (?th(t := RW_idle)) (?r - 1) ?w ?q" using c1 nr r(2) by (intro rw_invI) (auto split: if_splits)
    then show ?thesis using False by (auto simp: ReaderUnlock_def Let_def at_rw_def)
  qed
qed

lemma WriterUnlock_ok:
  assumes "rw_ok s" and "rw_thread s t = W_hold" and "can_pick pick s"
  shows "rw_ok (WriterUnlock pick t s)"
proof -
  let ?th = "rw_thread s" and ?r = "readers_count s" and ?w = "writers_count s" and ?q = "writers_waiting s"
  let ?s = "WriterUnlock pick t s"
  note c = rw_invD(1) [OF assms(1)]
  have w: "?w = 1" "?r = 0" using counts_pos(2) [OF c, of t] rw_invD(2,3) [OF assms(1)] assms(2) by auto
  have c1: "counts (?th(t := RW_idle)) ?r (?w - 1) ?q" by (rule counts_move [OF c]) (use assms(2) w in auto)
  have vt: "v \<noteq> t \<and> ?th v = W_sleep" if "pick = Some v" for v using that assms(2,3) by (auto simp: can_pick_def)
  define p where "p = (if 0 < ?q then pick else None)"
  have c2: "counts (case p of None \<Rightarrow> ?th(t := RW_idle) | Some v \<Rightarrow> (?th(t := RW_idle))(v := W_woken)) ?r (?w - 1) ?q"
    by (rule notify_counts [OF c1]) (use vt in \<open>auto simp: p_def split: if_splits\<close>)
  have e: "rw_thread ?s u = (if u = t then RW_idle else if p = Some u then W_woken else if ?th u = R_sleep then R_woken else ?th u)" for u
    using vt by (cases pick) (auto simp: WriterUnlock_def Let_def notify_writer_def wake_readers_def at_rw_def p_def)
  have "rw_thread ?s = (\<lambda>u. if (case p of None \<Rightarrow> ?th(t := RW_idle) | Some v \<Rightarrow> (?th(t := RW_idle))(v := W_woken)) u = R_sleep then R_woken
      else (case p of None \<Rightarrow> ?th(t := RW_idle) | Some v \<Rightarrow> (?th(t := RW_idle))(v := W_woken)) u)"
    using vt by (auto simp: fun_eq_iff e p_def split: option.splits if_splits)
  then have "counts (rw_thread ?s) ?r (?w - 1) ?q" using counts_wake [OF c2] by simp
  moreover have "rw_thread ?s u \<noteq> R_sleep" for u by (simp add: e)
  moreover have "\<exists>u. rw_thread ?s u = W_woken" if "rw_thread ?s u = W_sleep" for u
  proof -
    have u: "?th u = W_sleep" using that by (auto simp: e split: if_splits)
    then have "0 < ?q" using counts_pos(3) [OF c, of u] by simp
    moreover have "pick \<noteq> None" using assms(3) u by (auto simp: can_pick_def split: option.splits)
    ultimately obtain v where "p = Some v" "v \<noteq> t" using vt by (auto simp: p_def)
    then show ?thesis by (intro exI [of _ v]) (simp add: e)
  qed
  ultimately have "rw_inv (rw_thread ?s) ?r (?w - 1) ?q" using w by (intro rw_invI) auto
  moreover have "readers_count ?s = ?r" "writers_count ?s = ?w - 1" "writers_waiting ?s = ?q"
    by (auto simp: WriterUnlock_def Let_def notify_writer_def wake_readers_def at_rw_def split: option.splits)
  ultimately show ?thesis by simp
qed

lemma spurious_ok:
  assumes "rw_ok s" and "rw_thread s t = R_sleep \<and> x = R_woken \<or> rw_thread s t = W_sleep \<and> x = W_woken"
  shows "rw_ok (at_rw t x s)"
proof -
  have "counts ((rw_thread s)(t := x)) (readers_count s) (writers_count s) (writers_waiting s)"
    by (rule counts_move [OF rw_invD(1) [OF assms(1)]]) (use assms(2) in auto)
  moreover have "0 < writers_count s" if "((rw_thread s)(t := x)) u = R_sleep" for u
    using that rw_invD(4) [OF assms(1), of u] assms(2) by (auto split: if_splits)
  moreover have "\<exists>v. ((rw_thread s)(t := x)) v = W_woken" if h: "((rw_thread s)(t := x)) u = W_sleep" "readers_count s = 0" "writers_count s = 0" for u
  proof (cases "x = W_woken")
    case True
    then show ?thesis by (intro exI [of _ t]) simp
  next
    case False
    then have x: "x = R_woken" "rw_thread s t = R_sleep" using assms(2) by auto
    then have "rw_thread s u = W_sleep" using h(1) by (auto split: if_splits)
    then obtain v where "rw_thread s v = W_woken" using rw_invD(5) [OF assms(1) _ h(2,3)] by blast
    then show ?thesis using x by (intro exI [of _ v]) auto
  qed
  ultimately have "rw_inv ((rw_thread s)(t := x)) (readers_count s) (writers_count s) (writers_waiting s)"
    using rw_invD(2,3) [OF assms(1)] by (intro rw_invI) blast+
  then show ?thesis by (simp add: at_rw_def)
qed

lemma rw_step_ok: "rw_step s s' \<Longrightarrow> rw_ok s \<Longrightarrow> rw_ok s'"
  by (induction rule: rw_step.induct)
     (simp_all add: enter_reader ReaderUnlock_ok WriterLock_ok writer_wakes_ok WriterUnlock_ok spurious_ok)

lemma rw_reach_ok: "rw_step\<^sup>*\<^sup>* rw_new s \<Longrightarrow> rw_ok s"
proof (induction rule: rtranclp_induct)
  case base
  show ?case by (simp add: rw_new_def rw_inv_def counts_def who_def)
qed (rule rw_step_ok)

text \<open>C9: In every run of the reader-writer lock a writer that holds it holds it alone; the counters are the numbers of readers and
  writers holding it and of writers waiting, so they never wrap; and no wakeup is lost: whenever some thread is asleep, another one holds the
  lock or has been woken and not yet run, and if nobody holds it such a woken thread gets it with its next step.
\<close>

theorem rw_lock_safe:
  assumes "rw_step\<^sup>*\<^sup>* rw_new s"
  shows "(\<forall>t u. rw_thread s t = W_hold \<and> rw_thread s u \<in> {R_hold, W_hold} \<longrightarrow> u = t) \<and>
    readers_count s = card {t. rw_thread s t = R_hold} \<and> writers_count s = card {t. rw_thread s t = W_hold} \<and>
    writers_waiting s = card {t. rw_thread s t = W_sleep \<or> rw_thread s t = W_woken} \<and>
    (\<forall>t. rw_thread s t \<in> {R_sleep, W_sleep} \<longrightarrow> (\<forall>u. rw_thread s u \<notin> {R_hold, W_hold}) \<longrightarrow>
       (\<exists>w. rw_thread s w = W_woken \<and> rw_thread (WriterLock_enter w s) w = W_hold)) \<and>
    (\<forall>t. rw_thread s t = R_woken \<longrightarrow> (\<forall>u. rw_thread s u \<noteq> W_hold) \<longrightarrow> rw_thread (ReaderLock_enter t s) t = R_hold)"
proof -
  note ok = rw_reach_ok [OF assms]
  note c = rw_invD(1) [OF ok]
  have fin: "finite (who {W_hold} (rw_thread s))" using c who_finite by (auto simp: counts_def)
  have alone: "u = t" if "rw_thread s t = W_hold" "rw_thread s u \<in> {R_hold, W_hold}" for t u
  proof -
    have w: "0 < writers_count s" using counts_pos(2) [OF c that(1)] .
    then have "rw_thread s u \<noteq> R_hold" using rw_invD(3) [OF ok] counts_pos(1) [OF c, of u] by auto
    then have "u \<in> who {W_hold} (rw_thread s)" "t \<in> who {W_hold} (rw_thread s)" using that by (auto simp: who_def)
    moreover have "card (who {W_hold} (rw_thread s)) \<le> 1" using c rw_invD(2) [OF ok] by (simp add: counts_def)
    ultimately show ?thesis using card_le_Suc0_iff_eq [OF fin] by auto
  qed
  have free: "readers_count s = 0 \<and> writers_count s = 0" if "\<forall>u. rw_thread s u \<notin> {R_hold, W_hold}"
    using counts_ex(1,2) [OF c] that by auto
  have asleep: "\<exists>w. rw_thread s w = W_woken \<and> rw_thread (WriterLock_enter w s) w = W_hold"
    if "rw_thread s t \<in> {R_sleep, W_sleep}" "\<forall>u. rw_thread s u \<notin> {R_hold, W_hold}" for t
  proof -
    note z = free [OF that(2)]
    have "rw_thread s t = W_sleep" using that(1) rw_invD(4) [OF ok, of t] z by auto
    then obtain w where "rw_thread s w = W_woken" using rw_invD(5) [OF ok] z by blast
    then show ?thesis using z by (intro exI [of _ w]) (simp add: WriterLock_enter_def at_rw_def)
  qed
  have woken: "rw_thread (ReaderLock_enter t s) t = R_hold" if "\<forall>u. rw_thread s u \<noteq> W_hold" for t
    using counts_ex(2) [OF c] that by (simp add: ReaderLock_enter_def at_rw_def)
  have n: "readers_count s = card {t. rw_thread s t = R_hold}" "writers_count s = card {t. rw_thread s t = W_hold}"
    "writers_waiting s = card {t. rw_thread s t = W_sleep \<or> rw_thread s t = W_woken}" using c by (simp_all add: counts_def who_def)
  show ?thesis using alone n asleep woken by blast
qed

text \<open>A writer asleep behind a reader is woken by the reader's unlock.\<close>

theorem rw_lock_safe_witness:
  "let s = ReaderUnlock (Some 2) 1 (WriterLock 2 (ReaderLock_enter 1 rw_new))
   in rw_thread s 2 = W_woken \<and> writers_waiting s = card {t. rw_thread s t = W_sleep \<or> rw_thread s t = W_woken} \<and> writers_waiting s = 1"
proof -
  let ?a = "ReaderLock_enter 1 rw_new"
  let ?b = "WriterLock 2 ?a"
  let ?s = "ReaderUnlock (Some 2) 1 ?b"
  have "rw_step rw_new ?a" by (rule rw_ReaderLock) (simp add: rw_new_def)
  moreover have "rw_step ?a ?b" by (rule rw_WriterLock) (simp add: rw_new_def ReaderLock_enter_def at_rw_def)
  moreover have "rw_step ?b ?s"
    by (rule rw_ReaderUnlock) (simp_all add: rw_new_def ReaderLock_enter_def WriterLock_def WriterLock_enter_def at_rw_def can_pick_def)
  ultimately have "rw_step\<^sup>*\<^sup>* rw_new ?s" by (meson r_into_rtranclp rtranclp.rtrancl_into_rtrancl)
  note safe = rw_lock_safe [OF this]
  have "rw_thread ?s 2 = W_woken" "writers_waiting ?s = 1"
    by (simp_all add: rw_new_def ReaderLock_enter_def WriterLock_def WriterLock_enter_def ReaderUnlock_def Let_def notify_writer_def at_rw_def)
  moreover have "writers_waiting ?s = card {t. rw_thread ?s t = W_sleep \<or> rw_thread ?s t = W_woken}" using safe by blast
  ultimately show ?thesis unfolding Let_def by blast
qed

end
