(* ===== verification/Conn_Pool.thy ===== *)
theory Conn_Pool
  imports Locked_Channel "HOL-Library.Multiset"
begin

text \<open>
  \<open>ConnectionPool\<close> of \<open>src/pool/ConnectionPool.h\<close>: connections are created on demand up to a maximum, lent to clients and kept in a
  channel when they come back. The channel is used through its contract: a bounded queue with blocked readers, which is what
  \<open>Locked_Channel\<close> proves of the implementation and the lemmas \<open>pool_channel_push\<close>, \<open>pool_channel_try_pop\<close> and \<open>pool_channel_pop\<close> restate here. Clients run concurrently; a step is one
  operation on the channel or on the atomic \<open>count_\<close>. Only a \<open>Get\<close> with a timeout can give up; without a check a connection counts as alive.
\<close>

subsection \<open>The channel of idle connections\<close>

record idle_channel =
  icap :: nat
  idle :: "nat list"           \<comment> \<open>connections waiting in the channel\<close>
  readers :: "nat list"        \<comment> \<open>clients blocked in \<open>channel_ >> connection\<close>, oldest first\<close>

datatype put_result = Put_reader nat | Put_stored | Put_refused

definition ic_TryPush :: "nat \<Rightarrow> idle_channel \<Rightarrow> put_result \<times> idle_channel" where
  "ic_TryPush c ch = (case readers ch of
      r # rs \<Rightarrow> (Put_reader r, ch\<lparr>readers := rs\<rparr>)
    | [] \<Rightarrow> if length (idle ch) < icap ch then (Put_stored, ch\<lparr>idle := idle ch @ [c]\<rparr>) else (Put_refused, ch))"

definition ic_TryPop :: "idle_channel \<Rightarrow> nat option \<times> idle_channel" where
  "ic_TryPop ch = (case idle ch of [] \<Rightarrow> (None, ch) | c # cs \<Rightarrow> (Some c, ch\<lparr>idle := cs\<rparr>))"

definition ic_Pop :: "nat \<Rightarrow> idle_channel \<Rightarrow> nat option \<times> idle_channel" where
  "ic_Pop t ch = (case idle ch of [] \<Rightarrow> (None, ch\<lparr>readers := readers ch @ [t]\<rparr>) | c # cs \<Rightarrow> (Some c, ch\<lparr>idle := cs\<rparr>))"

text \<open>The implementation: the pending values are the idle connections and no writer ever waits.\<close>

definition ic_rep :: "nat chan_state \<Rightarrow> idle_channel \<Rightarrow> bool" where
  "ic_rep s ch \<longleftrightarrow> chan_rep s (idle ch) (readers ch) \<and> \<not> closed (fst s) \<and> unat (chcap (fst s)) = icap ch"

lemma pool_channel_push:
  assumes "ic_rep (c, m) ch" and "buf_ok c" and "fresh p c"
  shows "\<exists>s'. chan_Push x p False (c, m) = (Done (fst (ic_TryPush x ch) \<noteq> Put_refused), s') \<and> chan_rep s' (idle (snd (ic_TryPush x ch))) (readers (snd (ic_TryPush x ch))) \<and>
    (\<forall>r. fst (ic_TryPush x ch) = Put_reader r \<longrightarrow> snd s' r = x)"
proof (cases "readers ch")
  case Nil
  then show ?thesis using assms Push_no_reader [of c m "idle ch" p x False] by (auto simp: ic_rep_def ic_TryPush_def)
next
  case (Cons r rs)
  have "idle ch = []" using assms(1) Cons by (auto simp: ic_rep_def chan_rep_def)
  then show ?thesis using assms Cons Push_to_reader [of c m "idle ch" r rs x p False] by (auto simp: ic_rep_def ic_TryPush_def)
qed

lemma pool_channel_try_pop:
  assumes "ic_rep (c, m) ch" and "buf_ok c" and "fresh p c"
  shows "\<exists>s'. chan_Pop p False (c, m) = (Done (fst (ic_TryPop ch) \<noteq> None), s') \<and> chan_rep s' (idle (snd (ic_TryPop ch))) (readers (snd (ic_TryPop ch))) \<and>
    (\<forall>x. fst (ic_TryPop ch) = Some x \<longrightarrow> snd s' p = x)"
proof (cases "idle ch")
  case Nil
  then show ?thesis using assms Pop_empty [of c m "readers ch" p False] by (auto simp: ic_rep_def ic_TryPop_def)
next
  case (Cons x xs)
  have "readers ch = []" using assms(1) Cons by (auto simp: ic_rep_def chan_rep_def)
  then show ?thesis using assms Cons Pop_pending [of c m x xs "readers ch" p False] by (auto simp: ic_rep_def ic_TryPop_def)
qed

lemma pool_channel_pop:
  assumes "ic_rep (c, m) ch" and "buf_ok c" and "fresh p c"
  shows "\<exists>s'. chan_Pop p True (c, m) = (if fst (ic_Pop p ch) = None then Blocked else Done True, s') \<and>
    chan_rep s' (idle (snd (ic_Pop p ch))) (readers (snd (ic_Pop p ch))) \<and> (\<forall>x. fst (ic_Pop p ch) = Some x \<longrightarrow> snd s' p = x)"
proof (cases "idle ch")
  case Nil
  then show ?thesis using assms Pop_empty [of c m "readers ch" p True] by (auto simp: ic_rep_def ic_Pop_def)
next
  case (Cons x xs)
  have "readers ch = []" using assms(1) Cons by (auto simp: ic_rep_def chan_rep_def)
  then show ?thesis using assms Cons Pop_pending [of c m x xs "readers ch" p True] by (auto simp: ic_rep_def ic_Pop_def)
qed

subsection \<open>The pool and its clients\<close>

text \<open>Where a client stands: in \<open>Get\<close>, holding a connection, or in \<open>Reserve\<close> with the index of its loop.\<close>

datatype client =
    C_idle | C_try | C_inc | C_make | C_dec | C_wait | C_blocked | C_got nat | C_held nat
  | R_inc nat | R_make nat | R_dec | R_push nat nat

record conn_pool =
  count :: nat
  maxConnection :: nat
  chan :: idle_channel
  clients :: "client list"
  made :: "nat list"           \<comment> \<open>connections the factory has returned so far\<close>
  deleted :: "nat list"        \<comment> \<open>connections given to the deleter so far\<close>
  lost :: nat                  \<comment> \<open>how often the factory returned null\<close>

definition ConnectionPool_new :: "nat \<Rightarrow> nat \<Rightarrow> nat \<Rightarrow> conn_pool" where
  "ConnectionPool_new n maxc maxidle =
     \<lparr>count = 0, maxConnection = maxc, chan = \<lparr>icap = if maxidle = 0 then maxc else maxidle, idle = [], readers = []\<rparr>,
      clients = replicate n C_idle, made = [], deleted = [], lost = 0\<rparr>"

definition go_to :: "nat \<Rightarrow> client \<Rightarrow> conn_pool \<Rightarrow> conn_pool" where
  "go_to t x p = p\<lparr>clients := (clients p)[t := x]\<rparr>"

definition pool_Delete :: "nat \<Rightarrow> conn_pool \<Rightarrow> conn_pool" where
  "pool_Delete c p = p\<lparr>count := count p - 1, deleted := deleted p @ [c]\<rparr>"

definition pool_Put :: "nat \<Rightarrow> conn_pool \<Rightarrow> conn_pool" where
  "pool_Put c p = (case ic_TryPush c (chan p) of
      (Put_reader r, ch) \<Rightarrow> go_to r (C_got c) (p\<lparr>chan := ch\<rparr>)
    | (Put_stored, ch) \<Rightarrow> p\<lparr>chan := ch\<rparr>
    | (Put_refused, ch) \<Rightarrow> pool_Delete c p)"

text \<open>\<open>checkAliveOnGet\<close>; a dead connection is deleted and \<open>Get\<close> starts over.\<close>

definition pool_check :: "bool \<Rightarrow> nat \<Rightarrow> nat \<Rightarrow> conn_pool \<Rightarrow> conn_pool" where
  "pool_check alive t c p = (if alive then go_to t (C_held c) p else go_to t C_try (pool_Delete c p))"

definition pool_try :: "bool \<Rightarrow> nat \<Rightarrow> conn_pool \<Rightarrow> conn_pool" where
  "pool_try alive t p = (case ic_TryPop (chan p) of
      (Some c, ch) \<Rightarrow> pool_check alive t c (p\<lparr>chan := ch\<rparr>)
    | (None, ch) \<Rightarrow> go_to t C_inc p)"

text \<open>\<open>CreateOne\<close>: \<open>++count_ > maxConnection_\<close>, then \<open>--count_\<close> or the factory; \<open>yes\<close> and \<open>no\<close> are where the two cases go on.\<close>

definition CreateOne_inc :: "client \<Rightarrow> client \<Rightarrow> nat \<Rightarrow> conn_pool \<Rightarrow> conn_pool" where
  "CreateOne_inc yes no t p =
     (let p1 = p\<lparr>count := count p + 1\<rparr> in go_to t (if maxConnection p < count p1 then no else yes) p1)"

definition CreateOne_dec :: "client \<Rightarrow> nat \<Rightarrow> conn_pool \<Rightarrow> conn_pool" where
  "CreateOne_dec k t p = go_to t k (p\<lparr>count := count p - 1\<rparr>)"

definition CreateOne_make :: "nat option \<Rightarrow> (nat \<Rightarrow> client) \<Rightarrow> client \<Rightarrow> nat \<Rightarrow> conn_pool \<Rightarrow> conn_pool" where
  "CreateOne_make new yes no t p = (case new of
      Some c \<Rightarrow> go_to t (yes c) (p\<lparr>made := made p @ [c]\<rparr>)
    | None \<Rightarrow> go_to t no (p\<lparr>lost := lost p + 1\<rparr>))"

definition pool_wait :: "nat \<Rightarrow> conn_pool \<Rightarrow> conn_pool" where
  "pool_wait t p = (case ic_Pop t (chan p) of
      (Some c, ch) \<Rightarrow> go_to t (C_got c) (p\<lparr>chan := ch\<rparr>)
    | (None, ch) \<Rightarrow> go_to t C_blocked (p\<lparr>chan := ch\<rparr>))"

text \<open>The deleter of the pointer that \<open>Out\<close> returns.\<close>

definition pool_return :: "bool \<Rightarrow> nat \<Rightarrow> nat \<Rightarrow> conn_pool \<Rightarrow> conn_pool" where
  "pool_return alive t c p = (let p1 = go_to t C_idle p in if alive then pool_Put c p1 else pool_Delete c p1)"

definition pool_reserve_push :: "nat \<Rightarrow> nat \<Rightarrow> nat \<Rightarrow> conn_pool \<Rightarrow> conn_pool" where
  "pool_reserve_push t i c p = (case ic_TryPush c (chan p) of
      (Put_reader r, ch) \<Rightarrow> go_to t (R_inc (i + 1)) (go_to r (C_got c) (p\<lparr>chan := ch\<rparr>))
    | (Put_stored, ch) \<Rightarrow> go_to t (R_inc (i + 1)) (p\<lparr>chan := ch\<rparr>)
    | (Put_refused, ch) \<Rightarrow> go_to t C_idle (pool_Delete c p))"

definition client_at :: "nat \<Rightarrow> client \<Rightarrow> conn_pool \<Rightarrow> bool" where
  "client_at t x p \<longleftrightarrow> t < length (clients p) \<and> clients p ! t = x"

inductive conn_step :: "conn_pool \<Rightarrow> conn_pool \<Rightarrow> bool" where
  ps_Get: "client_at t C_idle p \<Longrightarrow> conn_step p (go_to t C_try p)"
| ps_try: "client_at t C_try p \<Longrightarrow> conn_step p (pool_try alive t p)"
| ps_inc: "client_at t C_inc p \<Longrightarrow> conn_step p (CreateOne_inc C_make C_dec t p)"
| ps_dec: "client_at t C_dec p \<Longrightarrow> conn_step p (CreateOne_dec C_wait t p)"
| ps_make: "client_at t C_make p \<Longrightarrow> conn_step p (CreateOne_make new C_held C_wait t p)"
| ps_wait: "client_at t C_wait p \<Longrightarrow> conn_step p (pool_wait t p)"
| ps_got: "client_at t (C_got c) p \<Longrightarrow> conn_step p (pool_check alive t c p)"
| ps_timeout: "client_at t C_blocked p \<Longrightarrow> conn_step p (go_to t C_idle (p\<lparr>chan := (chan p)\<lparr>readers := removeAll t (readers (chan p))\<rparr>\<rparr>))"
| ps_return: "client_at t (C_held c) p \<Longrightarrow> conn_step p (pool_return alive t c p)"
| ps_Reserve: "client_at t C_idle p \<Longrightarrow> conn_step p (go_to t (R_inc (count p)) p)"
| ps_r_end: "client_at t (R_inc i) p \<Longrightarrow> \<not> i < icap (chan p) \<Longrightarrow> conn_step p (go_to t C_idle p)"
| ps_r_inc: "client_at t (R_inc i) p \<Longrightarrow> i < icap (chan p) \<Longrightarrow> conn_step p (CreateOne_inc (R_make i) R_dec t p)"
| ps_r_dec: "client_at t R_dec p \<Longrightarrow> conn_step p (CreateOne_dec C_idle t p)"
| ps_r_make: "client_at t (R_make i) p \<Longrightarrow> conn_step p (CreateOne_make new (R_push i) C_idle t p)"
| ps_r_push: "client_at t (R_push i c) p \<Longrightarrow> conn_step p (pool_reserve_push t i c p)"

subsection \<open>The books\<close>

fun own :: "client \<Rightarrow> nat multiset" where
  "own (C_got c) = {#c#}" | "own (C_held c) = {#c#}" | "own (R_push i c) = {#c#}" | "own _ = {#}"

fun making :: "client \<Rightarrow> nat" where
  "making C_make = 1" | "making (R_make i) = 1" | "making _ = 0"

fun taking_back :: "client \<Rightarrow> nat" where
  "taking_back C_dec = 1" | "taking_back R_dec = 1" | "taking_back _ = 0"

abbreviation total :: "(client \<Rightarrow> 'b :: comm_monoid_add) \<Rightarrow> conn_pool \<Rightarrow> 'b" where
  "total f p \<equiv> sum_list (map f (clients p))"

lemma total_go_to:
  fixes f :: "client \<Rightarrow> 'b :: cancel_comm_monoid_add"
  assumes "t < length (clients p)"
  shows "total f (go_to t x p) + f (clients p ! t) = total f p + f x"
  using sum_list_moved [OF assms] by (simp add: go_to_def)

text \<open>\<open>E\<close>: connections in the hands of the running operation.\<close>

definition channel_ok :: "conn_pool \<Rightarrow> bool" where
  "channel_ok p \<longleftrightarrow> length (idle (chan p)) \<le> icap (chan p) \<and> (readers (chan p) \<noteq> [] \<longrightarrow> idle (chan p) = []) \<and> distinct (readers (chan p)) \<and>
     (\<forall>t. t \<in> set (readers (chan p)) \<longleftrightarrow> client_at t C_blocked p)"

definition books :: "nat multiset \<Rightarrow> conn_pool \<Rightarrow> bool" where
  "books E p \<longleftrightarrow> count p = length (idle (chan p)) + size (total own p) + size E + total making p + total taking_back p + lost p \<and>
     mset (made p) = mset (deleted p) + mset (idle (chan p)) + total own p + E \<and>
     length (idle (chan p)) + size (total own p) + size E + total making p \<le> maxConnection p"

definition conn_inv :: "nat multiset \<Rightarrow> conn_pool \<Rightarrow> bool" where
  "conn_inv E p \<longleftrightarrow> books E p \<and> channel_ok p"

lemma go_to_sel [simp]:
  "count (go_to t x p) = count p" "maxConnection (go_to t x p) = maxConnection p" "chan (go_to t x p) = chan p" "made (go_to t x p) = made p"
  "deleted (go_to t x p) = deleted p" "lost (go_to t x p) = lost p" "clients (go_to t x p) = (clients p)[t := x]"
  by (simp_all add: go_to_def)

lemma books_move:
  assumes "books E p" and "client_at t x p" and "E' + own y = E + own x" and "making x = making y" and "taking_back x = taking_back y"
  shows "books E' (go_to t y p)"
proof -
  have l: "t < length (clients p)" "clients p ! t = x" using assms(2) by (simp_all add: client_at_def)
  have m: "total making (go_to t y p) = total making p" "total taking_back (go_to t y p) = total taking_back p"
    using total_go_to [OF l(1), of making y] total_go_to [OF l(1), of taking_back y] l(2) assms(4,5) by simp_all
  have o: "total own (go_to t y p) + own x = total own p + own y" using total_go_to [OF l(1), of own y] l(2) by simp
  define T T' where "T = total own p" and "T' = total own (go_to t y p)"
  have "T' + own x + (E' + own y) = T + own y + (E + own x)" unfolding T_def T'_def o assms(3) by (rule refl)
  then have "T' + E' + (own x + own y) = T + E + (own x + own y)" by (simp only: ac_simps)
  then have oe: "total own (go_to t y p) + E' = total own p + E" unfolding T_def T'_def by (rule add_right_imp_eq)
  then have "size (total own (go_to t y p)) + size E' = size (total own p) + size E" by (metis size_union)
  then show ?thesis using assms(1) m oe unfolding books_def by (simp add: add.assoc)
qed

lemma channel_ok_move: "channel_ok p \<Longrightarrow> client_at t x p \<Longrightarrow> x \<noteq> C_blocked \<Longrightarrow> y \<noteq> C_blocked \<Longrightarrow> channel_ok (go_to t y p)"
  by (auto simp: channel_ok_def client_at_def nth_list_update split: if_splits)

lemma inv_move:
  assumes "conn_inv E p" and "client_at t x p" and "E' + own y = E + own x" and "making x = making y" and "taking_back x = taking_back y"
    and "x \<noteq> C_blocked" and "y \<noteq> C_blocked"
  shows "conn_inv E' (go_to t y p)"
  using assms books_move [OF _ assms(2-5)] channel_ok_move [OF _ assms(2,6,7)] by (simp add: conn_inv_def)

lemma inv_Delete: "conn_inv (E + {#c#}) p \<Longrightarrow> conn_inv E (pool_Delete c p)"
  by (auto simp: conn_inv_def books_def channel_ok_def pool_Delete_def client_at_def)

lemma inv_Put:
  assumes "conn_inv (E + {#c#}) p"
  shows "conn_inv E (pool_Put c p)"
proof (cases "readers (chan p)")
  case (Cons r rs)
  have ok: "channel_ok p" and bk: "books (E + {#c#}) p" using assms by (simp_all add: conn_inv_def)
  have i: "idle (chan p) = []" and r: "client_at r C_blocked p" and rn: "r \<notin> set rs" using ok Cons by (auto simp: channel_ok_def)
  define q where "q = p\<lparr>chan := (chan p)\<lparr>readers := rs\<rparr>\<rparr>"
  have "books (E + {#c#}) q" using bk by (simp add: books_def q_def)
  moreover have "client_at r C_blocked q" using r by (simp add: client_at_def q_def)
  ultimately have "books E (go_to r (C_got c) q)" by (rule books_move) simp_all
  moreover have "channel_ok (go_to r (C_got c) q)"
  proof -
    have "u \<in> set rs \<longleftrightarrow> client_at u C_blocked (go_to r (C_got c) q)" for u
    proof (cases "u = r")
      case True
      then show ?thesis using rn by (simp add: client_at_def)
    next
      case False
      have "u \<in> set (readers (chan p)) \<longleftrightarrow> client_at u C_blocked p" using ok by (simp add: channel_ok_def)
      then show ?thesis using False Cons by (simp add: client_at_def q_def)
    qed
    moreover have "distinct rs" using ok Cons by (simp add: channel_ok_def)
    ultimately show ?thesis using i by (simp add: channel_ok_def q_def)
  qed
  ultimately show ?thesis using Cons by (simp add: pool_Put_def ic_TryPush_def conn_inv_def q_def)
next
  case Nil
  show ?thesis
  proof (cases "length (idle (chan p)) < icap (chan p)")
    case True
    then show ?thesis using assms Nil by (auto simp: pool_Put_def ic_TryPush_def conn_inv_def books_def channel_ok_def client_at_def)
  next
    case False
    then show ?thesis using inv_Delete [OF assms] Nil by (simp add: pool_Put_def ic_TryPush_def)
  qed
qed

lemma inv_check:
  assumes "conn_inv E p" and "client_at t x p" and "own x + E = {#c#} + E'" and "making x = 0" and "taking_back x = 0" and "x \<noteq> C_blocked"
  shows "conn_inv E' (pool_check alive t c p)"
proof (cases alive)
  case True
  have "conn_inv E' (go_to t (C_held c) p)" by (rule inv_move [OF assms(1,2)]) (use assms(3-6) in \<open>simp_all add: ac_simps\<close>)
  then show ?thesis using True by (simp add: pool_check_def)
next
  case False
  have "conn_inv (E' + {#c#}) (go_to t C_try p)" by (rule inv_move [OF assms(1,2)]) (use assms(3-6) in \<open>simp_all add: ac_simps\<close>)
  from inv_Delete [OF this] have "conn_inv E' (pool_Delete c (go_to t C_try p))" .
  moreover have "pool_Delete c (go_to t C_try p) = go_to t C_try (pool_Delete c p)" by (simp add: pool_Delete_def go_to_def)
  ultimately show ?thesis using False by (simp add: pool_check_def)
qed

lemma inv_take_idle:
  assumes "conn_inv {#} p" and "idle (chan p) = c # cs"
  shows "conn_inv {#c#} (p\<lparr>chan := (chan p)\<lparr>idle := cs\<rparr>\<rparr>)"
proof -
  have b: "books {#} p" and k: "channel_ok p" using assms(1) by (simp_all add: conn_inv_def)
  have "books {#c#} (p\<lparr>chan := (chan p)\<lparr>idle := cs\<rparr>\<rparr>)" using b unfolding books_def by (simp add: assms(2))
  moreover have "readers (chan p) = []" using k assms(2) by (auto simp: channel_ok_def)
  then have "channel_ok (p\<lparr>chan := (chan p)\<lparr>idle := cs\<rparr>\<rparr>)" using k unfolding channel_ok_def by (simp add: assms(2) client_at_def)
  ultimately show ?thesis by (simp add: conn_inv_def)
qed

lemma inv_try: "conn_inv {#} p \<Longrightarrow> client_at t C_try p \<Longrightarrow> conn_inv {#} (pool_try alive t p)"
proof (cases "idle (chan p)")
  case Nil
  assume a: "conn_inv {#} p" "client_at t C_try p"
  have "conn_inv {#} (go_to t C_inc p)" by (rule inv_move [OF a]) simp_all
  then show ?thesis using Nil by (simp add: pool_try_def ic_TryPop_def)
next
  case (Cons c cs)
  assume a: "conn_inv {#} p" "client_at t C_try p"
  have "client_at t C_try (p\<lparr>chan := (chan p)\<lparr>idle := cs\<rparr>\<rparr>)" using a(2) by (simp add: client_at_def)
  from inv_check [OF inv_take_idle [OF a(1) Cons] this, of c "{#}" alive] show ?thesis using Cons by (simp add: pool_try_def ic_TryPop_def)
qed

text \<open>The steps of \<open>CreateOne\<close>.\<close>

lemma inv_inc:
  assumes "conn_inv {#} p" and "client_at t x p" and "own x = {#}" "making x = 0" "taking_back x = 0" "x \<noteq> C_blocked"
    and "own y = {#}" "making y = 1" "taking_back y = 0" "y \<noteq> C_blocked" and "own n = {#}" "making n = 0" "taking_back n = 1" "n \<noteq> C_blocked"
  shows "conn_inv {#} (CreateOne_inc y n t p)"
proof -
  have l: "t < length (clients p)" "clients p ! t = x" using assms(2) by (simp_all add: client_at_def)
  define p1 where "p1 = p\<lparr>count := count p + 1\<rparr>"
  define z where "z = (if maxConnection p < count p1 then n else y)"
  have l1: "t < length (clients p1)" "clients p1 ! t = x" using l by (simp_all add: p1_def)
  have z: "own z = {#}" "making z + taking_back z = 1" "z \<noteq> C_blocked" "making z = (if maxConnection p < count p + 1 then 0 else 1)"
    using assms by (simp_all add: z_def p1_def)
  have o: "total own (go_to t z p1) = total own p" and m: "total making (go_to t z p1) = total making p + making z"
    and b: "total taking_back (go_to t z p1) = total taking_back p + taking_back z"
    using total_go_to [OF l1(1), of own z] total_go_to [OF l1(1), of making z] total_go_to [OF l1(1), of taking_back z] l1(2) assms(3-5) z(1)
    by (simp_all add: p1_def)
  have bk: "books {#} p" using assms(1) by (simp add: conn_inv_def)
  have "books {#} (go_to t z p1)" using bk z(2,4) unfolding books_def o m b by (auto simp: p1_def split: if_splits)
  moreover have "channel_ok (go_to t z p1)"
  proof (rule channel_ok_move)
    show "channel_ok p1" using assms(1) by (simp add: conn_inv_def channel_ok_def p1_def client_at_def)
    show "client_at t x p1" using l1 by (simp add: client_at_def)
  qed (use assms(6) z(3) in simp_all)
  ultimately show ?thesis by (simp add: CreateOne_inc_def Let_def conn_inv_def p1_def z_def)
qed

lemma inv_dec:
  assumes "conn_inv {#} p" and "client_at t x p" and "own x = {#}" "making x = 0" "taking_back x = 1" "x \<noteq> C_blocked"
    and "own k = {#}" "making k = 0" "taking_back k = 0" "k \<noteq> C_blocked"
  shows "conn_inv {#} (CreateOne_dec k t p)"
proof -
  have l: "t < length (clients p)" "clients p ! t = x" using assms(2) by (simp_all add: client_at_def)
  define p1 where "p1 = p\<lparr>count := count p - 1\<rparr>"
  have l1: "t < length (clients p1)" "clients p1 ! t = x" using l by (simp_all add: p1_def)
  have "total own (go_to t k p1) = total own p" "total making (go_to t k p1) = total making p" "total taking_back (go_to t k p1) + 1 = total taking_back p"
    using total_go_to [OF l1(1), of own k] total_go_to [OF l1(1), of making k] total_go_to [OF l1(1), of taking_back k] l1(2) assms(3-5,7-9)
    by (simp_all add: p1_def)
  then have "books {#} (go_to t k p1)" using assms(1) unfolding conn_inv_def books_def by (auto simp: p1_def)
  moreover have "channel_ok (go_to t k p1)"
  proof (rule channel_ok_move)
    show "channel_ok p1" using assms(1) by (simp add: conn_inv_def channel_ok_def p1_def client_at_def)
    show "client_at t x p1" using l1 by (simp add: client_at_def)
  qed (use assms(6,10) in simp_all)
  ultimately show ?thesis by (simp add: CreateOne_dec_def conn_inv_def p1_def)
qed

lemma inv_make:
  assumes "conn_inv {#} p" and "client_at t x p" and "own x = {#}" "making x = 1" "taking_back x = 0" "x \<noteq> C_blocked"
    and "\<And>c. own (y c) = {#c#} \<and> making (y c) = 0 \<and> taking_back (y c) = 0 \<and> y c \<noteq> C_blocked"
    and "own n = {#}" "making n = 0" "taking_back n = 0" "n \<noteq> C_blocked"
  shows "conn_inv {#} (CreateOne_make new y n t p)"
proof -
  have l: "t < length (clients p)" "clients p ! t = x" using assms(2) by (simp_all add: client_at_def)
  have bk: "books {#} p" and ch: "channel_ok p" using assms(1) by (simp_all add: conn_inv_def)
  have mv: "channel_ok (go_to t z (p\<lparr>made := ms, lost := ls\<rparr>))" if "z \<noteq> C_blocked" for z ms ls
  proof (rule channel_ok_move)
    show "channel_ok (p\<lparr>made := ms, lost := ls\<rparr>)" using ch by (simp add: channel_ok_def client_at_def)
    show "client_at t x (p\<lparr>made := ms, lost := ls\<rparr>)" using assms(2) by (simp add: client_at_def)
  qed (use assms(6) that in simp_all)
  show ?thesis
  proof (cases new)
    case None
    define q where "q = p\<lparr>lost := lost p + 1\<rparr>"
    have l1: "t < length (clients q)" "clients q ! t = x" using l by (simp_all add: q_def)
    have "total own (go_to t n q) = total own p" "total making (go_to t n q) + 1 = total making p" "total taking_back (go_to t n q) = total taking_back p"
      using total_go_to [OF l1(1), of own n] total_go_to [OF l1(1), of making n] total_go_to [OF l1(1), of taking_back n] l1(2) assms(3-5,8-10)
      by (simp_all add: q_def)
    then have "books {#} (go_to t n q)" using bk unfolding books_def by (simp add: q_def)
    then show ?thesis using None mv [where ms = "made p" and ls = "lost p + 1", OF assms(11)] by (simp add: CreateOne_make_def conn_inv_def q_def)
  next
    case (Some c)
    define q where "q = p\<lparr>made := made p @ [c]\<rparr>"
    note y = assms(7) [of c]
    have l1: "t < length (clients q)" "clients q ! t = x" using l by (simp_all add: q_def)
    have "total own (go_to t (y c) q) = total own p + {#c#}" "total making (go_to t (y c) q) + 1 = total making p"
      "total taking_back (go_to t (y c) q) = total taking_back p"
      using total_go_to [OF l1(1), of own "y c"] total_go_to [OF l1(1), of making "y c"] total_go_to [OF l1(1), of taking_back "y c"] l1(2) assms(3-5) y
      by (simp_all add: q_def)
    then have "books {#} (go_to t (y c) q)" using bk unfolding books_def by (simp add: q_def)
    then show ?thesis using Some y mv [where z = "y c" and ms = "made p @ [c]" and ls = "lost p"] by (simp add: CreateOne_make_def conn_inv_def q_def)
  qed
qed

text \<open>Blocking and giving up.\<close>

lemma channel_ok_block:
  assumes "channel_ok p" and "idle (chan p) = []" and "client_at t C_wait p"
  shows "channel_ok (go_to t C_blocked (p\<lparr>chan := (chan p)\<lparr>readers := readers (chan p) @ [t]\<rparr>\<rparr>))"
proof -
  have r: "u \<in> set (readers (chan p)) \<longleftrightarrow> client_at u C_blocked p" for u using assms(1) by (simp add: channel_ok_def)
  have "t \<notin> set (readers (chan p))" using r assms(3) by (simp add: client_at_def)
  moreover have "u \<in> set (readers (chan p) @ [t]) \<longleftrightarrow> client_at u C_blocked (go_to t C_blocked (p\<lparr>chan := (chan p)\<lparr>readers := readers (chan p) @ [t]\<rparr>\<rparr>))" for u
    using r [of u] assms(3) by (cases "u = t") (auto simp: client_at_def)
  moreover have "distinct (readers (chan p))" using assms(1) by (simp add: channel_ok_def)
  ultimately show ?thesis using assms(2) by (simp add: channel_ok_def)
qed

lemma inv_wait:
  assumes "conn_inv {#} p" and "client_at t C_wait p"
  shows "conn_inv {#} (pool_wait t p)"
proof (cases "idle (chan p)")
  case Nil
  define q where "q = p\<lparr>chan := (chan p)\<lparr>readers := readers (chan p) @ [t]\<rparr>\<rparr>"
  have b: "books {#} q" using assms(1) by (simp add: conn_inv_def books_def q_def)
  have "books {#} (go_to t C_blocked q)" by (rule books_move [OF b, of t C_wait]) (use assms(2) in \<open>simp_all add: client_at_def q_def\<close>)
  moreover have "channel_ok (go_to t C_blocked q)" using channel_ok_block [OF _ Nil assms(2)] assms(1) by (simp add: conn_inv_def q_def)
  ultimately show ?thesis using Nil by (simp add: pool_wait_def ic_Pop_def conn_inv_def q_def)
next
  case (Cons c cs)
  note i = inv_take_idle [OF assms(1) Cons]
  have "conn_inv {#} (go_to t (C_got c) (p\<lparr>chan := (chan p)\<lparr>idle := cs\<rparr>\<rparr>))"
    by (rule inv_move [OF i, of t C_wait]) (use assms(2) in \<open>simp_all add: client_at_def\<close>)
  then show ?thesis using Cons by (simp add: pool_wait_def ic_Pop_def)
qed

lemma inv_timeout:
  assumes "conn_inv {#} p" and "client_at t C_blocked p"
  shows "conn_inv {#} (go_to t C_idle (p\<lparr>chan := (chan p)\<lparr>readers := removeAll t (readers (chan p))\<rparr>\<rparr>))"
proof -
  define q where "q = p\<lparr>chan := (chan p)\<lparr>readers := removeAll t (readers (chan p))\<rparr>\<rparr>"
  have b: "books {#} q" using assms(1) by (simp add: conn_inv_def books_def q_def)
  have "books {#} (go_to t C_idle q)" by (rule books_move [OF b, of t C_blocked]) (use assms(2) in \<open>simp_all add: client_at_def q_def\<close>)
  moreover have "channel_ok (go_to t C_idle q)"
  proof -
    have k: "channel_ok p" using assms(1) by (simp add: conn_inv_def)
    then have r: "u \<in> set (readers (chan p)) \<longleftrightarrow> client_at u C_blocked p" for u by (simp add: channel_ok_def)
    have "u \<in> set (removeAll t (readers (chan p))) \<longleftrightarrow> client_at u C_blocked (go_to t C_idle q)" for u
      using r [of u] by (cases "u = t") (auto simp: client_at_def q_def)
    moreover have "readers (chan p) \<noteq> []" using r assms(2) by (metis empty_iff list.set(1))
    then have "idle (chan p) = []" using k by (simp add: channel_ok_def)
    moreover have "distinct (removeAll t (readers (chan p)))" using k by (simp add: channel_ok_def distinct_removeAll)
    ultimately show ?thesis by (simp add: channel_ok_def q_def)
  qed
  ultimately show ?thesis by (simp add: conn_inv_def q_def)
qed

lemma inv_return:
  assumes "conn_inv {#} p" and "client_at t (C_held c) p"
  shows "conn_inv {#} (pool_return alive t c p)"
proof -
  have "conn_inv ({#} + {#c#}) (go_to t C_idle p)" by (rule inv_move [OF assms]) simp_all
  then show ?thesis using inv_Put inv_Delete by (simp add: pool_return_def Let_def)
qed

text \<open>A connection that \<open>Reserve\<close> made goes where a returned one goes.\<close>

lemma reserve_push_Put:
  assumes "channel_ok p" and "client_at t (R_push i c) p"
  shows "\<exists>x. pool_reserve_push t i c p = pool_Put c (go_to t x p) \<and> (x = R_inc (i + 1) \<or> x = C_idle)"
proof (cases "readers (chan p)")
  case (Cons r rs)
  then have "client_at r C_blocked p" using assms(1) by (auto simp: channel_ok_def)
  then have "r \<noteq> t" using assms(2) by (auto simp: client_at_def)
  then have "pool_reserve_push t i c p = pool_Put c (go_to t (R_inc (i + 1)) p)"
    using Cons by (simp add: pool_reserve_push_def pool_Put_def ic_TryPush_def go_to_def list_update_swap)
  then show ?thesis by blast
next
  case Nil
  show ?thesis
  proof (cases "length (idle (chan p)) < icap (chan p)")
    case True
    then have "pool_reserve_push t i c p = pool_Put c (go_to t (R_inc (i + 1)) p)"
      using Nil by (simp add: pool_reserve_push_def pool_Put_def ic_TryPush_def go_to_def)
    then show ?thesis by blast
  next
    case False
    then have "pool_reserve_push t i c p = pool_Put c (go_to t C_idle p)"
      using Nil by (simp add: pool_reserve_push_def pool_Put_def ic_TryPush_def go_to_def pool_Delete_def)
    then show ?thesis by blast
  qed
qed

lemma inv_reserve_push:
  assumes "conn_inv {#} p" and "client_at t (R_push i c) p"
  shows "conn_inv {#} (pool_reserve_push t i c p)"
proof -
  have "channel_ok p" using assms(1) by (simp add: conn_inv_def)
  then obtain x where x: "pool_reserve_push t i c p = pool_Put c (go_to t x p)" "x = R_inc (i + 1) \<or> x = C_idle" using reserve_push_Put [OF _ assms(2)] by blast
  have "conn_inv ({#} + {#c#}) (go_to t x p)" by (rule inv_move [OF assms]) (use x(2) in auto)
  then show ?thesis using inv_Put x(1) by simp
qed

lemma conn_step_inv: "conn_step p p' \<Longrightarrow> conn_inv {#} p \<Longrightarrow> conn_inv {#} p'"
proof (induction rule: conn_step.induct)
  case (ps_Get t p)
  show ?case by (rule inv_move [OF ps_Get(2,1)]) simp_all
next
  case (ps_inc t p)
  show ?case by (rule inv_inc [OF ps_inc(2,1)]) simp_all
next
  case (ps_dec t p)
  show ?case by (rule inv_dec [OF ps_dec(2,1)]) simp_all
next
  case (ps_make t p new)
  show ?case by (rule inv_make [OF ps_make(2,1)]) simp_all
next
  case (ps_got t c p alive)
  show ?case by (rule inv_check [OF ps_got(2,1)]) simp_all
next
  case (ps_Reserve t p)
  show ?case by (rule inv_move [OF ps_Reserve(2,1)]) simp_all
next
  case (ps_r_end t i p)
  show ?case by (rule inv_move [OF ps_r_end(3,1)]) simp_all
next
  case (ps_r_inc t i p)
  show ?case by (rule inv_inc [OF ps_r_inc(3,1)]) simp_all
next
  case (ps_r_dec t p)
  show ?case by (rule inv_dec [OF ps_r_dec(2,1)]) simp_all
next
  case (ps_r_make t i p new)
  show ?case by (rule inv_make [OF ps_r_make(2,1)]) simp_all
qed (simp_all add: inv_try inv_wait inv_timeout inv_return inv_reserve_push)

subsection \<open>Runs\<close>

lemma sum_replicate_zero: "sum_list (replicate n (0 :: 'b :: comm_monoid_add)) = 0"
  by (induction n) auto

lemma conn_reach_inv: "conn_step\<^sup>*\<^sup>* (ConnectionPool_new n maxc maxidle) p \<Longrightarrow> conn_inv {#} p"
proof (induction rule: rtranclp_induct)
  case base
  show ?case by (auto simp: conn_inv_def books_def channel_ok_def client_at_def ConnectionPool_new_def sum_replicate_zero)
qed (rule conn_step_inv)

lemma conn_step_params: "conn_step p p' \<Longrightarrow> maxConnection p' = maxConnection p \<and> icap (chan p') = icap (chan p)"
  by (induction rule: conn_step.induct)
     (auto simp: pool_try_def pool_check_def pool_Delete_def pool_Put_def pool_return_def pool_wait_def pool_reserve_push_def CreateOne_inc_def CreateOne_dec_def
       CreateOne_make_def ic_TryPop_def ic_TryPush_def ic_Pop_def go_to_def Let_def split: list.splits option.splits)

lemma pool_reach_params:
  "conn_step\<^sup>*\<^sup>* (ConnectionPool_new n maxc maxidle) p \<Longrightarrow> maxConnection p = maxc \<and> icap (chan p) = (if maxidle = 0 then maxc else maxidle)"
proof (induction rule: rtranclp_induct)
  case (step q p)
  then show ?case using conn_step_params [of q p] by simp
qed (simp add: ConnectionPool_new_def)

lemma total_member:
  assumes "client_at t x p" shows "own x \<subseteq># total own p"
proof -
  have "total own (go_to t C_idle p) + own x = total own p" using total_go_to [of t p own C_idle] assms by (simp add: client_at_def)
  then show ?thesis by (metis mset_subset_eq_add_right)
qed

lemma total_two:
  assumes "client_at t x p" and "client_at u y p" and "t \<noteq> u" shows "own x + own y \<subseteq># total own p"
proof -
  have e: "total own (go_to t C_idle p) + own x = total own p" using total_go_to [of t p own C_idle] assms(1) by (simp add: client_at_def)
  have "client_at u y (go_to t C_idle p)" using assms(2,3) by (simp add: client_at_def)
  then have "own y \<subseteq># total own (go_to t C_idle p)" by (rule total_member)
  then show ?thesis using e by (metis add.commute mset_subset_eq_mono_add_right_cancel)
qed


text \<open>
  A connection that is found dead when it is returned is deleted, and nobody tells the clients that wait: here the one who could
  now create a connection stays blocked.
\<close>

lemma conn_pool_stuck:
  "\<exists>p. conn_step\<^sup>*\<^sup>* (ConnectionPool_new 2 1 0) p \<and> count p = 0 \<and> maxConnection p = 1 \<and> clients p = [C_idle, C_blocked]"
proof -
  define p0 where "p0 = ConnectionPool_new 2 1 0"
  define p1 where "p1 = pool_try True 0 (go_to 0 C_try p0)"
  define p2 where "p2 = CreateOne_make (Some 7) C_held C_wait 0 (CreateOne_inc C_make C_dec 0 p1)"
  define p3 where "p3 = pool_try True 1 (go_to 1 C_try p2)"
  define p4 where "p4 = CreateOne_dec C_wait 1 (CreateOne_inc C_make C_dec 1 p3)"
  define p5 where "p5 = pool_wait 1 p4"
  define p6 where "p6 = pool_return False 0 7 p5"
  note defs = p0_def p1_def p2_def p3_def p4_def p5_def p6_def ConnectionPool_new_def go_to_def pool_try_def ic_TryPop_def CreateOne_inc_def CreateOne_make_def
    CreateOne_dec_def pool_wait_def ic_Pop_def pool_return_def pool_Delete_def Let_def client_at_def numeral_2_eq_2
  have s1: "conn_step\<^sup>*\<^sup>* p0 p1" unfolding p1_def by (rule converse_rtranclp_into_rtranclp [OF ps_Get r_into_rtranclp [of conn_step, OF ps_try]]) (simp_all add: defs)
  have s2: "conn_step\<^sup>*\<^sup>* p1 p2" unfolding p2_def by (rule converse_rtranclp_into_rtranclp [OF ps_inc r_into_rtranclp [of conn_step, OF ps_make]]) (simp_all add: defs)
  have s3: "conn_step\<^sup>*\<^sup>* p2 p3" unfolding p3_def by (rule converse_rtranclp_into_rtranclp [OF ps_Get r_into_rtranclp [of conn_step, OF ps_try]]) (simp_all add: defs)
  have s4: "conn_step\<^sup>*\<^sup>* p3 p4" unfolding p4_def by (rule converse_rtranclp_into_rtranclp [OF ps_inc r_into_rtranclp [of conn_step, OF ps_dec]]) (simp_all add: defs)
  have s5: "conn_step\<^sup>*\<^sup>* p4 p5" unfolding p5_def by (rule r_into_rtranclp [of conn_step, OF ps_wait]) (simp add: defs)
  have s6: "conn_step\<^sup>*\<^sup>* p5 p6" unfolding p6_def by (rule r_into_rtranclp [of conn_step, OF ps_return]) (simp add: defs)
  have "conn_step\<^sup>*\<^sup>* p0 p6" using s1 s2 s3 s4 s5 s6 by (meson rtranclp_trans)
  moreover have "count p6 = 0 \<and> maxConnection p6 = 1 \<and> clients p6 = [C_idle, C_blocked]" by (simp add: defs)
  ultimately show ?thesis unfolding p0_def by blast
qed

text \<open>Once the factory has returned null \<open>maxConnection\<close> times no connection is ever made again.\<close>

lemma conn_pool_lost:
  "conn_inv {#} p \<Longrightarrow> maxConnection p \<le> lost p \<Longrightarrow> clients (CreateOne_inc yes no t p) = (clients p)[t := no]"
  by (simp add: conn_inv_def books_def CreateOne_inc_def Let_def)


end
