(* ===== verification/Async_Pool.thy ===== *)
theory Async_Pool
  imports Locked_Channel "HOL-Library.Multiset"
begin

text \<open>
  \<open>AsyncCoroutinePool\<close> of \<open>src/pool/AsyncCoroutinePool.cpp\<close>: worker coroutines take tasks from a channel and hand the callback of a
  finished task to one of the callback points that clients have registered, in turn. Registration is lock free, so it is a step
  relation with one atomic operation per step; the body of a worker is a function of the task to the actions it performs; a callback
  point is a channel of capacity 0 used through the operations of \<open>Locked_Channel\<close>.
\<close>

subsection \<open>Starting\<close>

text \<open>\<open>Start\<close>: the number of coroutines, from the thread counts (\<open>int\<close>s; \<open>std::min<size_t>\<close> reads a negative one as a huge number).\<close>

definition Start_count :: "u64 \<Rightarrow> int \<Rightarrow> int \<Rightarrow> u64" where
  "Start_count maxc minThread maxThread =
     (if maxc = 0 then min (word_of_int (max (minThread * 128) maxThread)) 10240 else maxc)"

lemma Start_count_default:
  assumes "0 < minThread" and "minThread * 128 < 2 ^ 31" and "maxThread < 2 ^ 31"
  shows "0 < Start_count 0 minThread maxThread" and "Start_count 0 minThread maxThread \<le> 10240"
proof -
  have "0 < max (minThread * 128) maxThread" and "max (minThread * 128) maxThread < 2 ^ 64" using assms by auto
  then have "0 < uint (word_of_int (max (minThread * 128) maxThread) :: u64)" by (simp add: uint_word_of_int)
  then have "0 < (word_of_int (max (minThread * 128) maxThread) :: u64)" by (simp add: word_less_def)
  then show "0 < Start_count 0 minThread maxThread" by (simp add: Start_count_def min_def)
qed (simp add: Start_count_def)

subsection \<open>Registering callback points\<close>

text \<open>Where a caller of \<open>AddCallbackPoint\<close> stands; \<open>A_cas e\<close> is about to compare \<open>pointsCount_\<close> with \<open>e\<close>.\<close>

datatype adder = A_idle | A_undo nat | A_store nat nat | A_cas nat

record registry =
  pointsCount :: nat
  writePointsCount :: nat
  points :: "nat option list"   \<comment> \<open>\<open>points_\<close>, of \<open>maxCallbackPoints_\<close> entries; \<open>None\<close> is not yet written\<close>
  adders :: "adder list"
  accepted :: "nat list"        \<comment> \<open>points written so far\<close>
  refused :: "nat list"         \<comment> \<open>points for which false was returned\<close>

definition AsyncCoroutinePool_new :: "nat \<Rightarrow> nat \<Rightarrow> registry" where
  "AsyncCoroutinePool_new n maxCallbackPoints =
     \<lparr>pointsCount = 0, writePointsCount = 0, points = replicate maxCallbackPoints None, adders = replicate n A_idle,
      accepted = [], refused = []\<rparr>"

definition adder_to :: "nat \<Rightarrow> adder \<Rightarrow> registry \<Rightarrow> registry" where
  "adder_to t x g = g\<lparr>adders := (adders g)[t := x]\<rparr>"

definition adder_at :: "nat \<Rightarrow> adder \<Rightarrow> registry \<Rightarrow> bool" where
  "adder_at t x g \<longleftrightarrow> t < length (adders g) \<and> adders g ! t = x"

definition Add_claim :: "nat \<Rightarrow> nat \<Rightarrow> registry \<Rightarrow> registry" where
  "Add_claim t point g =
     (let writeIdx = writePointsCount g; g1 = g\<lparr>writePointsCount := writeIdx + 1\<rparr>
      in adder_to t (if length (points g) \<le> writeIdx then A_undo point else A_store writeIdx point) g1)"

definition Add_undo :: "nat \<Rightarrow> nat \<Rightarrow> registry \<Rightarrow> registry" where
  "Add_undo t point g = adder_to t A_idle (g\<lparr>writePointsCount := writePointsCount g - 1, refused := refused g @ [point]\<rparr>)"

definition Add_store :: "nat \<Rightarrow> nat \<Rightarrow> nat \<Rightarrow> registry \<Rightarrow> registry" where
  "Add_store t writeIdx point g =
     adder_to t (A_cas writeIdx) (g\<lparr>points := (points g)[writeIdx := Some point], accepted := accepted g @ [point]\<rparr>)"

text \<open>A failed \<open>compare_exchange_weak\<close> loads the current value into \<open>writeIdx\<close>; it may also fail spuriously.\<close>

definition Add_cas :: "bool \<Rightarrow> nat \<Rightarrow> nat \<Rightarrow> registry \<Rightarrow> registry" where
  "Add_cas spurious t writeIdx g =
     (if pointsCount g = writeIdx \<and> \<not> spurious then adder_to t A_idle (g\<lparr>pointsCount := writeIdx + 1\<rparr>)
      else adder_to t (A_cas (pointsCount g)) g)"

inductive reg_step :: "registry \<Rightarrow> registry \<Rightarrow> bool" where
  as_claim: "adder_at t A_idle g \<Longrightarrow> reg_step g (Add_claim t point g)"
| as_undo: "adder_at t (A_undo point) g \<Longrightarrow> reg_step g (Add_undo t point g)"
| as_store: "adder_at t (A_store i point) g \<Longrightarrow> reg_step g (Add_store t i point g)"
| as_cas: "adder_at t (A_cas e) g \<Longrightarrow> reg_step g (Add_cas spurious t e g)"

fun claims :: "adder \<Rightarrow> nat" where
  "claims (A_store i c) = 1" | "claims (A_cas e) = 1" | "claims _ = 0"

fun undoes :: "adder \<Rightarrow> nat" where
  "undoes (A_undo c) = 1" | "undoes _ = 0"

fun slot_of :: "adder \<Rightarrow> nat multiset" where
  "slot_of (A_store i c) = {#i#}" | "slot_of _ = {#}"

abbreviation adding :: "(adder \<Rightarrow> 'b :: comm_monoid_add) \<Rightarrow> registry \<Rightarrow> 'b" where
  "adding f g \<equiv> sum_list (map f (adders g))"

text \<open>The entries handed out so far.\<close>

abbreviation claimed :: "registry \<Rightarrow> nat" where
  "claimed g \<equiv> pointsCount g + adding claims g"

definition unset :: "nat option list \<Rightarrow> nat \<Rightarrow> nat multiset" where
  "unset ps n = mset (filter (\<lambda>i. ps ! i = None) [0..<n])"

definition registry_ok :: "registry \<Rightarrow> bool" where
  "registry_ok g \<longleftrightarrow> writePointsCount g = claimed g + adding undoes g \<and> claimed g \<le> length (points g) \<and>
     (0 < adding undoes g \<or> refused g \<noteq> [] \<longrightarrow> claimed g = length (points g)) \<and>
     adding slot_of g = unset (points g) (claimed g) \<and> (\<forall>i<length (points g). claimed g \<le> i \<longrightarrow> points g ! i = None) \<and>
     mset (map Some (accepted g)) = filter_mset (\<lambda>x. x \<noteq> None) (mset (points g))"

lemma adder_to_sel [simp]:
  "pointsCount (adder_to t x g) = pointsCount g" "writePointsCount (adder_to t x g) = writePointsCount g"
  "points (adder_to t x g) = points g" "adders (adder_to t x g) = (adders g)[t := x]" "accepted (adder_to t x g) = accepted g"
  "refused (adder_to t x g) = refused g"
  by (simp_all add: adder_to_def)

lemma adding_moved:
  assumes "adder_at t x g"
  shows "adding claims (adder_to t y g) + claims x = adding claims g + claims y"
    and "adding undoes (adder_to t y g) + undoes x = adding undoes g + undoes y"
    and "adding slot_of (adder_to t y g) + slot_of x = adding slot_of g + slot_of y"
  using assms sum_list_moved [of t "adders g"] by (auto simp: adder_at_def)

lemma unset_Suc: "unset ps (Suc n) = unset ps n + (if ps ! n = None then {#n#} else {#})"
  by (simp add: unset_def)

lemma unset_write: "i < n \<Longrightarrow> i < length ps \<Longrightarrow> ps ! i = None \<Longrightarrow> unset (ps[i := Some c]) n + {#i#} = unset ps n"
proof (induction n)
  case (Suc n)
  have keep: "unset (ps[i := Some c]) i = unset ps i" unfolding unset_def by (intro arg_cong [where f = mset] filter_cong) auto
  show ?case
  proof (cases "i < n")
    case True
    then have "unset (ps[i := Some c]) n + {#i#} = unset ps n" using Suc by simp
    then show ?thesis using True by (simp add: unset_Suc)
  next
    case False
    then have "i = n" using Suc.prems(1) by simp
    then show ?thesis using Suc.prems keep by (simp add: unset_Suc)
  qed
qed simp

lemma no_slots: "sum_list (replicate n {#}) = ({#} :: nat multiset)"
  by (induction n) simp_all

lemma registry_new: "registry_ok (AsyncCoroutinePool_new n m)"
  using no_slots [of n] unfolding registry_ok_def AsyncCoroutinePool_new_def by (simp add: unset_def map_replicate sum_list_replicate del: map_replicate_const)

lemma registry_claim:
  assumes ok: "registry_ok g" and a: "adder_at t A_idle g"
  shows "registry_ok (Add_claim t c g)"
proof (cases "length (points g) \<le> writePointsCount g")
  case True
  define h where "h = adder_to t (A_undo c) g"
  have s: "adding claims h = adding claims g" "adding undoes h = adding undoes g + 1" "adding slot_of h = adding slot_of g"
    using adding_moved [OF a, of "A_undo c"] by (simp_all add: h_def)
  have full: "claimed g = length (points g)" using ok True by (cases "adding undoes g") (simp_all only: registry_ok_def, simp_all)
  have "Add_claim t c g = h\<lparr>writePointsCount := writePointsCount g + 1\<rparr>"
    using True by (simp add: Add_claim_def adder_to_def h_def)
  then show ?thesis using ok s full by (auto simp: registry_ok_def h_def)
next
  case False
  define i where "i = writePointsCount g"
  define h where "h = adder_to t (A_store i c) g"
  have s: "adding claims h = adding claims g + 1" "adding undoes h = adding undoes g" "adding slot_of h = adding slot_of g + {#i#}"
    using adding_moved [OF a, of "A_store i c"] by (simp_all add: h_def)
  have nu: "adding undoes g = 0" and ri: "refused g = []" using ok False by (auto simp: registry_ok_def)
  then have i: "claimed g = i" using ok by (simp add: registry_ok_def i_def)
  then have "points g ! i = None" using ok False by (simp add: registry_ok_def i_def)
  then have "unset (points g) (Suc i) = unset (points g) i + {#i#}" by (simp add: unset_Suc)
  moreover have "Add_claim t c g = h\<lparr>writePointsCount := Suc i\<rparr>" using False by (simp add: Add_claim_def adder_to_def h_def i_def Let_def)
  moreover have "adding slot_of g = unset (points g) i" using ok i by (simp add: registry_ok_def)
  moreover have "points h = points g" "accepted h = accepted g" "refused h = []" "pointsCount h = pointsCount g" using ri by (simp_all add: h_def)
  ultimately show ?thesis using ok s nu i False by (simp add: registry_ok_def i_def del: sum_list_eq_0_iff)
qed

lemma registry_undo:
  assumes ok: "registry_ok g" and a: "adder_at t (A_undo c) g"
  shows "registry_ok (Add_undo t c g)"
proof -
  define h where "h = adder_to t A_idle g"
  have s: "adding claims h = adding claims g" "adding undoes h + 1 = adding undoes g" "adding slot_of h = adding slot_of g"
    using adding_moved [OF a, of A_idle] by (simp_all add: h_def)
  have "Add_undo t c g = h\<lparr>writePointsCount := writePointsCount g - 1, refused := refused g @ [c]\<rparr>"
    by (simp add: Add_undo_def adder_to_def h_def)
  moreover have "points h = points g" "accepted h = accepted g" "pointsCount h = pointsCount g" by (simp_all add: h_def)
  ultimately show ?thesis using ok s by (auto simp: registry_ok_def)
qed

lemma registry_store:
  assumes ok: "registry_ok g" and a: "adder_at t (A_store i c) g"
  shows "registry_ok (Add_store t i c g)"
proof -
  define h where "h = adder_to t (A_cas i) g"
  have s: "adding claims h = adding claims g" "adding undoes h = adding undoes g" "adding slot_of h + {#i#} = adding slot_of g"
    using adding_moved [OF a, of "A_cas i"] by (simp_all add: h_def)
  have un: "adding slot_of g = unset (points g) (claimed g)" and le: "claimed g \<le> length (points g)" using ok by (simp_all add: registry_ok_def)
  have "i \<in># unset (points g) (claimed g)" unfolding un [symmetric] s(3) [symmetric] by simp
  then have i: "i < claimed g" "points g ! i = None" by (auto simp: unset_def)
  define ps where "ps = (points g)[i := Some c]"
  have "unset ps (claimed g) + {#i#} = unset (points g) (claimed g)" unfolding ps_def by (rule unset_write) (use i le in auto)
  then have sl: "adding slot_of h = unset ps (claimed g)" using s(3) un by (metis add_right_cancel)
  have "mset ps = add_mset (Some c) (mset (points g) - {#None#})" using i le by (simp add: ps_def mset_update)
  then have ac: "mset (map Some (accepted g @ [c])) = filter_mset (\<lambda>x. x \<noteq> None) (mset ps)" using ok by (simp add: registry_ok_def)
  have "Add_store t i c g = h\<lparr>points := ps, accepted := accepted g @ [c]\<rparr>" by (simp add: Add_store_def adder_to_def h_def ps_def)
  moreover have "refused h = refused g" "pointsCount h = pointsCount g" "writePointsCount h = writePointsCount g" by (simp_all add: h_def)
  ultimately show ?thesis using ok s(1,2) sl ac i(1) by (auto simp: registry_ok_def ps_def nth_list_update)
qed

lemma registry_cas:
  assumes ok: "registry_ok g" and a: "adder_at t (A_cas e) g"
  shows "registry_ok (Add_cas sp t e g)"
proof (cases "pointsCount g = e \<and> \<not> sp")
  case True
  define h where "h = adder_to t A_idle g"
  have s: "adding claims g = Suc (adding claims h)" "adding undoes h = adding undoes g" "adding slot_of h = adding slot_of g"
    using adding_moved [OF a, of A_idle] by (simp_all add: h_def)
  have "Add_cas sp t e g = h\<lparr>pointsCount := Suc (pointsCount g)\<rparr>" using True by (simp add: Add_cas_def adder_to_def h_def)
  moreover have "refused h = refused g" "points h = points g" "accepted h = accepted g" "writePointsCount h = writePointsCount g"
    by (simp_all add: h_def)
  ultimately show ?thesis using ok s by (simp add: registry_ok_def)
next
  case False
  define h where "h = adder_to t (A_cas (pointsCount g)) g"
  have "adding claims h = adding claims g" "adding undoes h = adding undoes g" "adding slot_of h = adding slot_of g"
    using adding_moved [OF a, of "A_cas (pointsCount g)"] by (simp_all add: h_def)
  moreover have "Add_cas sp t e g = h" using False by (auto simp: Add_cas_def h_def)
  ultimately show ?thesis using ok by (simp add: registry_ok_def h_def)
qed

lemma registry_step: "reg_step g h \<Longrightarrow> registry_ok g \<Longrightarrow> registry_ok h"
  by (induction rule: reg_step.induct) (blast intro: registry_claim registry_undo registry_store registry_cas)+

lemma registry_reach: "reg_step\<^sup>*\<^sup>* (AsyncCoroutinePool_new n m) g \<Longrightarrow> registry_ok g \<and> length (points g) = m"
proof (induction rule: rtranclp_induct)
  case base
  then show ?case by (simp add: registry_new) (simp add: AsyncCoroutinePool_new_def)
next
  case (step g h)
  have "length (points h) = length (points g)" using step(2)
    by (cases rule: reg_step.cases) (simp_all add: Add_claim_def Add_undo_def Add_store_def Add_cas_def Let_def)
  then show ?case using step registry_step by simp
qed

definition adders_quiet :: "registry \<Rightarrow> bool" where
  "adders_quiet g \<longleftrightarrow> set (adders g) \<subseteq> {A_idle}"

lemma quiet_sums: "adders_quiet g \<Longrightarrow> adding claims g = 0 \<and> adding undoes g = 0 \<and> adding slot_of g = {#}"
proof -
  assume "adders_quiet g"
  then have e: "adders g = replicate (length (adders g)) A_idle" unfolding adders_quiet_def by (intro replicate_eqI) auto
  have "adding slot_of g = {#}" using no_slots [of "length (adders g)"] by (subst e, simp)
  moreover have "adding claims g = 0" "adding undoes g = 0" by (subst e, simp add: sum_list_replicate)+
  ultimately show ?thesis by simp
qed

lemma registry_quiet:
  assumes ok: "registry_ok g" and q: "adders_quiet g"
  shows "mset (take (pointsCount g) (points g)) = mset (map Some (accepted g))" and "pointsCount g = length (accepted g)"
proof -
  note z = quiet_sums [OF q]
  have le: "pointsCount g \<le> length (points g)" using ok z by (simp add: registry_ok_def)
  have "unset (points g) (pointsCount g) = {#}" using ok z by (simp add: registry_ok_def)
  then have all: "\<forall>i<pointsCount g. points g ! i \<noteq> None" by (simp add: unset_def filter_empty_conv del: mset_filter)
  have rest: "\<forall>i<length (points g). pointsCount g \<le> i \<longrightarrow> points g ! i = None" using ok z by (simp add: registry_ok_def)
  have "filter (\<lambda>x. x \<noteq> None) (take (pointsCount g) (points g)) = take (pointsCount g) (points g)"
    using all le by (auto simp: filter_id_conv in_set_conv_nth)
  moreover have "filter (\<lambda>x. x \<noteq> None) (drop (pointsCount g) (points g)) = []"
    using rest by (auto simp: filter_empty_conv in_set_conv_nth)
  ultimately have "filter (\<lambda>x. x \<noteq> None) (points g) = take (pointsCount g) (points g)"
    by (metis append_Nil2 append_take_drop_id filter_append)
  then have "filter_mset (\<lambda>x. x \<noteq> None) (mset (points g)) = mset (take (pointsCount g) (points g))" by (metis mset_filter)
  then show e: "mset (take (pointsCount g) (points g)) = mset (map Some (accepted g))" using ok by (simp add: registry_ok_def)
  have "length (take (pointsCount g) (points g)) = length (map Some (accepted g))" using e by (rule mset_eq_length)
  then show "pointsCount g = length (accepted g)" using le by simp
qed

text \<open>C11: whenever no registration is running, the first \<open>pointsCount_\<close> entries of the array are exactly the registered points, the count is
  that of the accepted calls and at most the capacity, and a call was refused only if the array is full; at any time the count stays
  within the array.\<close>

theorem callback_points_registered:
  assumes "reg_step\<^sup>*\<^sup>* (AsyncCoroutinePool_new n m) g"
  shows "pointsCount g \<le> m \<and>
    (adders_quiet g \<longrightarrow> mset (take (pointsCount g) (points g)) = mset (map Some (accepted g)) \<and> pointsCount g = length (accepted g) \<and>
       writePointsCount g = pointsCount g \<and> (refused g \<noteq> [] \<longrightarrow> pointsCount g = m))"
proof -
  have ok: "registry_ok g" and l: "length (points g) = m" using registry_reach [OF assms] by simp_all
  have "pointsCount g \<le> m" using ok l by (simp add: registry_ok_def)
  moreover have "writePointsCount g = pointsCount g \<and> (refused g \<noteq> [] \<longrightarrow> pointsCount g = m)" if "adders_quiet g"
    using ok l quiet_sums [OF that] by (simp add: registry_ok_def)
  ultimately show ?thesis using registry_quiet [OF ok] by blast
qed

text \<open>Two registrations on an array of two: the caller that claimed entry 0 has not stored its point, and the count is already 1.\<close>

definition race_registry :: registry where
  "race_registry = Add_cas False 1 0 (Add_cas False 1 1 (Add_store 1 1 8 (Add_claim 1 8 (Add_claim 0 7 (AsyncCoroutinePool_new 2 2)))))"

lemmas add_defs = Add_claim_def Add_undo_def Add_store_def Add_cas_def adder_to_def AsyncCoroutinePool_new_def

lemma registration_race:
  "reg_step\<^sup>*\<^sup>* (AsyncCoroutinePool_new 2 2) race_registry \<and> pointsCount race_registry = 1 \<and> points race_registry ! 0 = None"
proof -
  define g0 where "g0 = AsyncCoroutinePool_new 2 2"
  define g1 where "g1 = Add_claim 0 7 g0"
  define g2 where "g2 = Add_claim 1 8 g1"
  define g3 where "g3 = Add_store 1 1 8 g2"
  define g4 where "g4 = Add_cas False 1 1 g3"
  note defs = g0_def g1_def g2_def g3_def g4_def
  have e0: "g0 = \<lparr>pointsCount = 0, writePointsCount = 0, points = [None, None], adders = [A_idle, A_idle], accepted = [], refused = []\<rparr>"
    by (simp add: g0_def AsyncCoroutinePool_new_def numeral_2_eq_2)
  have e2: "g2 = \<lparr>pointsCount = 0, writePointsCount = 2, points = [None, None], adders = [A_store 0 7, A_store 1 8], accepted = [], refused = []\<rparr>"
    by (simp add: g2_def g1_def e0 add_defs numeral_2_eq_2)
  have e4: "g4 = \<lparr>pointsCount = 0, writePointsCount = 2, points = [None, Some 8], adders = [A_store 0 7, A_cas 0], accepted = [8], refused = []\<rparr>"
    by (simp add: g4_def g3_def e2 add_defs)
  have s1: "reg_step g0 g1" unfolding g1_def by (rule as_claim) (simp add: adder_at_def e0)
  have s2: "reg_step g1 g2" unfolding g2_def by (rule as_claim) (simp add: adder_at_def g1_def e0 add_defs)
  have s3: "reg_step g2 g3" unfolding g3_def by (rule as_store) (simp add: adder_at_def e2)
  have s4: "reg_step g3 g4" unfolding g4_def by (rule as_cas) (simp add: adder_at_def g3_def e2 add_defs)
  have s5: "reg_step g4 (Add_cas False 1 0 g4)" by (rule as_cas) (simp add: adder_at_def e4)
  have e: "race_registry = Add_cas False 1 0 g4" by (simp only: race_registry_def defs)
  have "pointsCount race_registry = 1 \<and> points race_registry ! 0 = None \<and> race_registry = Add_cas False 1 0 g4"
    unfolding e by (simp add: e4 add_defs)
  moreover have "reg_step\<^sup>*\<^sup>* g0 (Add_cas False 1 0 g4)"
    by (rule converse_rtranclp_into_rtranclp [OF s1 converse_rtranclp_into_rtranclp [OF s2 converse_rtranclp_into_rtranclp [OF s3
      converse_rtranclp_into_rtranclp [OF s4 r_into_rtranclp [of reg_step, OF s5]]]]])
  ultimately show ?thesis by (simp only: g0_def)
qed

text \<open>One caller fills an array of one, a second call is refused.\<close>

definition full_registry :: registry where
  "full_registry = Add_undo 0 8 (Add_claim 0 8 (Add_cas False 0 0 (Add_store 0 0 7 (Add_claim 0 7 (AsyncCoroutinePool_new 1 1)))))"

lemma callback_points_registered_witness:
  "adders_quiet full_registry \<and> pointsCount full_registry = 1 \<and> refused full_registry = [8] \<and>
   mset (take (pointsCount full_registry) (points full_registry)) = mset (map Some (accepted full_registry))"
proof -
  define g0 where "g0 = AsyncCoroutinePool_new 1 1"
  define g1 where "g1 = Add_claim 0 7 g0"
  define g2 where "g2 = Add_store 0 0 7 g1"
  define g3 where "g3 = Add_cas False 0 0 g2"
  define g4 where "g4 = Add_claim 0 8 g3"
  have e0: "g0 = \<lparr>pointsCount = 0, writePointsCount = 0, points = [None], adders = [A_idle], accepted = [], refused = []\<rparr>"
    by (simp add: g0_def AsyncCoroutinePool_new_def)
  have e3: "g3 = \<lparr>pointsCount = 1, writePointsCount = 1, points = [Some 7], adders = [A_idle], accepted = [7], refused = []\<rparr>"
    by (simp add: g3_def g2_def g1_def e0 add_defs)
  have s1: "reg_step g0 g1" unfolding g1_def by (rule as_claim) (simp add: adder_at_def e0)
  have s2: "reg_step g1 g2" unfolding g2_def by (rule as_store) (simp add: adder_at_def g1_def e0 add_defs)
  have s3: "reg_step g2 g3" unfolding g3_def by (rule as_cas) (simp add: adder_at_def g2_def g1_def e0 add_defs)
  have s4: "reg_step g3 g4" unfolding g4_def by (rule as_claim) (simp add: adder_at_def e3)
  have s5: "reg_step g4 (Add_undo 0 8 g4)" by (rule as_undo) (simp add: adder_at_def g4_def e3 add_defs)
  have f: "full_registry = Add_undo 0 8 g4" by (simp only: full_registry_def g0_def g1_def g2_def g3_def g4_def)
  have "reg_step\<^sup>*\<^sup>* g0 (Add_undo 0 8 g4)"
    by (rule converse_rtranclp_into_rtranclp [OF s1 converse_rtranclp_into_rtranclp [OF s2 converse_rtranclp_into_rtranclp [OF s3
      converse_rtranclp_into_rtranclp [OF s4 r_into_rtranclp [of reg_step, OF s5]]]]])
  then have "reg_step\<^sup>*\<^sup>* (AsyncCoroutinePool_new 1 1) full_registry" by (simp only: f g0_def)
  moreover have "adders_quiet full_registry" "refused full_registry = [8]"
    by (simp_all add: f g4_def e3 add_defs adders_quiet_def)
  ultimately show ?thesis using callback_points_registered [of 1 1 full_registry] by (metis list.distinct(1))
qed

subsection \<open>The workers\<close>

record pool_task =
  func :: "nat option"
  cb :: "nat option"

datatype go_act = Run_func nat | Run_cb nat | Post_cb nat nat | Notify_point nat

text \<open>One round of \<open>Go\<close>: the actions, and the new \<open>robin_\<close>; \<open>n\<close> is the value read from \<open>pointsCount_\<close>.\<close>

definition Go_round :: "u64 \<Rightarrow> pool_task \<Rightarrow> u64 \<Rightarrow> go_act list \<times> u64" where
  "Go_round n task robin =
     (let ran = (case func task of Some f \<Rightarrow> [Run_func f] | None \<Rightarrow> [])
      in case cb task of
           None \<Rightarrow> (ran, robin)
         | Some c \<Rightarrow> if n = 0 then (ran @ [Run_cb c], robin)
                     else (let r = robin + 1; idx = unat (r mod n) in (ran @ [Post_cb idx c, Notify_point idx], r)))"

fun Go_rounds :: "u64 \<Rightarrow> pool_task list \<Rightarrow> u64 \<Rightarrow> go_act list \<times> u64" where
  "Go_rounds n [] robin = ([], robin)"
| "Go_rounds n (task # ts) robin = (let (as, r) = Go_round n task robin; (bs, r') = Go_rounds n ts r in (as @ bs, r'))"

fun posted_to :: "go_act list \<Rightarrow> nat list" where
  "posted_to [] = []"
| "posted_to (Post_cb i c # as) = i # posted_to as"
| "posted_to (a # as) = posted_to as"

fun called :: "go_act list \<Rightarrow> nat list" where
  "called [] = []"
| "called (Run_func f # as) = f # called as"
| "called (a # as) = called as"

text \<open>The callbacks, in the order in which they are run or handed over.\<close>

fun delivered :: "go_act list \<Rightarrow> nat list" where
  "delivered [] = []"
| "delivered (Run_cb c # as) = c # delivered as"
| "delivered (Post_cb i c # as) = c # delivered as"
| "delivered (a # as) = delivered as"

lemma acts_append [simp]:
  "posted_to (as @ bs) = posted_to as @ posted_to bs" "called (as @ bs) = called as @ called bs" "delivered (as @ bs) = delivered as @ delivered bs"
  by (induction as rule: posted_to.induct; simp)+

lemma Go_round_acts:
  "called (fst (Go_round n task r)) = (case func task of Some f \<Rightarrow> [f] | None \<Rightarrow> [])"
  "delivered (fst (Go_round n task r)) = (case cb task of Some c \<Rightarrow> [c] | None \<Rightarrow> [])"
  by (auto simp: Go_round_def Let_def split: option.splits)

lemma Go_rounds_acts:
  "called (fst (Go_rounds n ts r)) = List.map_filter func ts" "delivered (fst (Go_rounds n ts r)) = List.map_filter cb ts"
  by (induction ts arbitrary: r)
    (auto simp: Go_round_acts List.map_filter_simps case_prod_beta Let_def simp flip: prod.collapse split: option.splits)

text \<open>The points used are those of the counter, one after the other.\<close>

lemma Go_rounds_robin:
  assumes "n \<noteq> 0" and "unat robin + length (List.map_filter cb ts) < 2 ^ 64"
  shows "posted_to (fst (Go_rounds n ts robin)) = map (\<lambda>j. (unat robin + 1 + j) mod unat n) [0..<length (List.map_filter cb ts)]"
  using assms(2)
proof (induction ts arbitrary: robin)
  case Nil
  then show ?case by (simp add: List.map_filter_simps)
next
  case (Cons task ts)
  show ?case
  proof (cases "cb task")
    case None
    then have "posted_to (fst (Go_round n task robin)) = []" "snd (Go_round n task robin) = robin"
      by (auto simp: Go_round_def split: option.splits)
    then show ?thesis using Cons None by (simp add: List.map_filter_simps case_prod_beta Let_def)
  next
    case (Some c)
    let ?k = "length (List.map_filter cb ts)"
    have b: "unat robin + 1 + ?k < 2 ^ 64" using Cons.prems Some by (simp add: List.map_filter_simps)
    then have u: "unat (robin + 1) = unat robin + 1" by (intro unat_Suc_u64) simp
    have "posted_to (fst (Go_round n task robin)) = [(unat robin + 1) mod unat n]" "snd (Go_round n task robin) = robin + 1"
      using Some assms(1) u by (auto simp: Go_round_def Let_def unat_mod split: option.splits)
    moreover have "posted_to (fst (Go_rounds n ts (robin + 1))) = map (\<lambda>j. (unat robin + 1 + Suc j) mod unat n) [0..<?k]"
      using Cons.IH [of "robin + 1"] b u by simp
    moreover have "[0..<Suc ?k] = 0 # map Suc [0..<?k]" by (simp add: map_Suc_upt upt_conv_Cons del: upt_Suc)
    ultimately show ?thesis using Some by (simp add: List.map_filter_simps case_prod_beta Let_def comp_def del: upt_Suc)
  qed
qed

lemma window_residues:
  fixes n :: nat
  assumes "0 < n"
  shows "distinct (map (\<lambda>j. (a + j) mod n) [0..<n])" and "set (map (\<lambda>j. (a + j) mod n) [0..<n]) = {..<n}"
proof -
  have i: "inj_on (\<lambda>j. (a + j) mod n) {..<n}"
  proof (rule inj_onI)
    fix x y
    assume xy: "x \<in> {..<n}" "y \<in> {..<n}" and e: "(a + x) mod n = (a + y) mod n"
    then show "x = y"
    proof (induction x y rule: linorder_wlog)
      case (le x y)
      then have "n dvd (a + y) - (a + x)" using mod_eq_dvd_iff_nat [of "a + x" "a + y" n] add_left_mono [of x y a] by metis
      then have "n dvd y - x" by simp
      moreover have "y - x < n" using le by auto
      ultimately show ?case using le(1) nat_dvd_not_less [of "y - x" n] by fastforce
    qed simp
  qed
  then show "distinct (map (\<lambda>j. (a + j) mod n) [0..<n])" by (simp add: distinct_map atLeast0LessThan)
  have "(\<lambda>j. (a + j) mod n) ` {..<n} = {..<n}" using i assms by (intro endo_inj_surj) auto
  then show "set (map (\<lambda>j. (a + j) mod n) [0..<n]) = {..<n}" by (simp add: atLeast0LessThan)
qed

text \<open>C13: workers with \<open>n\<close> callback points call every function and deliver every callback once, in the order of the tasks, and use the
  points in turn: \<open>n\<close> consecutive callbacks go to the \<open>n\<close> different points, as long as the counter does not wrap.\<close>

theorem callbacks_round_robin:
  assumes "n \<noteq> 0" and "unat robin + length (List.map_filter cb ts) < 2 ^ 64"
  shows "called (fst (Go_rounds n ts robin)) = List.map_filter func ts \<and> delivered (fst (Go_rounds n ts robin)) = List.map_filter cb ts \<and>
    length (posted_to (fst (Go_rounds n ts robin))) = length (List.map_filter cb ts) \<and>
    (\<forall>k. k + unat n \<le> length (List.map_filter cb ts) \<longrightarrow>
      distinct (take (unat n) (drop k (posted_to (fst (Go_rounds n ts robin))))) \<and>
      set (take (unat n) (drop k (posted_to (fst (Go_rounds n ts robin))))) = {..<unat n})"
proof -
  let ?l = "length (List.map_filter cb ts)"
  have p: "posted_to (fst (Go_rounds n ts robin)) = map (\<lambda>j. (unat robin + 1 + j) mod unat n) [0..<?l]"
    by (rule Go_rounds_robin [OF assms])
  have n: "0 < unat n" using assms(1) by (simp add: unat_gt_0)
  have w: "take (unat n) (drop k (posted_to (fst (Go_rounds n ts robin)))) = map (\<lambda>j. (unat robin + 1 + k + j) mod unat n) [0..<unat n]"
    if "k + unat n \<le> ?l" for k
    using that by (intro nth_equalityI) (simp_all add: p ac_simps)
  then have "distinct (take (unat n) (drop k (posted_to (fst (Go_rounds n ts robin))))) \<and>
    set (take (unat n) (drop k (posted_to (fst (Go_rounds n ts robin))))) = {..<unat n}" if "k + unat n \<le> ?l" for k
    using window_residues [OF n, of "unat robin + 1 + k"] that by simp
  then show ?thesis using Go_rounds_acts [where r = robin and n = n and ts = ts] by (simp add: p)
qed

lemma callbacks_round_robin_witness:
  "posted_to (fst (Go_rounds 2 [\<lparr>func = Some 1, cb = Some 5\<rparr>, \<lparr>func = None, cb = Some 6\<rparr>] 0)) = [1, 0] \<and>
   set (take 2 (drop 0 (posted_to (fst (Go_rounds 2 [\<lparr>func = Some 1, cb = Some 5\<rparr>, \<lparr>func = None, cb = Some 6\<rparr>] 0))))) = {..<2}"
  using callbacks_round_robin [of 2 0 "[\<lparr>func = Some 1, cb = Some 5\<rparr>, \<lparr>func = None, cb = Some 6\<rparr>]"]
  by (simp add: List.map_filter_simps Go_round_def Let_def)

subsection \<open>Callback points\<close>

text \<open>The channel of a \<open>CallbackPoint\<close> has capacity 0: a value in it is a blocked \<open>Post\<close>.\<close>

definition CallbackPoint_channel :: "nat chan_state" where
  "CallbackPoint_channel = (LockedChannel_new 0 False, \<lambda>_. 0)"

definition unbuffered :: "nat chan_state \<Rightarrow> bool" where
  "unbuffered s \<longleftrightarrow> chcap (fst s) = 0 \<and> \<not> closed (fst s) \<and> live (rq (fst s)) = []"

abbreviation waiting :: "nat chan_state \<Rightarrow> addr list" where
  "waiting s \<equiv> live (wq (fst s))"

lemma unbuffered_Push:
  assumes "unbuffered s"
  shows "\<exists>s'. chan_Push c w True s = (Blocked, s') \<and> unbuffered s' \<and> waiting s' = waiting s @ [w] \<and> snd s' = (snd s)(w := c)"
  using assms notify_rq_none [of s] by (simp add: chan_Push_def unbuffered_def do_wait_enqueue_def Let_def)

lemma unbuffered_Pop_none:
  assumes "unbuffered s" and "waiting s = []"
  shows "\<exists>s'. chan_Pop p False s = (Done False, s') \<and> unbuffered s' \<and> waiting s' = [] \<and> snd s' = snd s"
  using assms notify_wq_none [of s] by (simp add: chan_Pop_def unbuffered_def)

lemma unbuffered_Pop:
  assumes "unbuffered s" and "waiting s = w # ws"
  shows "\<exists>s'. chan_Pop p False s = (Done True, s') \<and> unbuffered s' \<and> waiting s' = ws \<and> snd s' = (snd s)(p := snd s w)"
proof -
  obtain es where "notify_wq (\<lambda>q (ch, m). (ch, m(p := m q))) s = (True, (fst s)\<lparr>wq := es\<rparr>, (snd s)(p := snd s w))" "live es = ws"
    using notify_wq_some [OF assms(2), of "\<lambda>q (ch, m). (ch, m(p := m q))"] by (cases s) auto
  then show ?thesis using assms(1) by (simp add: chan_Pop_def unbuffered_def)
qed

text \<open>\<open>CallbackPoint::Run\<close>; \<open>p\<close> is the address of its variable \<open>cb\<close>, the result lists the callbacks it calls. The callbacks do not
  touch the channel. \<open>None\<close> is the end of the fuel.\<close>

fun Run_loop :: "nat \<Rightarrow> nat \<Rightarrow> nat \<Rightarrow> addr \<Rightarrow> nat chan_state \<Rightarrow> (nat list \<times> nat \<times> nat chan_state) option" where
  "Run_loop 0 maxTrigger i p s = None"
| "Run_loop (Suc k) maxTrigger i p s =
     (if i < maxTrigger \<or> maxTrigger = 0
      then (case chan_Pop p False s of
              (Done True, s') \<Rightarrow> map_option (\<lambda>(cs, r). (snd s' p # cs, r)) (Run_loop k maxTrigger (i + 1) p s')
            | (_, s') \<Rightarrow> Some ([], i, s'))
      else Some ([], i, s))"

definition CallbackPoint_Run :: "nat \<Rightarrow> nat \<Rightarrow> addr \<Rightarrow> nat chan_state \<Rightarrow> (nat list \<times> nat \<times> nat chan_state) option" where
  "CallbackPoint_Run fuel maxTrigger p s = Run_loop fuel maxTrigger 0 p s"

definition run_quota :: "nat \<Rightarrow> nat \<Rightarrow> nat \<Rightarrow> nat" where
  "run_quota maxTrigger i n = (if maxTrigger = 0 then n else min (maxTrigger - i) n)"

lemma Run_loop_result:
  assumes "unbuffered s" and "p \<notin> set (waiting s)" and "length (waiting s) < k" and "maxTrigger = 0 \<or> i \<le> maxTrigger"
  shows "\<exists>s'. Run_loop k maxTrigger i p s = Some (take (run_quota maxTrigger i (length (waiting s))) (map (snd s) (waiting s)),
      i + run_quota maxTrigger i (length (waiting s)), s') \<and>
    unbuffered s' \<and> waiting s' = drop (run_quota maxTrigger i (length (waiting s))) (waiting s) \<and> (\<forall>q. q \<noteq> p \<longrightarrow> snd s' q = snd s q)"
  using assms
proof (induction k arbitrary: i s)
  case (Suc k)
  show ?case
  proof (cases "i < maxTrigger \<or> maxTrigger = 0")
    case False
    then show ?thesis using Suc.prems by (simp add: run_quota_def)
  next
    case True
    show ?thesis
    proof (cases "waiting s")
      case Nil
      then show ?thesis using True unbuffered_Pop_none [OF Suc.prems(1) Nil, of p] by (auto simp: run_quota_def)
    next
      case (Cons w ws)
      obtain s1 where s1: "chan_Pop p False s = (Done True, s1)" "unbuffered s1" "waiting s1 = ws" "snd s1 = (snd s)(p := snd s w)"
        using unbuffered_Pop [OF Suc.prems(1) Cons, of p] by blast
      have p: "p \<notin> set ws" using Suc.prems(2) Cons by simp
      obtain s2 where s2: "Run_loop k maxTrigger (i + 1) p s1 = Some (take (run_quota maxTrigger (i + 1) (length ws)) (map (snd s1) ws),
          i + 1 + run_quota maxTrigger (i + 1) (length ws), s2)" "unbuffered s2"
        "waiting s2 = drop (run_quota maxTrigger (i + 1) (length ws)) ws" "\<forall>q. q \<noteq> p \<longrightarrow> snd s2 q = snd s1 q"
        using Suc.IH [OF s1(2), of "i + 1"] s1(3) p Suc.prems(3) Cons True by auto
      have q: "run_quota maxTrigger i (Suc (length ws)) = Suc (run_quota maxTrigger (i + 1) (length ws))"
        using True by (auto simp: run_quota_def min_def)
      have m: "map (snd s1) ws = map (snd s) ws" using p s1(4) map_upd_notin by metis
      show ?thesis using True s1(1,4) s2(1) [unfolded m] s2(2-4) q Cons by simp
    qed
  qed
qed simp

text \<open>C14: \<open>Run\<close> returns, and calls the oldest pending callbacks in order, all of them for \<open>maxTrigger = 0\<close> and at most \<open>maxTrigger\<close>
  otherwise; it returns their number and leaves the others waiting.\<close>

theorem callback_point_run:
  assumes "unbuffered s" and "p \<notin> set (waiting s)" and "length (waiting s) < fuel"
  shows "\<exists>s' k. k = (if maxTrigger = 0 then length (waiting s) else min maxTrigger (length (waiting s))) \<and>
    CallbackPoint_Run fuel maxTrigger p s = Some (take k (map (snd s) (waiting s)), k, s') \<and> unbuffered s' \<and> waiting s' = drop k (waiting s)"
  using Run_loop_result [OF assms, of maxTrigger 0] by (auto simp: CallbackPoint_Run_def run_quota_def)

lemma callback_point_run_witness:
  "\<exists>s s' w. chan_Push 7 0 True CallbackPoint_channel = (w, s) \<and> CallbackPoint_Run 2 0 5 s = Some ([7], 1, s')"
proof -
  have u: "unbuffered CallbackPoint_channel" "waiting CallbackPoint_channel = []"
    by (simp_all add: CallbackPoint_channel_def unbuffered_def LockedChannel_new_def)
  obtain s where s: "chan_Push 7 0 True CallbackPoint_channel = (Blocked, s)" "unbuffered s" "waiting s = [0]" "snd s 0 = 7"
    using unbuffered_Push [OF u(1), of 7 0] u(2) by auto
  then show ?thesis using callback_point_run [of s 5 2 0] by auto
qed

text \<open>Several workers and runs on one point. A worker is in \<open>Post\<close>, about to notify, or elsewhere; its address is its index.\<close>

datatype poster = W_idle | W_post nat | W_notify nat

record point_world =
  pch :: "nat chan_state"
  posters :: "poster list"
  posted :: "nat list"
  taken :: "nat list"
  notified :: "nat list"

definition point_world_new :: "nat \<Rightarrow> point_world" where
  "point_world_new n = \<lparr>pch = CallbackPoint_channel, posters = replicate n W_idle, posted = [], taken = [], notified = []\<rparr>"

definition poster_at :: "nat \<Rightarrow> poster \<Rightarrow> point_world \<Rightarrow> bool" where
  "poster_at t x w \<longleftrightarrow> t < length (posters w) \<and> posters w ! t = x"

definition point_Post :: "nat \<Rightarrow> nat \<Rightarrow> point_world \<Rightarrow> point_world" where
  "point_Post t c w = (let (r, s) = chan_Push c t True (pch w)
     in w\<lparr>pch := s, posters := (posters w)[t := if r = Blocked then W_post c else W_notify c], posted := posted w @ [c]\<rparr>)"

definition point_TryPop :: "addr \<Rightarrow> point_world \<Rightarrow> point_world" where
  "point_TryPop p w = (let (r, s) = chan_Pop p False (pch w)
     in w\<lparr>pch := s, taken := (if r = Done True then taken w @ [snd s p] else taken w)\<rparr>)"

inductive point_step :: "point_world \<Rightarrow> point_world \<Rightarrow> bool" where
  pt_post: "poster_at t W_idle w \<Longrightarrow> point_step w (point_Post t c w)"
| pt_run: "length (posters w) \<le> p \<Longrightarrow> point_step w (point_TryPop p w)"
| pt_resume: "poster_at t (W_post c) w \<Longrightarrow> t \<notin> set (waiting (pch w)) \<Longrightarrow> point_step w (w\<lparr>posters := (posters w)[t := W_notify c]\<rparr>)"
| pt_notify: "poster_at t (W_notify c) w \<Longrightarrow> point_step w (w\<lparr>posters := (posters w)[t := W_idle], notified := notified w @ [c]\<rparr>)"

fun in_hand :: "poster \<Rightarrow> nat multiset" where
  "in_hand (W_post c) = {#c#}" | "in_hand (W_notify c) = {#c#}" | "in_hand W_idle = {#}"

definition point_ok :: "point_world \<Rightarrow> bool" where
  "point_ok w \<longleftrightarrow> unbuffered (pch w) \<and> distinct (waiting (pch w)) \<and>
     (\<forall>t \<in> set (waiting (pch w)). poster_at t (W_post (snd (pch w) t)) w) \<and>
     posted w = taken w @ map (snd (pch w)) (waiting (pch w)) \<and>
     mset (posted w) = mset (notified w) + sum_list (map in_hand (posters w))"

lemma waiting_in_hand:
  "distinct ws \<Longrightarrow> \<forall>t \<in> set ws. t < length xs \<and> xs ! t = W_post (m t) \<Longrightarrow> mset (map m ws) \<subseteq># sum_list (map in_hand xs)"
proof (induction ws arbitrary: xs)
  case (Cons t ws)
  have "mset (map m ws) \<subseteq># sum_list (map in_hand (xs[t := W_idle]))" by (rule Cons.IH) (use Cons.prems in \<open>auto simp: nth_list_update\<close>)
  moreover have "sum_list (map in_hand (xs[t := W_idle])) + {#m t#} = sum_list (map in_hand xs)"
    using sum_list_moved [of t xs in_hand W_idle] Cons.prems(2) by simp
  ultimately show ?case by (metis add_mset_add_single list.simps(9) mset.simps(2) subset_mset.add_right_mono)
qed simp

lemma point_new: "point_ok (point_world_new n)"
proof -
  have "sum_list (map in_hand (replicate n W_idle)) = {#}" using no_slots [of n] by simp
  then show ?thesis by (simp add: point_ok_def point_world_new_def CallbackPoint_channel_def unbuffered_def LockedChannel_new_def)
qed

lemma point_moved:
  assumes "poster_at t x w"
  shows "sum_list (map in_hand ((posters w)[t := y])) + in_hand x = sum_list (map in_hand (posters w)) + in_hand y"
  using assms sum_list_moved [of t "posters w" in_hand y] by (simp add: poster_at_def)

lemma point_books: "point_ok w \<Longrightarrow> mset (posted w) = mset (notified w) + sum_list (map in_hand (posters w))"
  unfolding point_ok_def by (elim conjE)

lemma point_move:
  assumes ok: "point_ok w" and t: "poster_at t x w" and out: "t \<notin> set (waiting (pch w))"
    and h: "mset n + in_hand y = mset (notified w) + in_hand x"
  shows "point_ok (w\<lparr>posters := (posters w)[t := y], notified := n\<rparr>)"
proof -
  define w' where "w' = w\<lparr>posters := (posters w)[t := y], notified := n\<rparr>"
  have w': "pch w' = pch w" "posters w' = (posters w)[t := y]" "posted w' = posted w" "taken w' = taken w" "notified w' = n"
    by (simp_all add: w'_def)
  let ?h = "\<lambda>ps. sum_list (map in_hand ps)"
  have "mset n + ?h (posters w') + (in_hand x + in_hand y) = mset (notified w) + ?h (posters w) + (in_hand x + in_hand y)"
    using point_moved [OF t, of y] h unfolding w'(2) by (metis (no_types, lifting) add.assoc add.commute)
  then have "mset (posted w') = mset n + ?h (posters w')" unfolding w'(3) point_books [OF ok] by (metis add_right_cancel)
  moreover have "\<forall>u \<in> set (waiting (pch w)). poster_at u (W_post (snd (pch w) u)) w'"
  proof
    fix u
    assume u: "u \<in> set (waiting (pch w))"
    then have "u \<noteq> t" and "poster_at u (W_post (snd (pch w) u)) w" using out ok by (auto simp: point_ok_def)
    then show "poster_at u (W_post (snd (pch w) u)) w'" by (simp add: poster_at_def w'(2))
  qed
  ultimately show ?thesis using ok unfolding w'_def [symmetric] point_ok_def w'(1,3,4,5) by blast
qed

lemma point_Post_ok:
  assumes ok: "point_ok w" and t: "poster_at t W_idle w"
  shows "point_ok (point_Post t c w)"
proof -
  obtain s where s: "chan_Push c t True (pch w) = (Blocked, s)" "unbuffered s" "waiting s = waiting (pch w) @ [t]" "snd s = (snd (pch w))(t := c)"
    using unbuffered_Push [of "pch w" c t] ok by (auto simp: point_ok_def)
  have new: "t \<notin> set (waiting (pch w))" using ok t by (auto simp: point_ok_def poster_at_def)
  have m: "map (snd s) (waiting (pch w)) = map (snd (pch w)) (waiting (pch w))" using map_upd_notin [OF new] s(4) by metis
  define w' where "w' = point_Post t c w"
  have w': "pch w' = s" "posters w' = (posters w)[t := W_post c]" "posted w' = posted w @ [c]" "taken w' = taken w" "notified w' = notified w"
    using s(1) by (simp_all add: w'_def point_Post_def)
  have at: "\<forall>u \<in> set (waiting s). poster_at u (W_post (snd s u)) w'"
  proof
    fix u
    assume u: "u \<in> set (waiting s)"
    show "poster_at u (W_post (snd s u)) w'"
    proof (cases "u = t")
      case True
      then show ?thesis using t w'(2) s(4) by (simp add: poster_at_def)
    next
      case False
      then have "poster_at u (W_post (snd (pch w) u)) w" using u s(3) ok by (simp add: point_ok_def)
      then show ?thesis using False w'(2) s(4) by (simp add: poster_at_def)
    qed
  qed
  have "posted w' = taken w' @ map (snd s) (waiting s)" using ok m by (simp add: w' s(3) point_ok_def) (simp add: s(4))
  moreover have "mset (posted w') = mset (notified w') + sum_list (map in_hand (posters w'))"
    using point_moved [OF t, of "W_post c"] point_books [OF ok] by (simp add: w')
  moreover have "distinct (waiting s)" using ok new s(3) by (simp add: point_ok_def)
  ultimately show ?thesis using s(2) at unfolding w'_def [symmetric] point_ok_def w'(1) by blast
qed

lemma point_TryPop_ok:
  assumes ok: "point_ok w" and p: "length (posters w) \<le> p"
  shows "point_ok (point_TryPop p w)"
proof (cases "waiting (pch w)")
  case Nil
  obtain s where s: "chan_Pop p False (pch w) = (Done False, s)" "unbuffered s" "waiting s = []" "snd s = snd (pch w)"
    using unbuffered_Pop_none [OF _ Nil, of p] ok by (auto simp: point_ok_def)
  then have "point_TryPop p w = w\<lparr>pch := s\<rparr>" by (simp add: point_TryPop_def)
  moreover have "posted w = taken w" using ok Nil by (simp add: point_ok_def)
  ultimately show ?thesis using s(2,3) point_books [OF ok] unfolding point_ok_def by simp
next
  case (Cons q ws)
  obtain s where s: "chan_Pop p False (pch w) = (Done True, s)" "unbuffered s" "waiting s = ws" "snd s = (snd (pch w))(p := snd (pch w) q)"
    using unbuffered_Pop [OF _ Cons, of p] ok by (auto simp: point_ok_def)
  have old: "\<forall>u \<in> set (q # ws). u < length (posters w) \<and> posters w ! u = W_post (snd (pch w) u)" using ok Cons by (simp add: point_ok_def poster_at_def)
  then have np: "p \<notin> set ws" using p by auto
  then have m: "map (snd s) ws = map (snd (pch w)) ws" using map_upd_notin s(4) by metis
  define w' where "w' = point_TryPop p w"
  have w': "pch w' = s" "posters w' = posters w" "posted w' = posted w" "taken w' = taken w @ [snd (pch w) q]" "notified w' = notified w"
    using s(1,4) by (simp_all add: w'_def point_TryPop_def)
  have "posted w' = taken w' @ map (snd s) (waiting s)" using ok m Cons by (simp add: w' s(3) point_ok_def)
  moreover have "\<forall>u \<in> set (waiting s). poster_at u (W_post (snd s u)) w'" using old np s(3,4) w'(2) by (auto simp: poster_at_def)
  moreover have "distinct (waiting s)" using ok Cons s(3) by (simp add: point_ok_def)
  moreover have "mset (posted w') = mset (notified w') + sum_list (map in_hand (posters w'))" using point_books [OF ok] by (simp add: w')
  ultimately show ?thesis using s(2) unfolding w'_def [symmetric] point_ok_def w'(1) by blast
qed

lemma point_step_ok: "point_step w w' \<Longrightarrow> point_ok w \<Longrightarrow> point_ok w'"
proof (induction rule: point_step.induct)
  case (pt_post t w c)
  then show ?case by (blast intro: point_Post_ok)
next
  case (pt_run w p)
  then show ?case by (blast intro: point_TryPop_ok)
next
  case (pt_resume t c w)
  then show ?case using point_move [of w t "W_post c" "notified w" "W_notify c"] by simp
next
  case (pt_notify t c w)
  have "t \<notin> set (waiting (pch w))" using pt_notify by (auto simp: point_ok_def poster_at_def)
  then show ?case using pt_notify point_move [of w t "W_notify c" "notified w @ [c]" W_idle] by simp
qed

lemma below_of_sums: "(P :: 'a multiset) \<subseteq># H \<Longrightarrow> A + P = N + H \<Longrightarrow> N \<subseteq># A"
  by (auto simp: subset_mset.le_iff_add ac_simps)

text \<open>C12: for every schedule of workers and runs of a callback point, the callbacks taken are a prefix of those posted, in the same order
  and none twice; the rest are held by blocked workers. A worker notifies only after its callback has been taken, so a client that waits
  for the notification before it calls \<open>Run\<close> waits forever.\<close>

theorem callback_point_order:
  assumes "point_step\<^sup>*\<^sup>* (point_world_new n) w"
  shows "posted w = taken w @ map (snd (pch w)) (waiting (pch w)) \<and> mset (notified w) \<subseteq># mset (taken w) \<and>
    (\<forall>t \<in> set (waiting (pch w)). poster_at t (W_post (snd (pch w) t)) w)"
proof -
  have ok: "point_ok w" using assms by (induction rule: rtranclp_induct) (blast intro: point_new point_step_ok)+
  let ?p = "mset (map (snd (pch w)) (waiting (pch w)))" and ?h = "sum_list (map in_hand (posters w))"
  have "?p \<subseteq># ?h" by (rule waiting_in_hand) (use ok in \<open>auto simp: point_ok_def poster_at_def\<close>)
  moreover have "mset (taken w) + ?p = mset (notified w) + ?h" using ok unfolding point_ok_def by (metis mset_append)
  ultimately have "mset (notified w) \<subseteq># mset (taken w)" by (rule below_of_sums)
  then show ?thesis using ok unfolding point_ok_def by blast
qed

lemma callback_point_order_witness:
  "\<exists>w. point_step\<^sup>*\<^sup>* (point_world_new 1) w \<and> posted w = [7] \<and> taken w = [] \<and> notified w = []"
proof -
  let ?w = "point_Post 0 7 (point_world_new 1)"
  have at: "poster_at 0 W_idle (point_world_new 1)" by (simp add: poster_at_def point_world_new_def)
  have r: "point_step\<^sup>*\<^sup>* (point_world_new 1) ?w" by (rule r_into_rtranclp [of point_step]) (rule pt_post [OF at])
  have f: "posted ?w = [7]" "taken ?w = []" by (simp_all add: point_Post_def point_world_new_def case_prod_beta Let_def)
  moreover have "notified ?w = []" using callback_point_order [OF r] f(2) by simp
  ultimately show ?thesis using r by blast
qed

end
