(* ===== verification/Cas_Channel.thy ===== *)
theory Cas_Channel
  imports Co_Prelude "HOL-Library.Multiset"
begin

unbundle bit_operations_syntax

text \<open>
  The lock-free channel of \<open>include/co/sync/cas_channel_impl.h\<close>, chosen by \<open>Channel\<close> for small capacities. One 64-bit word counts the
  readers (upper half) and the writers (lower half) that have claimed a place; the values and the blocked callers are in two wait queues.
  Calls run concurrently: a step is one access to the word, one operation of a wait queue, which has its own lock, or one access to
  \<open>closed_\<close>. Calls have no deadline, so a notification always finds its waiter (\<open>handshake_deadlock_free\<close> in \<open>Cond_Var\<close>); the
  wait queue of the writers is the list of its entries, and the entry at its position functor is the first one that waits. Yields and the
  pruning of invalid entries, which do not occur without deadlines, are left out.
\<close>

subsection \<open>The word\<close>

definition write1 :: u64 where "write1 = 1"
definition writeMask :: u64 where "writeMask = 0xffffffff"
definition read1 :: u64 where "read1 = push_bit 32 1"
definition readMask :: u64 where "readMask = 0xffffffff00000000"

definition counters :: "nat \<Rightarrow> nat \<Rightarrow> u64" where
  "counters r w = of_nat (w + 2 ^ 32 * r)"

lemma unat_counters: "r < 2 ^ 32 \<Longrightarrow> w < 2 ^ 32 \<Longrightarrow> unat (counters r w) = w + 2 ^ 32 * r"
  unfolding counters_def by (rule unat_of_nat_u64) simp

lemma counters_write: "r < 2 ^ 32 \<Longrightarrow> w < 2 ^ 32 \<Longrightarrow> counters r w AND writeMask = 0 \<longleftrightarrow> w = 0"
proof -
  assume b: "r < 2 ^ 32" "w < 2 ^ 32"
  have "writeMask = mask 32" by (simp add: writeMask_def mask_eq_exp_minus_1)
  then have "counters r w AND writeMask = take_bit 32 (counters r w)" by (simp only: take_bit_eq_mask)
  then have "unat (counters r w AND writeMask) = w"
    by (simp only: unsigned_take_bit_eq unat_counters [OF b]) (use b in \<open>simp add: take_bit_eq_mod\<close>)
  then show ?thesis by (metis unat_0 word_unat_eq_iff)
qed

lemma counters_read: "r < 2 ^ 32 \<Longrightarrow> w < 2 ^ 32 \<Longrightarrow> counters r w AND readMask = 0 \<longleftrightarrow> r = 0"
proof -
  assume b: "r < 2 ^ 32" "w < 2 ^ 32"
  have "readMask = NOT (mask 32)" by (simp add: readMask_def mask_eq_exp_minus_1 not_eq_complement)
  then have "counters r w AND readMask = push_bit 32 (drop_bit 32 (counters r w))"
    by (auto simp: bit_eq_iff bit_simps)
  moreover have "drop_bit 32 (counters r w) = of_nat r"
    using b unat_counters [OF b] by (simp add: drop_bit_eq_div word_unat_eq_iff unat_div unat_of_nat_u64)
  moreover have "push_bit 32 (of_nat r :: u64) = counters r 0" by (simp add: push_bit_eq_mult counters_def ac_simps)
  ultimately show ?thesis using b unat_counters [of r 0] by (auto simp: word_unat_eq_iff)
qed

lemma counters_steps:
  "counters r w + write1 = counters r (Suc w)" "counters r (Suc w) - write1 = counters r w"
  "counters r w + read1 = counters (Suc r) w" "counters (Suc r) w - read1 = counters r w"
  by (simp_all add: counters_def write1_def read1_def push_bit_eq_mult algebra_simps)

subsection \<open>State\<close>

text \<open>Where a thread stands: in \<open>Push\<close> with the value and \<open>bWait\<close>, in \<open>Pop\<close> with \<open>bWait\<close>, or in \<open>Close\<close>.\<close>

datatype cas_pc =
    T_idle
  | P_top nat bool | P_load nat bool | P_notify nat bool | P_fail nat bool | P_dec | P_check nat bool u64 | P_cas nat bool u64
  | P_enq nat bool | P_undo | P_wait | P_woken
  | L_load bool | L_notify bool | L_fail bool | L_dec nat | L_check bool u64 | L_cas bool u64
  | L_enq | L_undo | L_wait | L_woken "nat option"
  | K_set | K_readers | K_writers

record cas_entry =
  owner :: nat
  val :: nat
  waits :: bool

record cas_chan =
  wait_word :: u64
  ccap :: nat
  shut :: bool                 \<comment> \<open>\<open>closed_\<close>\<close>
  wqueue :: "cas_entry list"
  rqueue :: "nat list"         \<comment> \<open>blocked readers, oldest first\<close>
  pcs :: "cas_pc list"
  accepted :: "nat list"       \<comment> \<open>values in the order in which they entered the channel\<close>
  delivered :: "nat list"      \<comment> \<open>values in the order in which readers took them\<close>
  dropped :: "nat list"        \<comment> \<open>values discarded by \<open>Close\<close>\<close>
  leak_r :: nat                \<comment> \<open>readers woken by \<open>Close\<close>, still counted\<close>
  leak_w :: nat

definition CASChannelImpl_new :: "nat \<Rightarrow> nat \<Rightarrow> cas_chan" where
  "CASChannelImpl_new n cap =
     \<lparr>wait_word = 0, ccap = cap, shut = False, wqueue = [], rqueue = [], pcs = replicate n T_idle, accepted = [], delivered = [],
      dropped = [], leak_r = 0, leak_w = 0\<rparr>"

definition pc_to :: "nat \<Rightarrow> cas_pc \<Rightarrow> cas_chan \<Rightarrow> cas_chan" where
  "pc_to t x c = c\<lparr>pcs := (pcs c)[t := x]\<rparr>"

definition at_pc :: "nat \<Rightarrow> cas_pc \<Rightarrow> cas_chan \<Rightarrow> bool" where
  "at_pc t x c \<longleftrightarrow> t < length (pcs c) \<and> pcs c ! t = x"

subsection \<open>The wait queue of the writers\<close>

text \<open>The position functor of \<open>wq_\<close>: when an entry leaves, the first waiting one is notified and becomes a buffered value.\<close>

fun promote :: "cas_entry list \<Rightarrow> nat option \<times> cas_entry list" where
  "promote [] = (None, [])"
| "promote (e # es) = (if waits e then (Some (owner e), e\<lparr>waits := False\<rparr> # es) else (let (t, es') = promote es in (t, e # es')))"

definition wake :: "nat option \<Rightarrow> cas_chan \<Rightarrow> cas_chan" where
  "wake t c = (case t of None \<Rightarrow> c | Some u \<Rightarrow> pc_to u P_woken c)"

text \<open>\<open>wq_.notify_one\<close> with a pending entry: it is unlinked, its writer is woken if it waits, and the position moves.\<close>

definition wq_pop :: "cas_chan \<Rightarrow> (nat \<times> cas_chan) option" where
  "wq_pop c = (case wqueue c of
      [] \<Rightarrow> None
    | e # es \<Rightarrow> (let (u, es') = (if 0 < ccap c then promote es else (None, es))
                 in Some (val e, wake u (wake (if waits e then Some (owner e) else None) (c\<lparr>wqueue := es'\<rparr>)))))"

subsection \<open>\<open>Push\<close>\<close>

definition Push_top :: "nat \<Rightarrow> nat \<Rightarrow> bool \<Rightarrow> cas_chan \<Rightarrow> cas_chan" where
  "Push_top t v b c = pc_to t (if shut c then T_idle else P_load v b) c"

definition Push_load :: "nat \<Rightarrow> nat \<Rightarrow> bool \<Rightarrow> cas_chan \<Rightarrow> cas_chan" where
  "Push_load t v b c = pc_to t (if wait_word c AND readMask \<noteq> 0 then P_notify v b
      else if ccap c = 0 then P_check v b (wait_word c) else P_cas v b (wait_word c)) c"

definition Push_notify :: "nat \<Rightarrow> nat \<Rightarrow> bool \<Rightarrow> cas_chan \<Rightarrow> cas_chan" where
  "Push_notify t v b c = (case rqueue c of
      [] \<Rightarrow> pc_to t (P_fail v b) c
    | r # rs \<Rightarrow> pc_to t P_dec (pc_to r (L_woken (Some v)) (c\<lparr>rqueue := rs, accepted := accepted c @ [v], delivered := delivered c @ [v]\<rparr>)))"

definition Push_fail :: "nat \<Rightarrow> nat \<Rightarrow> bool \<Rightarrow> cas_chan \<Rightarrow> cas_chan" where
  "Push_fail t v b c = pc_to t (if ccap c = 0 \<and> (shut c \<or> \<not> b) then T_idle else P_load v b) c"

definition Push_dec :: "nat \<Rightarrow> cas_chan \<Rightarrow> cas_chan" where
  "Push_dec t c = pc_to t T_idle (c\<lparr>wait_word := wait_word c - read1\<rparr>)"

definition Push_check :: "nat \<Rightarrow> nat \<Rightarrow> bool \<Rightarrow> u64 \<Rightarrow> cas_chan \<Rightarrow> cas_chan" where
  "Push_check t v b w c = pc_to t (if shut c \<or> \<not> b then T_idle else P_cas v b w) c"

definition Push_cas :: "bool \<Rightarrow> nat \<Rightarrow> nat \<Rightarrow> bool \<Rightarrow> u64 \<Rightarrow> cas_chan \<Rightarrow> cas_chan" where
  "Push_cas spurious t v b w c =
     (if wait_word c = w \<and> \<not> spurious then pc_to t (P_enq v b) (c\<lparr>wait_word := w + write1\<rparr>) else pc_to t (P_load v b) c)"

text \<open>\<open>wq_.wait\<close> up to the suspension, with the condition of \<open>Push\<close>.\<close>

definition Push_enq :: "nat \<Rightarrow> nat \<Rightarrow> bool \<Rightarrow> cas_chan \<Rightarrow> cas_chan" where
  "Push_enq t v b c =
     (if shut c then pc_to t P_undo c
      else if length (wqueue c) < ccap c
      then pc_to t T_idle (c\<lparr>wqueue := wqueue c @ [\<lparr>owner = t, val = v, waits = False\<rparr>], accepted := accepted c @ [v]\<rparr>)
      else if \<not> b then pc_to t P_undo c
      else pc_to t P_wait (c\<lparr>wqueue := wqueue c @ [\<lparr>owner = t, val = v, waits = True\<rparr>], accepted := accepted c @ [v]\<rparr>))"

definition Push_undo :: "nat \<Rightarrow> cas_chan \<Rightarrow> cas_chan" where
  "Push_undo t c = pc_to t T_idle (c\<lparr>wait_word := wait_word c - write1\<rparr>)"

subsection \<open>\<open>Pop\<close> and \<open>Close\<close>\<close>

definition Pop_load :: "nat \<Rightarrow> bool \<Rightarrow> cas_chan \<Rightarrow> cas_chan" where
  "Pop_load t b c = pc_to t (if wait_word c AND writeMask \<noteq> 0 then L_notify b else L_check b (wait_word c)) c"

definition Pop_notify :: "nat \<Rightarrow> bool \<Rightarrow> cas_chan \<Rightarrow> cas_chan" where
  "Pop_notify t b c = (case wq_pop c of
      None \<Rightarrow> pc_to t (L_fail b) c
    | Some (v, c') \<Rightarrow> pc_to t (L_dec v) (c'\<lparr>delivered := delivered c' @ [v]\<rparr>))"

definition Pop_fail :: "nat \<Rightarrow> bool \<Rightarrow> cas_chan \<Rightarrow> cas_chan" where
  "Pop_fail t b c = pc_to t (if shut c \<or> \<not> b then T_idle else L_load b) c"

definition Pop_dec :: "nat \<Rightarrow> cas_chan \<Rightarrow> cas_chan" where
  "Pop_dec t c = pc_to t T_idle (c\<lparr>wait_word := wait_word c - write1\<rparr>)"

definition Pop_check :: "nat \<Rightarrow> bool \<Rightarrow> u64 \<Rightarrow> cas_chan \<Rightarrow> cas_chan" where
  "Pop_check t b w c = pc_to t (if shut c \<or> \<not> b then T_idle else L_cas b w) c"

definition Pop_cas :: "bool \<Rightarrow> nat \<Rightarrow> bool \<Rightarrow> u64 \<Rightarrow> cas_chan \<Rightarrow> cas_chan" where
  "Pop_cas spurious t b w c =
     (if wait_word c = w \<and> \<not> spurious then pc_to t L_enq (c\<lparr>wait_word := w + read1\<rparr>) else pc_to t (L_load b) c)"

definition Pop_enq :: "nat \<Rightarrow> cas_chan \<Rightarrow> cas_chan" where
  "Pop_enq t c = (if shut c then pc_to t L_undo c else pc_to t L_wait (c\<lparr>rqueue := rqueue c @ [t]\<rparr>))"

definition Pop_undo :: "nat \<Rightarrow> cas_chan \<Rightarrow> cas_chan" where
  "Pop_undo t c = pc_to t T_idle (c\<lparr>wait_word := wait_word c - read1\<rparr>)"

definition Close_top :: "nat \<Rightarrow> cas_chan \<Rightarrow> cas_chan" where
  "Close_top t c = pc_to t (if shut c then T_idle else K_set) c"

definition Close_readers :: "nat \<Rightarrow> cas_chan \<Rightarrow> cas_chan" where
  "Close_readers t c = (case rqueue c of
      [] \<Rightarrow> pc_to t K_writers c
    | r # rs \<Rightarrow> pc_to r (L_woken None) (c\<lparr>rqueue := rs, leak_r := leak_r c + 1\<rparr>))"

definition Close_writers :: "nat \<Rightarrow> cas_chan \<Rightarrow> cas_chan" where
  "Close_writers t c = (case wq_pop c of
      None \<Rightarrow> pc_to t T_idle c
    | Some (v, c') \<Rightarrow> c'\<lparr>dropped := dropped c' @ [v], leak_w := leak_w c' + 1\<rparr>)"

text \<open>\<open>Empty\<close> and \<open>Size\<close>; the function \<open>size\<close> of the condition variable is declared \<open>bool\<close>.\<close>

definition cv_size :: "'a list \<Rightarrow> nat" where
  "cv_size es = (if length es = 0 then 0 else 1)"

definition CAS_Empty :: "cas_chan \<Rightarrow> bool" where
  "CAS_Empty c \<longleftrightarrow> length (wqueue c) = 0"

definition CAS_Size :: "cas_chan \<Rightarrow> nat" where
  "CAS_Size c = min (ccap c) (cv_size (wqueue c))"

lemma CAS_Size_one: "CAS_Size c \<le> 1"
  by (simp add: CAS_Size_def cv_size_def)

inductive cas_step :: "cas_chan \<Rightarrow> cas_chan \<Rightarrow> bool" where
  cs_push: "at_pc t T_idle c \<Longrightarrow> cas_step c (pc_to t (P_top v b) c)"
| cs_p_top: "at_pc t (P_top v b) c \<Longrightarrow> cas_step c (Push_top t v b c)"
| cs_p_load: "at_pc t (P_load v b) c \<Longrightarrow> cas_step c (Push_load t v b c)"
| cs_p_notify: "at_pc t (P_notify v b) c \<Longrightarrow> cas_step c (Push_notify t v b c)"
| cs_p_fail: "at_pc t (P_fail v b) c \<Longrightarrow> cas_step c (Push_fail t v b c)"
| cs_p_dec: "at_pc t P_dec c \<Longrightarrow> cas_step c (Push_dec t c)"
| cs_p_check: "at_pc t (P_check v b w) c \<Longrightarrow> cas_step c (Push_check t v b w c)"
| cs_p_cas: "at_pc t (P_cas v b w) c \<Longrightarrow> cas_step c (Push_cas spurious t v b w c)"
| cs_p_enq: "at_pc t (P_enq v b) c \<Longrightarrow> cas_step c (Push_enq t v b c)"
| cs_p_undo: "at_pc t P_undo c \<Longrightarrow> cas_step c (Push_undo t c)"
| cs_p_woken: "at_pc t P_woken c \<Longrightarrow> cas_step c (pc_to t T_idle c)"
| cs_pop: "at_pc t T_idle c \<Longrightarrow> cas_step c (pc_to t (L_load b) c)"
| cs_l_load: "at_pc t (L_load b) c \<Longrightarrow> cas_step c (Pop_load t b c)"
| cs_l_notify: "at_pc t (L_notify b) c \<Longrightarrow> cas_step c (Pop_notify t b c)"
| cs_l_fail: "at_pc t (L_fail b) c \<Longrightarrow> cas_step c (Pop_fail t b c)"
| cs_l_dec: "at_pc t (L_dec v) c \<Longrightarrow> cas_step c (Pop_dec t c)"
| cs_l_check: "at_pc t (L_check b w) c \<Longrightarrow> cas_step c (Pop_check t b w c)"
| cs_l_cas: "at_pc t (L_cas b w) c \<Longrightarrow> cas_step c (Pop_cas spurious t b w c)"
| cs_l_enq: "at_pc t L_enq c \<Longrightarrow> cas_step c (Pop_enq t c)"
| cs_l_undo: "at_pc t L_undo c \<Longrightarrow> cas_step c (Pop_undo t c)"
| cs_l_woken: "at_pc t (L_woken x) c \<Longrightarrow> cas_step c (pc_to t T_idle c)"
| cs_close: "at_pc t T_idle c \<Longrightarrow> cas_step c (Close_top t c)"
| cs_k_set: "at_pc t K_set c \<Longrightarrow> cas_step c (pc_to t K_readers (c\<lparr>shut := True\<rparr>))"
| cs_k_readers: "at_pc t K_readers c \<Longrightarrow> cas_step c (Close_readers t c)"
| cs_k_writers: "at_pc t K_writers c \<Longrightarrow> cas_step c (Close_writers t c)"

subsection \<open>Invariant\<close>

fun claims_w :: "cas_pc \<Rightarrow> nat" where
  "claims_w (P_enq v b) = 1" | "claims_w P_undo = 1" | "claims_w (L_dec v) = 1" | "claims_w _ = 0"

fun claims_r :: "cas_pc \<Rightarrow> nat" where
  "claims_r L_enq = 1" | "claims_r L_undo = 1" | "claims_r P_dec = 1" | "claims_r _ = 0"

abbreviation inflight :: "(cas_pc \<Rightarrow> nat) \<Rightarrow> cas_chan \<Rightarrow> nat" where
  "inflight f c \<equiv> sum_list (map f (pcs c))"

definition readers_of :: "cas_chan \<Rightarrow> nat" where
  "readers_of c = length (rqueue c) + inflight claims_r c + leak_r c"

definition writers_of :: "cas_chan \<Rightarrow> nat" where
  "writers_of c = length (wqueue c) + inflight claims_w c + leak_w c"

definition waiting_owners :: "cas_entry list \<Rightarrow> nat list" where
  "waiting_owners es = map owner (filter waits es)"

definition wq_shape :: "nat \<Rightarrow> cas_entry list \<Rightarrow> bool" where
  "wq_shape cap es \<longleftrightarrow> (\<exists>bs ws. es = bs @ ws \<and> (\<forall>e \<in> set bs. \<not> waits e) \<and> (\<forall>e \<in> set ws. waits e) \<and>
     length bs \<le> cap \<and> (ws \<noteq> [] \<longrightarrow> length bs = cap))"

text \<open>What the local variables of a thread promise.\<close>

fun pc_ok :: "bool \<Rightarrow> cas_pc \<Rightarrow> bool" where
  "pc_ok sh (P_check v b w) = (w AND readMask = 0)"
| "pc_ok sh (P_cas v b w) = (w AND readMask = 0)"
| "pc_ok sh (L_check b w) = (w AND writeMask = 0)"
| "pc_ok sh (L_cas b w) = (w AND writeMask = 0)"
| "pc_ok sh K_readers = sh"
| "pc_ok sh K_writers = sh"
| "pc_ok sh _ = True"

text \<open>\<open>kr\<close> and \<open>kw\<close>: places counted for a step under way; \<open>E\<close>: the value it holds.\<close>

definition word_inv :: "nat \<Rightarrow> nat \<Rightarrow> cas_chan \<Rightarrow> bool" where
  "word_inv kr kw c \<longleftrightarrow> wait_word c = counters (readers_of c + kr) (writers_of c + kw) \<and> (readers_of c + kr = 0 \<or> writers_of c + kw = 0) \<and>
     length (wqueue c) + leak_w c \<le> ccap c + length (pcs c) \<and> length (rqueue c) + leak_r c \<le> length (pcs c) \<and>
     ccap c + 2 * length (pcs c) + 2 < 2 ^ 32"

definition value_inv :: "nat list \<Rightarrow> cas_chan \<Rightarrow> bool" where
  "value_inv E c \<longleftrightarrow> mset (accepted c) = mset (delivered c) + mset (dropped c) + mset E + mset (map val (wqueue c)) \<and>
     (\<not> shut c \<longrightarrow> leak_r c = 0 \<and> leak_w c = 0 \<and> accepted c = delivered c @ E @ map val (wqueue c))"

definition queue_inv :: "cas_chan \<Rightarrow> bool" where
  "queue_inv c \<longleftrightarrow> distinct (rqueue c) \<and> (\<forall>t. t \<in> set (rqueue c) \<longleftrightarrow> at_pc t L_wait c) \<and> wq_shape (ccap c) (wqueue c) \<and>
     distinct (waiting_owners (wqueue c)) \<and> (\<forall>t. t \<in> set (waiting_owners (wqueue c)) \<longleftrightarrow> at_pc t P_wait c) \<and>
     (\<forall>x \<in> set (pcs c). pc_ok (shut c) x)"

definition cas_inv :: "nat \<Rightarrow> nat \<Rightarrow> nat list \<Rightarrow> cas_chan \<Rightarrow> bool" where
  "cas_inv kr kw E c \<longleftrightarrow> word_inv kr kw c \<and> value_inv E c \<and> queue_inv c"

lemma pc_to_sel [simp]:
  "wait_word (pc_to t x c) = wait_word c" "ccap (pc_to t x c) = ccap c" "shut (pc_to t x c) = shut c" "wqueue (pc_to t x c) = wqueue c"
  "rqueue (pc_to t x c) = rqueue c" "accepted (pc_to t x c) = accepted c" "delivered (pc_to t x c) = delivered c"
  "dropped (pc_to t x c) = dropped c" "leak_r (pc_to t x c) = leak_r c" "leak_w (pc_to t x c) = leak_w c"
  "pcs (pc_to t x c) = (pcs c)[t := x]"
  by (simp_all add: pc_to_def)

lemma at_pc_to: "at_pc u y (pc_to t x c) \<longleftrightarrow> (if u = t then t < length (pcs c) \<and> y = x else at_pc u y c)"
  by (auto simp: at_pc_def)

lemma inflight_moved:
  "at_pc t x c \<Longrightarrow> sum_list (map f ((pcs c)[t := y])) + f x = inflight f c + (f y :: nat)"
  using sum_list_moved [of t "pcs c" f y] by (simp add: at_pc_def)

lemma inflight_bound: "(\<And>x. f x \<le> 1) \<Longrightarrow> sum_list (map f (xs :: cas_pc list)) \<le> length xs"
proof (induction xs)
  case (Cons x xs)
  show ?case using add_mono [OF Cons.prems [of x] Cons.IH [OF Cons.prems]] by simp
qed simp

lemma claims_le: "claims_w x \<le> 1" "claims_r x \<le> 1"
  by (cases x; simp)+

lemma word_small: "word_inv kr kw c \<Longrightarrow> kr \<le> 1 \<Longrightarrow> kw \<le> 1 \<Longrightarrow> readers_of c + kr < 2 ^ 32 \<and> writers_of c + kw < 2 ^ 32"
  using inflight_bound [of claims_r "pcs c"] inflight_bound [of claims_w "pcs c"] claims_le
  by (auto simp: word_inv_def readers_of_def writers_of_def)

text \<open>A thread moves to a place where it waits for nobody.\<close>

lemma word_move:
  assumes "word_inv kr kw c" and "at_pc t x c" and "kr' + claims_r y = kr + claims_r x" and "kw' + claims_w y = kw + claims_w x"
  shows "word_inv kr' kw' (pc_to t y c)"
proof -
  have "readers_of (pc_to t y c) + kr' = readers_of c + kr" "writers_of (pc_to t y c) + kw' = writers_of c + kw"
    using inflight_moved [OF assms(2), of claims_r y] inflight_moved [OF assms(2), of claims_w y] assms(3,4)
    by (simp_all add: readers_of_def writers_of_def)
  then show ?thesis using assms(1) by (simp add: word_inv_def)
qed

lemma value_move: "value_inv E c \<Longrightarrow> value_inv E (pc_to t y c)"
  by (simp add: value_inv_def)

lemma queue_move:
  assumes "queue_inv c" and "at_pc t x c" and "x \<notin> {L_wait, P_wait}" and "y \<notin> {L_wait, P_wait}" and "pc_ok (shut c) y"
  shows "queue_inv (pc_to t y c)"
proof -
  have "at_pc u L_wait (pc_to t y c) = at_pc u L_wait c" "at_pc u P_wait (pc_to t y c) = at_pc u P_wait c" for u
    using assms(2-4) by (auto simp: at_pc_to) (auto simp: at_pc_def)
  moreover have "z \<in> set ((pcs c)[t := y]) \<Longrightarrow> pc_ok (shut c) z" for z
    using assms(1,5) set_update_subset_insert [of "pcs c" t y] by (auto simp: queue_inv_def)
  ultimately show ?thesis using assms(1) by (simp add: queue_inv_def)
qed

lemma cas_move:
  assumes "cas_inv kr kw E c" and "at_pc t x c" and "x \<notin> {L_wait, P_wait}" and "y \<notin> {L_wait, P_wait}" and "pc_ok (shut c) y"
    and "kr' + claims_r y = kr + claims_r x" and "kw' + claims_w y = kw + claims_w x"
  shows "cas_inv kr' kw' E (pc_to t y c)"
  using assms word_move [OF _ assms(2,6,7)] value_move queue_move [OF _ assms(2-5)] by (simp add: cas_inv_def)

text \<open>The accesses to the word.\<close>

lemma word_upd [simp]:
  "at_pc t x (c\<lparr>wait_word := w\<rparr>) = at_pc t x c" "value_inv E (c\<lparr>wait_word := w\<rparr>) = value_inv E c" "queue_inv (c\<lparr>wait_word := w\<rparr>) = queue_inv c"
  "readers_of (c\<lparr>wait_word := w\<rparr>) = readers_of c" "writers_of (c\<lparr>wait_word := w\<rparr>) = writers_of c"
  by (simp_all add: at_pc_def value_inv_def queue_inv_def readers_of_def writers_of_def)

lemma ghost_upd [simp]:
  "word_inv kr kw (c\<lparr>accepted := a\<rparr>) = word_inv kr kw c" "word_inv kr kw (c\<lparr>delivered := a\<rparr>) = word_inv kr kw c"
  "word_inv kr kw (c\<lparr>dropped := a\<rparr>) = word_inv kr kw c"
  "queue_inv (c\<lparr>accepted := a\<rparr>) = queue_inv c" "queue_inv (c\<lparr>delivered := a\<rparr>) = queue_inv c" "queue_inv (c\<lparr>dropped := a\<rparr>) = queue_inv c"
  by (simp_all add: word_inv_def queue_inv_def readers_of_def writers_of_def at_pc_def)

lemma inv_sub_w: "cas_inv kr (Suc kw) E c \<Longrightarrow> cas_inv kr kw E (c\<lparr>wait_word := wait_word c - write1\<rparr>)"
  by (auto simp: cas_inv_def word_inv_def counters_steps)

lemma inv_sub_r: "cas_inv (Suc kr) kw E c \<Longrightarrow> cas_inv kr kw E (c\<lparr>wait_word := wait_word c - read1\<rparr>)"
  by (auto simp: cas_inv_def word_inv_def counters_steps)

lemma no_readers: "cas_inv 0 0 E c \<Longrightarrow> wait_word c AND readMask = 0 \<longleftrightarrow> readers_of c = 0"
  using word_small [of 0 0 c] counters_read [of "readers_of c" "writers_of c"] by (simp add: cas_inv_def word_inv_def)

lemma no_writers: "cas_inv 0 0 E c \<Longrightarrow> wait_word c AND writeMask = 0 \<longleftrightarrow> writers_of c = 0"
  using word_small [of 0 0 c] counters_write [of "readers_of c" "writers_of c"] by (simp add: cas_inv_def word_inv_def)

lemma inv_add_w: "cas_inv 0 0 E c \<Longrightarrow> wait_word c AND readMask = 0 \<Longrightarrow> cas_inv 0 1 E (c\<lparr>wait_word := wait_word c + write1\<rparr>)"
  using no_readers by (auto simp: cas_inv_def word_inv_def counters_steps)

lemma inv_add_r: "cas_inv 0 0 E c \<Longrightarrow> wait_word c AND writeMask = 0 \<Longrightarrow> cas_inv 1 0 E (c\<lparr>wait_word := wait_word c + read1\<rparr>)"
  using no_writers by (auto simp: cas_inv_def word_inv_def counters_steps)

text \<open>The queue of readers.\<close>

lemma inv_rq_pop:
  assumes "cas_inv 0 0 E c" and rq: "rqueue c = r # rs"
  shows "cas_inv 1 0 E (pc_to r (L_woken z) (c\<lparr>rqueue := rs\<rparr>)) \<and> at_pc r L_wait c"
proof -
  have w: "word_inv 0 0 c" and v: "value_inv E c" and q: "queue_inv c" using assms(1) by (simp_all add: cas_inv_def)
  define c1 where "c1 = pc_to r (L_woken z) (c\<lparr>rqueue := rs\<rparr>)"
  have r: "at_pc r L_wait c" and rn: "r \<notin> set rs" and d: "distinct rs" using q rq by (auto simp: queue_inv_def)
  have at: "at_pc u y c1 = (if u = r then y = L_woken z else at_pc u y c)" for u y
    using r by (auto simp: c1_def at_pc_to) (simp_all add: at_pc_def)
  have "readers_of c1 + 1 = readers_of c" "writers_of c1 = writers_of c"
    using inflight_moved [OF r, of claims_r "L_woken z"] inflight_moved [OF r, of claims_w "L_woken z"] rq
    by (simp_all add: c1_def readers_of_def writers_of_def)
  then have "word_inv 1 0 c1" using w rq by (simp add: word_inv_def c1_def)
  moreover have "value_inv E c1" using v by (simp add: c1_def value_inv_def)
  moreover have "u \<in> set rs \<longleftrightarrow> at_pc u L_wait c1" "at_pc u P_wait c1 = at_pc u P_wait c" for u
  proof -
    have "u \<in> set (rqueue c) \<longleftrightarrow> at_pc u L_wait c" using q by (simp add: queue_inv_def)
    then show "u \<in> set rs \<longleftrightarrow> at_pc u L_wait c1" using rn rq at by auto
    show "at_pc u P_wait c1 = at_pc u P_wait c" using at r by (auto simp: at_pc_def)
  qed
  moreover have "y \<in> set (pcs c1) \<Longrightarrow> pc_ok (shut c) y" for y
    using q set_update_subset_insert [of "pcs c" r "L_woken z"] by (auto simp: queue_inv_def c1_def)
  ultimately show ?thesis using q d r by (simp add: queue_inv_def cas_inv_def c1_def)
qed

lemma inv_rq_push:
  assumes "cas_inv 0 0 [] c" and t: "at_pc t L_enq c" and "\<not> shut c"
  shows "cas_inv 0 0 [] (pc_to t L_wait (c\<lparr>rqueue := rqueue c @ [t]\<rparr>))"
proof -
  have w: "word_inv 0 0 c" and v: "value_inv [] c" and q: "queue_inv c" using assms(1) by (simp_all add: cas_inv_def)
  define c1 where "c1 = pc_to t L_wait (c\<lparr>rqueue := rqueue c @ [t]\<rparr>)"
  have at: "at_pc u y c1 = (if u = t then y = L_wait else at_pc u y c)" for u y
    using t by (auto simp: c1_def at_pc_to) (simp_all add: at_pc_def)
  have tn: "t \<notin> set (rqueue c)" using q t by (auto simp: queue_inv_def at_pc_def)
  have d: "distinct (rqueue c @ [t])" using q tn by (simp add: queue_inv_def)
  have in_rq: "u \<in> set (rqueue c) \<longleftrightarrow> at_pc u L_wait c" for u using q by (simp add: queue_inv_def)
  have "set (rqueue c) \<subseteq> {..<length (pcs c)} - {t}" using in_rq tn by (auto simp: at_pc_def)
  then have "card (set (rqueue c)) \<le> card ({..<length (pcs c)} - {t})" by (intro card_mono) auto
  then have "length (rqueue c) \<le> length (pcs c) - 1" "0 < length (pcs c)" using d t by (auto simp: distinct_card at_pc_def)
  then have "length (rqueue c) < length (pcs c)" by linarith
  moreover have "readers_of c1 = readers_of c" "writers_of c1 = writers_of c"
    using inflight_moved [OF t, of claims_r L_wait] inflight_moved [OF t, of claims_w L_wait] by (simp_all add: c1_def readers_of_def writers_of_def)
  ultimately have "word_inv 0 0 c1" using w v assms(3) by (simp add: word_inv_def value_inv_def c1_def)
  moreover have "value_inv [] c1" using v by (simp add: c1_def value_inv_def)
  moreover have "u \<in> set (rqueue c @ [t]) \<longleftrightarrow> at_pc u L_wait c1" "at_pc u P_wait c1 = at_pc u P_wait c" for u
    using in_rq at t by (auto simp: at_pc_def)
  moreover have "y \<in> set (pcs c1) \<Longrightarrow> pc_ok (shut c) y" for y
    using q set_update_subset_insert [of "pcs c" t L_wait] by (auto simp: queue_inv_def c1_def)
  ultimately show ?thesis using q d unfolding c1_def [symmetric] by (simp add: queue_inv_def cas_inv_def) (simp add: c1_def)
qed

text \<open>The queue of writers.\<close>

lemma wq_shape_Cons: "wq_shape cap (e # es) \<Longrightarrow> (if waits e then cap = 0 else 0 < cap)"
proof -
  assume "wq_shape cap (e # es)"
  then obtain bs ws where b: "e # es = bs @ ws" "\<forall>e \<in> set bs. \<not> waits e" "\<forall>e \<in> set ws. waits e" "length bs \<le> cap" "ws \<noteq> [] \<longrightarrow> length bs = cap"
    unfolding wq_shape_def by blast
  show ?thesis
  proof (cases bs)
    case Nil
    then show ?thesis using b by (cases ws) auto
  next
    case (Cons x xs)
    then show ?thesis using b by auto
  qed
qed

lemma promote_none: "(\<forall>e \<in> set bs. \<not> waits e) \<Longrightarrow> promote bs = (None, bs)"
  by (induction bs) auto

lemma promote_first:
  "(\<forall>e \<in> set bs. \<not> waits e) \<Longrightarrow> waits w \<Longrightarrow> promote (bs @ w # ws) = (Some (owner w), bs @ w\<lparr>waits := False\<rparr> # ws)"
  by (induction bs) auto

lemma owners_none: "(\<forall>e \<in> set bs. \<not> waits e) \<Longrightarrow> waiting_owners bs = []"
  by (simp add: waiting_owners_def)

lemma owners_simps [simp]:
  "waiting_owners [] = []" "waiting_owners (e # es) = (if waits e then owner e # waiting_owners es else waiting_owners es)"
  "waiting_owners (es @ fs) = waiting_owners es @ waiting_owners fs"
  by (simp_all add: waiting_owners_def)

lemma wq_pop_shape:
  assumes sh: "wq_shape (ccap c) (wqueue c)" and wq: "wqueue c = e # es"
  shows "\<exists>u es'. wq_pop c = Some (val e, wake u (c\<lparr>wqueue := es'\<rparr>)) \<and> map val es' = map val es \<and> wq_shape (ccap c) es' \<and>
    waiting_owners (wqueue c) = (case u of None \<Rightarrow> waiting_owners es' | Some x \<Rightarrow> x # waiting_owners es')"
proof -
  obtain bs ws where b: "wqueue c = bs @ ws" "\<forall>e \<in> set bs. \<not> waits e" "\<forall>e \<in> set ws. waits e" "length bs \<le> ccap c" "ws \<noteq> [] \<longrightarrow> length bs = ccap c"
    using sh unfolding wq_shape_def by blast
  show ?thesis
  proof (cases "ccap c = 0")
    case True
    then have "bs = []" and e: "waits e" and "ws = e # es" using b wq wq_shape_Cons [of "ccap c" e es] sh by (auto split: if_splits)
    then have "wq_shape (ccap c) es" using b True by (auto simp: wq_shape_def intro: exI [of _ "[]"])
    then show ?thesis using True e wq by (intro exI [of _ "Some (owner e)"] exI [of _ es]) (simp add: wq_pop_def wake_def)
  next
    case False
    then obtain bs' where bs: "bs = e # bs'" "es = bs' @ ws" using b wq by (cases bs) auto
    have e: "\<not> waits e" and nb: "\<forall>e \<in> set bs'. \<not> waits e" using b(2) bs(1) by auto
    show ?thesis
    proof (cases ws)
      case Nil
      have "wq_shape (ccap c) es" unfolding wq_shape_def by (rule exI [of _ bs'], rule exI [of _ "[]"]) (use nb bs Nil b(4) in auto)
      moreover have "promote es = (None, es)" using promote_none [OF nb] bs(2) Nil by simp
      ultimately show ?thesis using False e wq by (intro exI [of _ None] exI [of _ es]) (simp add: wq_pop_def wake_def)
    next
      case (Cons w ws')
      have w: "waits w" "\<forall>e \<in> set ws'. waits e" "length bs = ccap c" using b(3,5) Cons by auto
      define es' where "es' = bs' @ w\<lparr>waits := False\<rparr> # ws'"
      have "wq_shape (ccap c) es'" unfolding wq_shape_def es'_def
        by (rule exI [of _ "bs' @ [w\<lparr>waits := False\<rparr>]"], rule exI [of _ ws']) (use nb w bs in auto)
      moreover have "promote es = (Some (owner w), es')" using promote_first [OF nb w(1)] bs(2) Cons by (simp add: es'_def)
      moreover have "waiting_owners (wqueue c) = owner w # waiting_owners es'"
        using b(1) bs(1) e owners_none [OF nb] Cons w by (simp add: es'_def)
      moreover have "map val es' = map val es" by (simp add: es'_def bs(2) Cons)
      ultimately show ?thesis using False e wq by (intro exI [of _ "Some (owner w)"] exI [of _ es']) (simp add: wq_pop_def wake_def)
    qed
  qed
qed

lemma inv_wq_pop:
  assumes "cas_inv 0 0 [] c" and p: "wq_pop c = Some (v, c')"
  shows "cas_inv 0 1 [v] c' \<and> (\<forall>t x. x \<noteq> P_wait \<longrightarrow> at_pc t x c \<longrightarrow> at_pc t x c') \<and> shut c' = shut c \<and> length (wqueue c') + 1 = length (wqueue c) \<and>
    leak_w c' = leak_w c \<and> leak_r c' = leak_r c \<and> rqueue c' = rqueue c \<and> ccap c' = ccap c \<and> length (pcs c') = length (pcs c)"
proof -
  have w: "word_inv 0 0 c" and vi: "value_inv [] c" and q: "queue_inv c" using assms(1) by (simp_all add: cas_inv_def)
  obtain e es where wq: "wqueue c = e # es" using p by (cases "wqueue c") (simp_all add: wq_pop_def)
  obtain u es' where u: "v = val e" "c' = wake u (c\<lparr>wqueue := es'\<rparr>)" "map val es' = map val es" "wq_shape (ccap c) es'"
    "waiting_owners (wqueue c) = (case u of None \<Rightarrow> waiting_owners es' | Some x \<Rightarrow> x # waiting_owners es')"
    using wq_pop_shape [OF _ wq] q p by (auto simp: queue_inv_def)
  have len: "length es' = length es" using u(3) by (metis length_map)
  have in_wo: "t \<in> set (waiting_owners (wqueue c)) \<longleftrightarrow> at_pc t P_wait c" for t using q by (simp add: queue_inv_def)
  have at: "at_pc t x c' = (if u = Some t then x = P_woken else at_pc t x c)" for t x
    using u(2,5) in_wo [of t] by (cases u) (auto simp: wake_def at_pc_to at_pc_def)
  have sel: "wqueue c' = es'" "rqueue c' = rqueue c" "shut c' = shut c" "ccap c' = ccap c" "leak_w c' = leak_w c" "leak_r c' = leak_r c"
    "length (pcs c') = length (pcs c)" "wait_word c' = wait_word c" "accepted c' = accepted c" "delivered c' = delivered c" "dropped c' = dropped c"
    by (cases u; simp add: u(2) wake_def)+
  have same: "inflight f c' = inflight f c" if "f P_wait = 0" "f P_woken = 0" for f
  proof (cases u)
    case (Some x)
    then have "at_pc x P_wait c" using u(5) in_wo [of x] by simp
    then show ?thesis using inflight_moved [of x P_wait c f P_woken] that Some by (simp add: u(2) wake_def)
  qed (simp add: u(2) wake_def)
  have "readers_of c' = readers_of c" "Suc (writers_of c') = writers_of c"
    using same [of claims_r] same [of claims_w] sel len wq by (simp_all add: readers_of_def writers_of_def)
  then have "word_inv 0 1 c'" using w sel len wq by (simp add: word_inv_def)
  moreover have "value_inv [v] c'" using vi sel u(1,3) wq by (simp add: value_inv_def)
  moreover have "queue_inv c'"
  proof -
    have "distinct (waiting_owners es')" using q u(5) by (cases u) (simp_all add: queue_inv_def)
    moreover have "t \<in> set (waiting_owners es') \<longleftrightarrow> at_pc t P_wait c'" for t
    proof (cases u)
      case None
      then show ?thesis using at [of t P_wait] in_wo [of t] u(5) by simp
    next
      case (Some x)
      have "x \<notin> set (waiting_owners es')" using q u(5) Some by (simp add: queue_inv_def)
      then show ?thesis using at [of t P_wait] in_wo [of t] u(5) Some by (cases "x = t") simp_all
    qed
    moreover have "t \<in> set (rqueue c) \<longleftrightarrow> at_pc t L_wait c'" for t
    proof -
      have "t \<in> set (rqueue c) \<longleftrightarrow> at_pc t L_wait c" using q by (simp add: queue_inv_def)
      moreover have "u = Some t \<Longrightarrow> at_pc t P_wait c" using u(5) in_wo [of t] by simp
      ultimately show ?thesis using at [of t L_wait] by (auto simp: at_pc_def)
    qed
    moreover have "y \<in> set (pcs c') \<Longrightarrow> pc_ok (shut c) y" for y
      using q u(2) set_update_subset_insert [of "pcs c" "the u" P_woken] by (cases u) (auto simp: queue_inv_def wake_def)
    ultimately show ?thesis using q u(4) sel by (simp add: queue_inv_def)
  qed
  moreover have "at_pc t x c'" if "x \<noteq> P_wait" "at_pc t x c" for t x
  proof -
    have "u = Some t \<Longrightarrow> at_pc t P_wait c" using u(5) in_wo [of t] by simp
    then have "u \<noteq> Some t" using that by (auto simp: at_pc_def)
    then show ?thesis using at [of t x] that by simp
  qed
  ultimately show ?thesis using sel len wq by (simp add: cas_inv_def)
qed

lemma wq_shape_push:
  assumes "wq_shape cap es" and "waits e \<longleftrightarrow> \<not> length es < cap"
  shows "wq_shape cap (es @ [e])"
proof -
  obtain bs ws where b: "es = bs @ ws" "\<forall>e \<in> set bs. \<not> waits e" "\<forall>e \<in> set ws. waits e" "length bs \<le> cap" "ws \<noteq> [] \<longrightarrow> length bs = cap"
    using assms(1) unfolding wq_shape_def by blast
  show ?thesis
  proof (cases "length es < cap")
    case True
    then have "ws = []" using b by auto
    then show ?thesis unfolding wq_shape_def by (intro exI [of _ "bs @ [e]"] exI [of _ "[]"]) (use b assms(2) True in auto)
  next
    case False
    then have "length bs = cap" using b by (cases ws) auto
    then show ?thesis unfolding wq_shape_def by (intro exI [of _ bs] exI [of _ "ws @ [e]"]) (use b assms(2) False in auto)
  qed
qed

lemma shape_length: "wq_shape cap es \<Longrightarrow> length es \<le> cap + length (waiting_owners es)"
  by (auto simp: wq_shape_def waiting_owners_def)

lemma inv_wq_push:
  assumes "cas_inv 0 0 [] c" and t: "at_pc t (P_enq v b) c" and ns: "\<not> shut c" and wt: "wt \<longleftrightarrow> \<not> length (wqueue c) < ccap c"
  shows "cas_inv 0 0 [] (pc_to t (if wt then P_wait else T_idle)
    (c\<lparr>wqueue := wqueue c @ [\<lparr>owner = t, val = v, waits = wt\<rparr>], accepted := accepted c @ [v]\<rparr>))"
proof -
  have w: "word_inv 0 0 c" and vi: "value_inv [] c" and q: "queue_inv c" using assms(1) by (simp_all add: cas_inv_def)
  define y where "y = (if wt then P_wait else T_idle)"
  define e where "e = \<lparr>owner = t, val = v, waits = wt\<rparr>"
  define c1 where "c1 = pc_to t y (c\<lparr>wqueue := wqueue c @ [e], accepted := accepted c @ [v]\<rparr>)"
  have at: "at_pc u z c1 = (if u = t then z = y else at_pc u z c)" for u z
    using t by (auto simp: c1_def at_pc_to) (simp_all add: at_pc_def)
  have in_wo: "u \<in> set (waiting_owners (wqueue c)) \<longleftrightarrow> at_pc u P_wait c" for u using q by (simp add: queue_inv_def)
  have tn: "t \<notin> set (waiting_owners (wqueue c))" using in_wo [of t] t by (simp add: at_pc_def)
  have d: "distinct (waiting_owners (wqueue c))" using q by (simp add: queue_inv_def)
  have "set (waiting_owners (wqueue c)) \<subseteq> {..<length (pcs c)} - {t}" using in_wo tn by (auto simp: at_pc_def)
  then have "card (set (waiting_owners (wqueue c))) \<le> card ({..<length (pcs c)} - {t})" by (intro card_mono) auto
  then have "length (waiting_owners (wqueue c)) \<le> length (pcs c) - 1" "0 < length (pcs c)" using d t by (auto simp: distinct_card at_pc_def)
  moreover have "length (wqueue c) \<le> ccap c + length (waiting_owners (wqueue c))" using q by (simp add: queue_inv_def shape_length)
  ultimately have len: "length (wqueue c) < ccap c + length (pcs c)" by linarith
  have "readers_of c1 = readers_of c" "writers_of c1 = writers_of c"
    using inflight_moved [OF t, of claims_r y] inflight_moved [OF t, of claims_w y] by (auto simp: c1_def readers_of_def writers_of_def y_def)
  then have "word_inv 0 0 c1" using w vi ns len by (simp add: word_inv_def value_inv_def c1_def)
  moreover have "value_inv [] c1" using vi by (simp add: c1_def value_inv_def e_def)
  moreover have "queue_inv c1"
  proof -
    have "wq_shape (ccap c) (wqueue c @ [e])" by (rule wq_shape_push) (use q wt in \<open>auto simp: queue_inv_def e_def\<close>)
    moreover have "u \<in> set (rqueue c) \<longleftrightarrow> at_pc u L_wait c1" for u
    proof -
      have "u \<in> set (rqueue c) \<longleftrightarrow> at_pc u L_wait c" using q by (simp add: queue_inv_def)
      then show ?thesis using at [of u L_wait] t by (auto simp: at_pc_def y_def)
    qed
    moreover have "u \<in> set (waiting_owners (wqueue c @ [e])) \<longleftrightarrow> at_pc u P_wait c1" for u
      using in_wo [of u] at [of u P_wait] tn by (auto simp: e_def y_def)
    moreover have "distinct (waiting_owners (wqueue c @ [e]))" using d tn by (simp add: e_def)
    moreover have "z \<in> set (pcs c1) \<Longrightarrow> pc_ok (shut c) z" for z
      using q set_update_subset_insert [of "pcs c" t y] by (auto simp: queue_inv_def c1_def y_def)
    ultimately show ?thesis using q by (simp add: queue_inv_def) (simp add: c1_def)
  qed
  ultimately show ?thesis unfolding c1_def y_def e_def by (simp only: cas_inv_def simp_thms)
qed

subsection \<open>The steps\<close>

lemma inv_goto:
  "cas_inv 0 0 [] c \<Longrightarrow> at_pc t x c \<Longrightarrow> x \<notin> {L_wait, P_wait} \<Longrightarrow> y \<notin> {L_wait, P_wait} \<Longrightarrow> pc_ok (shut c) y \<Longrightarrow>
   claims_r y = claims_r x \<Longrightarrow> claims_w y = claims_w x \<Longrightarrow> cas_inv 0 0 [] (pc_to t y c)"
  by (rule cas_move [where kr = 0 and kw = 0]) auto

lemma at_pc_ok: "cas_inv kr kw E c \<Longrightarrow> at_pc t x c \<Longrightarrow> pc_ok (shut c) x"
  by (auto simp: cas_inv_def queue_inv_def at_pc_def)

lemma inv_Push_notify:
  assumes i: "cas_inv 0 0 [] c" and t: "at_pc t (P_notify v b) c"
  shows "cas_inv 0 0 [] (Push_notify t v b c)"
proof (cases "rqueue c")
  case Nil
  have "cas_inv 0 0 [] (pc_to t (P_fail v b) c)" by (rule inv_goto [OF i t]) simp_all
  then show ?thesis using Nil by (simp add: Push_notify_def)
next
  case (Cons r rs)
  define c1 where "c1 = pc_to r (L_woken (Some v)) (c\<lparr>rqueue := rs\<rparr>)"
  define c2 where "c2 = c1\<lparr>accepted := accepted c @ [v], delivered := delivered c @ [v]\<rparr>"
  have c1: "cas_inv 1 0 [] c1" and r: "at_pc r L_wait c" using inv_rq_pop [OF i Cons] by (simp_all add: c1_def)
  have "writers_of c1 = 0" using c1 by (simp add: cas_inv_def word_inv_def)
  then have "wqueue c1 = []" by (simp add: writers_of_def)
  then have "value_inv [] c2" using c1 by (simp add: cas_inv_def value_inv_def c2_def c1_def)
  moreover have "word_inv 1 0 c2" "queue_inv c2"
    using c1 by (simp_all add: c2_def cas_inv_def)
  ultimately have c2: "cas_inv 1 0 [] c2" by (simp add: cas_inv_def)
  have "at_pc t (P_notify v b) c2" using t r by (auto simp: c2_def c1_def at_pc_def nth_list_update)
  then have "cas_inv 0 0 [] (pc_to t P_dec c2)" by (rule cas_move [OF c2]) simp_all
  moreover have "Push_notify t v b c = pc_to t P_dec c2" using Cons by (simp add: Push_notify_def c2_def c1_def pc_to_def)
  ultimately show ?thesis by simp
qed

lemma inv_Pop_notify:
  assumes i: "cas_inv 0 0 [] c" and t: "at_pc t (L_notify b) c"
  shows "cas_inv 0 0 [] (Pop_notify t b c)"
proof (cases "wq_pop c")
  case None
  have "cas_inv 0 0 [] (pc_to t (L_fail b) c)" by (rule inv_goto [OF i t]) simp_all
  then show ?thesis using None by (simp add: Pop_notify_def)
next
  case (Some p)
  obtain v c1 where p: "p = (v, c1)" by (cases p)
  have c1: "cas_inv 0 1 [v] c1" and t1: "at_pc t (L_notify b) c1" using inv_wq_pop [OF i] Some p t by auto
  define c2 where "c2 = c1\<lparr>delivered := delivered c1 @ [v]\<rparr>"
  have "cas_inv 0 1 [] c2" using c1 unfolding cas_inv_def c2_def
    by (auto simp: word_inv_def queue_inv_def value_inv_def readers_of_def writers_of_def at_pc_def)
  moreover have "at_pc t (L_notify b) c2" using t1 by (simp add: c2_def at_pc_def)
  ultimately have "cas_inv 0 0 [] (pc_to t (L_dec v) c2)" by (rule cas_move) simp_all
  then show ?thesis using Some p by (simp add: Pop_notify_def c2_def)
qed

lemma inv_Close_readers:
  assumes i: "cas_inv 0 0 [] c" and t: "at_pc t K_readers c"
  shows "cas_inv 0 0 [] (Close_readers t c)"
proof (cases "rqueue c")
  case Nil
  have "shut c" using at_pc_ok [OF i t] by simp
  then have "cas_inv 0 0 [] (pc_to t K_writers c)" by (intro inv_goto [OF i t]) simp_all
  then show ?thesis using Nil by (simp add: Close_readers_def)
next
  case (Cons r rs)
  define c1 where "c1 = pc_to r (L_woken None) (c\<lparr>rqueue := rs\<rparr>)"
  have c1: "cas_inv 1 0 [] c1" using inv_rq_pop [OF i Cons] by (simp add: c1_def)
  have "shut c" using at_pc_ok [OF i t] by simp
  moreover have "length rs + leak_r c < length (pcs c)" using i Cons by (simp add: cas_inv_def word_inv_def)
  ultimately have "cas_inv 0 0 [] (c1\<lparr>leak_r := leak_r c + 1\<rparr>)" using c1 unfolding cas_inv_def
    by (auto simp: word_inv_def queue_inv_def value_inv_def readers_of_def writers_of_def at_pc_def c1_def)
  moreover have "Close_readers t c = c1\<lparr>leak_r := leak_r c + 1\<rparr>" using Cons by (simp add: Close_readers_def c1_def pc_to_def)
  ultimately show ?thesis by simp
qed

lemma inv_Close_writers:
  assumes i: "cas_inv 0 0 [] c" and t: "at_pc t K_writers c"
  shows "cas_inv 0 0 [] (Close_writers t c)"
proof (cases "wq_pop c")
  case None
  have "cas_inv 0 0 [] (pc_to t T_idle c)" by (rule inv_goto [OF i t]) simp_all
  then show ?thesis using None by (simp add: Close_writers_def)
next
  case (Some p)
  obtain v c1 where p: "p = (v, c1)" by (cases p)
  have c1: "cas_inv 0 1 [v] c1" and s: "shut c1" "leak_w c1 = leak_w c" "length (wqueue c1) + 1 = length (wqueue c)"
    using inv_wq_pop [OF i] Some p at_pc_ok [OF i t] by auto
  have "ccap c1 = ccap c" "length (pcs c1) = length (pcs c)" using inv_wq_pop [OF i] Some p by auto
  then have b: "length (wqueue c1) + leak_w c1 < ccap c1 + length (pcs c1)" using i s(2,3) by (simp add: cas_inv_def word_inv_def)
  have "cas_inv 0 0 [] (c1\<lparr>dropped := dropped c1 @ [v], leak_w := leak_w c1 + 1\<rparr>)" using c1 s(1) b unfolding cas_inv_def
    by (auto simp: word_inv_def queue_inv_def value_inv_def readers_of_def writers_of_def at_pc_def)
  then show ?thesis using Some p by (simp add: Close_writers_def)
qed

lemma pc_to_word: "(pc_to t x c)\<lparr>wait_word := w\<rparr> = pc_to t x (c\<lparr>wait_word := w\<rparr>)"
  by (simp add: pc_to_def)

lemma inv_goto_sub:
  assumes i: "cas_inv 0 0 [] c" and t: "at_pc t x c" and "x \<notin> {L_wait, P_wait}"
  shows "claims_w x = 1 \<Longrightarrow> claims_r x = 0 \<Longrightarrow> cas_inv 0 0 [] (pc_to t T_idle (c\<lparr>wait_word := wait_word c - write1\<rparr>))"
    and "claims_r x = 1 \<Longrightarrow> claims_w x = 0 \<Longrightarrow> cas_inv 0 0 [] (pc_to t T_idle (c\<lparr>wait_word := wait_word c - read1\<rparr>))"
proof -
  assume "claims_w x = 1" "claims_r x = 0"
  then have "cas_inv 0 (Suc 0) [] (pc_to t T_idle c)" by (intro cas_move [OF i t]) (use assms(3) in simp_all)
  from inv_sub_w [OF this] show "cas_inv 0 0 [] (pc_to t T_idle (c\<lparr>wait_word := wait_word c - write1\<rparr>))" by (simp add: pc_to_word)
next
  assume "claims_r x = 1" "claims_w x = 0"
  then have "cas_inv (Suc 0) 0 [] (pc_to t T_idle c)" by (intro cas_move [OF i t]) (use assms(3) in simp_all)
  from inv_sub_r [OF this] show "cas_inv 0 0 [] (pc_to t T_idle (c\<lparr>wait_word := wait_word c - read1\<rparr>))" by (simp add: pc_to_word)
qed

lemma inv_Push_cas:
  assumes i: "cas_inv 0 0 [] c" and t: "at_pc t (P_cas v b w) c"
  shows "cas_inv 0 0 [] (Push_cas sp t v b w c)"
proof (cases "wait_word c = w \<and> \<not> sp")
  case True
  have "w AND readMask = 0" using at_pc_ok [OF i t] by simp
  then have "cas_inv 0 1 [] (c\<lparr>wait_word := w + write1\<rparr>)" using inv_add_w [OF i] True by simp
  then have "cas_inv 0 0 [] (pc_to t (P_enq v b) (c\<lparr>wait_word := w + write1\<rparr>))" by (rule cas_move [where x = "P_cas v b w"]) (use t in simp_all)
  then show ?thesis using True by (simp add: Push_cas_def)
next
  case False
  have "cas_inv 0 0 [] (pc_to t (P_load v b) c)" by (rule inv_goto [OF i t]) simp_all
  then show ?thesis using False by (auto simp: Push_cas_def)
qed

lemma inv_Pop_cas:
  assumes i: "cas_inv 0 0 [] c" and t: "at_pc t (L_cas b w) c"
  shows "cas_inv 0 0 [] (Pop_cas sp t b w c)"
proof (cases "wait_word c = w \<and> \<not> sp")
  case True
  have "w AND writeMask = 0" using at_pc_ok [OF i t] by simp
  then have "cas_inv 1 0 [] (c\<lparr>wait_word := w + read1\<rparr>)" using inv_add_r [OF i] True by simp
  then have "cas_inv 0 0 [] (pc_to t L_enq (c\<lparr>wait_word := w + read1\<rparr>))" by (rule cas_move [where x = "L_cas b w"]) (use t in simp_all)
  then show ?thesis using True by (simp add: Pop_cas_def)
next
  case False
  have "cas_inv 0 0 [] (pc_to t (L_load b) c)" by (rule inv_goto [OF i t]) simp_all
  then show ?thesis using False by (auto simp: Pop_cas_def)
qed

lemma inv_Push_enq:
  assumes i: "cas_inv 0 0 [] c" and t: "at_pc t (P_enq v b) c"
  shows "cas_inv 0 0 [] (Push_enq t v b c)"
proof -
  have "cas_inv 0 0 [] (pc_to t P_undo c)" by (rule inv_goto [OF i t]) simp_all
  then show ?thesis using inv_wq_push [OF i t, of False] inv_wq_push [OF i t, of True] by (simp add: Push_enq_def)
qed

lemma inv_Pop_enq:
  assumes i: "cas_inv 0 0 [] c" and t: "at_pc t L_enq c"
  shows "cas_inv 0 0 [] (Pop_enq t c)"
proof -
  have "cas_inv 0 0 [] (pc_to t L_undo c)" by (rule inv_goto [OF i t]) simp_all
  then show ?thesis using inv_rq_push [OF i t] by (simp add: Pop_enq_def)
qed

lemma inv_set: "cas_inv 0 0 [] c \<Longrightarrow> at_pc t K_set c \<Longrightarrow> cas_inv 0 0 [] (pc_to t K_readers (c\<lparr>shut := True\<rparr>))"
proof -
  assume i: "cas_inv 0 0 [] c" and t: "at_pc t K_set c"
  have m: "pc_ok (shut c) x \<Longrightarrow> pc_ok True x" for x by (cases x) simp_all
  have "cas_inv 0 0 [] (c\<lparr>shut := True\<rparr>)" using i m unfolding cas_inv_def
    by (auto simp: word_inv_def queue_inv_def value_inv_def readers_of_def writers_of_def at_pc_def)
  then show ?thesis by (rule inv_goto [where x = K_set]) (use t in \<open>simp_all add: at_pc_def\<close>)
qed

lemma inv_step: "cas_step c c' \<Longrightarrow> cas_inv 0 0 [] c \<Longrightarrow> cas_inv 0 0 [] c'"
proof (induction rule: cas_step.induct)
  case (cs_p_dec t c)
  then show ?case using inv_goto_sub(2) [OF _ cs_p_dec(1)] by (simp add: Push_dec_def)
next
  case (cs_p_undo t c)
  then show ?case using inv_goto_sub(1) [OF _ cs_p_undo(1)] by (simp add: Push_undo_def)
next
  case (cs_l_dec t v c)
  then show ?case using inv_goto_sub(1) [OF _ cs_l_dec(1)] by (simp add: Pop_dec_def)
next
  case (cs_l_undo t c)
  then show ?case using inv_goto_sub(2) [OF _ cs_l_undo(1)] by (simp add: Pop_undo_def)
next
  case (cs_p_load t v b c)
  then show ?case unfolding Push_load_def by (intro inv_goto [OF _ cs_p_load(1)]) (simp_all split: if_splits)
next
  case (cs_p_check t v b w c)
  then show ?case using at_pc_ok [OF cs_p_check(2,1)] unfolding Push_check_def by (intro inv_goto [OF _ cs_p_check(1)]) (simp_all split: if_splits)
next
  case (cs_l_load t b c)
  then show ?case unfolding Pop_load_def by (intro inv_goto [OF _ cs_l_load(1)]) (simp_all split: if_splits)
next
  case (cs_l_check t b w c)
  then show ?case using at_pc_ok [OF cs_l_check(2,1)] unfolding Pop_check_def by (intro inv_goto [OF _ cs_l_check(1)]) (simp_all split: if_splits)
next
  case (cs_p_top t v b c)
  then show ?case unfolding Push_top_def by (intro inv_goto [OF _ cs_p_top(1)]) (simp_all split: if_splits)
next
  case (cs_p_fail t v b c)
  then show ?case unfolding Push_fail_def by (intro inv_goto [OF _ cs_p_fail(1)]) (simp_all split: if_splits)
next
  case (cs_l_fail t b c)
  then show ?case unfolding Pop_fail_def by (intro inv_goto [OF _ cs_l_fail(1)]) (simp_all split: if_splits)
next
  case (cs_close t c)
  then show ?case unfolding Close_top_def by (intro inv_goto [OF _ cs_close(1)]) (simp_all split: if_splits)
next
  case (cs_push t c v b)
  then show ?case by (intro inv_goto [OF _ cs_push(1)]) simp_all
next
  case (cs_pop t c b)
  then show ?case by (intro inv_goto [OF _ cs_pop(1)]) simp_all
next
  case (cs_p_woken t c)
  then show ?case by (intro inv_goto [OF _ cs_p_woken(1)]) simp_all
next
  case (cs_l_woken t x c)
  then show ?case by (intro inv_goto [OF _ cs_l_woken(1)]) simp_all
qed (blast intro: inv_Push_notify inv_Pop_notify inv_Close_readers inv_Close_writers inv_Push_cas inv_Pop_cas inv_Push_enq inv_Pop_enq inv_set)+

lemma inv_new: "cap + 2 * n + 2 < 2 ^ 32 \<Longrightarrow> cas_inv 0 0 [] (CASChannelImpl_new n cap)"
  by (auto simp: cas_inv_def word_inv_def queue_inv_def value_inv_def readers_of_def writers_of_def at_pc_def CASChannelImpl_new_def
    counters_def sum_list_replicate wq_shape_def)

lemma inv_reach: "cas_step\<^sup>*\<^sup>* (CASChannelImpl_new n cap) c \<Longrightarrow> cap + 2 * n + 2 < 2 ^ 32 \<Longrightarrow> cas_inv 0 0 [] c"
  by (induction rule: rtranclp_induct) (blast intro: inv_new inv_step)+

subsection \<open>What the channel promises\<close>

lemma wake_sel [simp]:
  "ccap (wake u c) = ccap c" "shut (wake u c) = shut c" "rqueue (wake u c) = rqueue c" "leak_r (wake u c) = leak_r c"
  "length (pcs (wake u c)) = length (pcs c)"
  by (cases u; simp add: wake_def)+

lemma wq_pop_sel:
  "wq_pop c = Some (v, c') \<Longrightarrow> ccap c' = ccap c \<and> shut c' = shut c \<and> rqueue c' = rqueue c \<and> leak_r c' = leak_r c \<and> length (pcs c') = length (pcs c)"
  by (auto simp: wq_pop_def split: list.splits if_splits prod.splits)

lemmas cas_defs = Push_top_def Push_load_def Push_notify_def Push_fail_def Push_dec_def Push_check_def Push_cas_def Push_enq_def Push_undo_def
  Pop_load_def Pop_notify_def Pop_fail_def Pop_dec_def Pop_check_def Pop_cas_def Pop_enq_def Pop_undo_def
  Close_top_def Close_readers_def Close_writers_def

lemma step_cap: "cas_step c c' \<Longrightarrow> ccap c' = ccap c"
  by (cases rule: cas_step.cases) (auto simp: cas_defs dest: wq_pop_sel split: list.splits option.splits)

lemma reach_cap: "cas_step\<^sup>*\<^sup>* (CASChannelImpl_new n cap) c \<Longrightarrow> ccap c = cap"
  by (induction rule: rtranclp_induct) (simp_all add: step_cap, simp add: CASChannelImpl_new_def)


subsection \<open>A \<open>Push\<close> that never returns\<close>

text \<open>\<open>Close\<close> wakes the readers without taking them off the count; a \<open>Push\<close> on a buffered channel that has passed the first test then
  finds readers counted, none to notify, and does not look at \<open>closed_\<close> again.\<close>

fun retrying :: "cas_pc \<Rightarrow> bool" where
  "retrying (P_load v b) = True" | "retrying (P_notify v b) = True" | "retrying (P_fail v b) = True" | "retrying _ = False"

definition livelocked :: "nat \<Rightarrow> cas_chan \<Rightarrow> bool" where
  "livelocked t c \<longleftrightarrow> shut c \<and> 0 < ccap c \<and> rqueue c = [] \<and> 0 < leak_r c \<and> t < length (pcs c) \<and> retrying (pcs c ! t)"

lemma livelock_load: "cas_inv 0 0 [] c \<Longrightarrow> livelocked t c \<Longrightarrow> wait_word c AND readMask \<noteq> 0"
  using no_readers by (auto simp: livelocked_def readers_of_def)

lemma livelock_move: "livelocked t c \<Longrightarrow> at_pc u x c \<Longrightarrow> (retrying x \<longrightarrow> retrying y) \<Longrightarrow> livelocked t (pc_to u y c)"
  by (cases "u = t") (auto simp: livelocked_def at_pc_def)

lemma livelock_upd [simp]:
  "livelocked t (c\<lparr>wait_word := w\<rparr>) = livelocked t c" "livelocked t (c\<lparr>delivered := a\<rparr>) = livelocked t c"
  "livelocked t (c\<lparr>dropped := a\<rparr>) = livelocked t c" "livelocked t c \<Longrightarrow> livelocked t (c\<lparr>shut := True\<rparr>)"
  "livelocked t c \<Longrightarrow> livelocked t (c\<lparr>leak_w := n\<rparr>)" "at_pc u x (c\<lparr>delivered := a\<rparr>) = at_pc u x c"
  "at_pc u x (c\<lparr>shut := True\<rparr>) = at_pc u x c"
  by (simp_all add: livelocked_def at_pc_def)

lemma livelock_pop:
  assumes i: "cas_inv 0 0 [] c" and l: "livelocked t c" and p: "wq_pop c = Some (v, c1)"
  shows "livelocked t c1"
proof -
  have "pcs c ! t \<noteq> P_wait" using l by (auto simp: livelocked_def)
  then have "at_pc t (pcs c ! t) c1" using inv_wq_pop [OF i p] l by (simp add: livelocked_def at_pc_def)
  then show ?thesis using wq_pop_sel [OF p] l by (auto simp: livelocked_def at_pc_def)
qed

lemma livelock_step:
  assumes "cas_step c c'" and i: "cas_inv 0 0 [] c" and l: "livelocked t c"
  shows "livelocked t c'"
proof -
  have f: "shut c" "rqueue c = []" "0 < ccap c" using l by (simp_all add: livelocked_def)
  note word = livelock_load [OF i l]
  show ?thesis
    using assms(1)
  proof (cases rule: cas_step.cases)
    case (cs_l_notify u b)
    show ?thesis
    proof (cases "wq_pop c")
      case None
      then show ?thesis using cs_l_notify livelock_move [OF l cs_l_notify(2)] by (simp add: Pop_notify_def)
    next
      case (Some p)
      obtain v c1 where p: "wq_pop c = Some (v, c1)" using Some by (cases p) simp
      have "at_pc u (L_notify b) c1" using inv_wq_pop [OF i p] cs_l_notify(2) by simp
      then show ?thesis using cs_l_notify(1) livelock_pop [OF i l p] p by (auto simp: Pop_notify_def intro: livelock_move)
    qed
  next
    case (cs_k_writers u)
    then show ?thesis using livelock_pop [OF i l] livelock_move [OF l cs_k_writers(2)] by (auto simp: Close_writers_def split: option.splits)
  next
    case (cs_p_cas u v b w sp)
    then show ?thesis using livelock_move [OF l cs_p_cas(2)] livelock_move [of t "c\<lparr>wait_word := w + write1\<rparr>" u "P_cas v b w"] l by (auto simp: Push_cas_def)
  next
    case (cs_l_cas u b w sp)
    then show ?thesis using livelock_move [OF l cs_l_cas(2)] livelock_move [of t "c\<lparr>wait_word := w + read1\<rparr>" u "L_cas b w"] l by (auto simp: Pop_cas_def)
  next
    case (cs_p_dec u)
    then show ?thesis using livelock_move [of t "c\<lparr>wait_word := wait_word c - read1\<rparr>" u P_dec] l by (simp add: Push_dec_def)
  next
    case (cs_p_undo u)
    then show ?thesis using livelock_move [of t "c\<lparr>wait_word := wait_word c - write1\<rparr>" u P_undo] l by (simp add: Push_undo_def)
  next
    case (cs_l_dec u v)
    then show ?thesis using livelock_move [of t "c\<lparr>wait_word := wait_word c - write1\<rparr>" u "L_dec v"] l by (simp add: Pop_dec_def)
  next
    case (cs_l_undo u)
    then show ?thesis using livelock_move [of t "c\<lparr>wait_word := wait_word c - read1\<rparr>" u L_undo] l by (simp add: Pop_undo_def)
  next
    case (cs_k_set u)
    then show ?thesis using livelock_move [of t "c\<lparr>shut := True\<rparr>" u K_set] l by simp
  qed (simp only: cas_defs f list.case simp_thms if_True if_False, erule livelock_move [OF l], simp add: word f)+
qed

lemma livelock_forever: "cas_step\<^sup>*\<^sup>* c c' \<Longrightarrow> cas_inv 0 0 [] c \<Longrightarrow> livelocked t c \<Longrightarrow> livelocked t c'"
proof (induction rule: rtranclp_induct)
  case (step d e)
  have "cas_inv 0 0 [] d" using step(1) step.prems(1) by (induction rule: rtranclp_induct) (blast intro: inv_step)+
  then show ?case using step livelock_step by blast
qed

text \<open>A reader (thread 0) blocks, a writer (1) passes the first test, a third thread closes the channel.\<close>

abbreviation close_race :: "u64 \<Rightarrow> bool \<Rightarrow> nat list \<Rightarrow> cas_pc list \<Rightarrow> nat \<Rightarrow> cas_chan" where
  "close_race w sh rq ps lr \<equiv> \<lparr>wait_word = w, ccap = 1, shut = sh, wqueue = [], rqueue = rq, pcs = ps, accepted = [], delivered = [], dropped = [],
     leak_r = lr, leak_w = 0\<rparr>"

lemma close_race_reached: "cas_step\<^sup>*\<^sup>* (CASChannelImpl_new 3 1) (close_race read1 True [] [L_woken None, P_load 7 True, K_readers] 1)"
proof -
  note go = rtranclp.rtrancl_into_rtrancl [of cas_step "CASChannelImpl_new 3 1"]
  have "cas_step\<^sup>*\<^sup>* (CASChannelImpl_new 3 1) (close_race 0 False [] [T_idle, T_idle, T_idle] 0)"
    by (simp add: CASChannelImpl_new_def numeral_3_eq_3)
  from go [OF this cs_pop [of 0 _ True]] have "cas_step\<^sup>*\<^sup>* (CASChannelImpl_new 3 1) (close_race 0 False [] [L_load True, T_idle, T_idle] 0)"
    by (simp add: at_pc_def pc_to_def)
  from go [OF this cs_l_load [of 0 True]] have "cas_step\<^sup>*\<^sup>* (CASChannelImpl_new 3 1) (close_race 0 False [] [L_check True 0, T_idle, T_idle] 0)"
    by (simp add: at_pc_def pc_to_def Pop_load_def)
  from go [OF this cs_l_check [of 0 True 0]] have "cas_step\<^sup>*\<^sup>* (CASChannelImpl_new 3 1) (close_race 0 False [] [L_cas True 0, T_idle, T_idle] 0)"
    by (simp add: at_pc_def pc_to_def Pop_check_def)
  from go [OF this cs_l_cas [of 0 True 0 _ False]] have "cas_step\<^sup>*\<^sup>* (CASChannelImpl_new 3 1) (close_race read1 False [] [L_enq, T_idle, T_idle] 0)"
    by (simp add: at_pc_def pc_to_def Pop_cas_def)
  from go [OF this cs_l_enq [of 0]] have "cas_step\<^sup>*\<^sup>* (CASChannelImpl_new 3 1) (close_race read1 False [0] [L_wait, T_idle, T_idle] 0)"
    by (simp add: at_pc_def pc_to_def Pop_enq_def)
  from go [OF this cs_push [of 1 _ 7 True]] have "cas_step\<^sup>*\<^sup>* (CASChannelImpl_new 3 1) (close_race read1 False [0] [L_wait, P_top 7 True, T_idle] 0)"
    by (simp add: at_pc_def pc_to_def)
  from go [OF this cs_p_top [of 1 7 True]] have "cas_step\<^sup>*\<^sup>* (CASChannelImpl_new 3 1) (close_race read1 False [0] [L_wait, P_load 7 True, T_idle] 0)"
    by (simp add: at_pc_def pc_to_def Push_top_def)
  from go [OF this cs_close [of 2]] have "cas_step\<^sup>*\<^sup>* (CASChannelImpl_new 3 1) (close_race read1 False [0] [L_wait, P_load 7 True, K_set] 0)"
    by (simp add: at_pc_def pc_to_def Close_top_def numeral_2_eq_2)
  from go [OF this cs_k_set [of 2]] have "cas_step\<^sup>*\<^sup>* (CASChannelImpl_new 3 1) (close_race read1 True [0] [L_wait, P_load 7 True, K_readers] 0)"
    by (simp add: at_pc_def pc_to_def numeral_2_eq_2)
  from go [OF this cs_k_readers [of 2]] show ?thesis
    by (simp add: at_pc_def pc_to_def Close_readers_def numeral_2_eq_2)
qed

lemma cas_push_livelock:
  "\<exists>c. cas_step\<^sup>*\<^sup>* (CASChannelImpl_new 3 1) c \<and> (\<forall>c'. cas_step\<^sup>*\<^sup>* c c' \<longrightarrow> shut c' \<and> retrying (pcs c' ! 1))"
proof (intro exI conjI allI impI)
  let ?c = "close_race read1 True [] [L_woken None, P_load 7 True, K_readers] 1"
  show "cas_step\<^sup>*\<^sup>* (CASChannelImpl_new 3 1) ?c" by (rule close_race_reached)
  then have "cas_inv 0 0 [] ?c" by (rule inv_reach) simp
  moreover have "livelocked 1 ?c" by (simp add: livelocked_def)
  moreover fix c' assume "cas_step\<^sup>*\<^sup>* ?c c'"
  ultimately have "livelocked 1 c'" by (blast intro: livelock_forever)
  then show "shut c'" "retrying (pcs c' ! 1)" by (simp_all add: livelocked_def)
qed


end
