(* ===== verification/Task_Storage.thy ===== *)
theory Task_Storage
  imports Int_Math
begin

text \<open>
  The storage that every task carries for the scheduler and for coroutine-local variables: \<open>Anys\<close> of \<open>src/common/inc/Anys.h\<close>, one
  block of memory with a place for every registered type, the accessors that \<open>TaskRefDefine\<close> of \<open>src/task/Task.h\<close> makes from it, and
  on top of one of them the map of \<open>src/processor/CoLocalStorage.h\<close> with its type-erased values of \<open>src/common/inc/any.h\<close>.
  \<open>malloc\<close> is the parameter \<open>base\<close>, a type its alignment and size, a constructed object an event.
\<close>

subsection \<open>Registered types\<close>

record key_info =
  kalign :: u64
  ksize :: u64
  koffset :: u64
  constructor :: bool    \<comment> \<open>not null\<close>
  destructor :: bool

record anys_group =
  keys :: "key_info list"
  storageLen :: u64
  keyCount :: u64        \<comment> \<open>\<open>Size()\<close>\<close>
  initGuard :: bool

definition anys_group_init :: anys_group where
  "anys_group_init = \<lparr>keys = [], storageLen = 0, keyCount = 0, initGuard = False\<rparr>"

text \<open>\<open>Register\<close>; \<open>None\<close> is the exception. The guard is only held during the call.\<close>

definition anys_Register :: "u64 \<Rightarrow> u64 \<Rightarrow> bool \<Rightarrow> bool \<Rightarrow> anys_group \<Rightarrow> (u64 \<times> anys_group) option" where
  "anys_Register al sz ct dt g =
     (if initGuard g then None
      else let info = \<lparr>kalign = al, ksize = sz, koffset = storageLen g, constructor = ct, destructor = dt\<rparr>;
               ks = keys g @ [info]
           in Some (of_nat (length ks) - 1, g\<lparr>keys := ks, storageLen := storageLen g + (al + sz - 1), keyCount := keyCount g + 1\<rparr>))"

text \<open>The member function \<open>align\<close>: the aligned pointer and the space left.\<close>

definition std_align :: "u64 \<Rightarrow> u64 \<Rightarrow> u64 \<Rightarrow> u64 \<Rightarrow> (u64 \<times> u64) option" where
  "std_align al sz ptr space =
     (let aligned = (ptr - 1 + al) AND (- al); diff = aligned - ptr
      in if space < sz + diff then None else Some (aligned, space - diff))"

definition anys_offset :: "u64 \<Rightarrow> key_info \<Rightarrow> u64 option" where
  "anys_offset storage k =
     (let base = storage + koffset k
      in map_option (\<lambda>(p, _). koffset k + (p - base)) (std_align (kalign k) (ksize k) base (kalign k + ksize k - 1)))"

fun anys_offsets :: "u64 \<Rightarrow> key_info list \<Rightarrow> u64 list option" where
  "anys_offsets storage [] = Some []"
| "anys_offsets storage (k # ks) =
     (case anys_offset storage k of None \<Rightarrow> None | Some x \<Rightarrow> map_option (\<lambda>xs. x # xs) (anys_offsets storage ks))"

subsection \<open>One instance\<close>

record anys =
  hold :: u64            \<comment> \<open>zero for the null pointer\<close>
  held :: u64            \<comment> \<open>the number of keys, the first word of the block\<close>
  offsets :: "u64 list"
  storage :: u64

text \<open>The constructor up to \<open>Init\<close>; the first component is \<open>None\<close> for the exception.\<close>

definition Anys_new :: "u64 \<Rightarrow> anys_group \<Rightarrow> anys option \<times> anys_group" where
  "Anys_new base g =
     (let g' = g\<lparr>initGuard := True\<rparr>
      in if keyCount g = 0 then (Some \<lparr>hold = 0, held = 0, offsets = [], storage = 0\<rparr>, g')
         else let st = base + 8 * (keyCount g + 1)
              in (map_option (\<lambda>os. \<lparr>hold = base, held = keyCount g, offsets = os, storage = st\<rparr>) (anys_offsets st (keys g)), g'))"

datatype get_result = Got u64 | Get_overflow | Null_followed

definition anys_get :: "anys \<Rightarrow> u64 \<Rightarrow> get_result" where
  "anys_get a index =
     (if hold a = 0 then Null_followed
      else if held a \<le> index then Get_overflow
      else Got (storage a + offsets a ! unat index))"

text \<open>\<open>TaskRef<name>\<close>: \<open>idx\<close> is a static \<open>int\<close>, \<open>-1\<close> until the function has been called with \<open>TaskInitPtr\<close>; \<open>None\<close> is the exception of
  \<open>Register\<close>.\<close>

definition TaskRef_init :: "int \<Rightarrow> u64 \<Rightarrow> u64 \<Rightarrow> anys_group \<Rightarrow> (int \<times> anys_group) option" where
  "TaskRef_init idx al sz g =
     (if idx = -1 then map_option (\<lambda>(i, g'). (uint i, g')) (anys_Register al sz True True g) else Some (idx, g))"

definition TaskRef :: "int \<Rightarrow> anys \<Rightarrow> get_result" where
  "TaskRef idx a = anys_get a (word_of_int idx)"

subsection \<open>Layout\<close>

definition key_ok :: "key_info \<Rightarrow> bool" where
  "key_ok k \<longleftrightarrow> (\<exists>e<31. kalign k = 2 ^ e) \<and> 0 < unat (ksize k) \<and> unat (ksize k) < 2 ^ 31"

abbreviation room :: "key_info \<Rightarrow> nat" where
  "room k \<equiv> unat (kalign k) + unat (ksize k) - 1"

fun keys_from :: "nat \<Rightarrow> key_info list \<Rightarrow> bool" where
  "keys_from off [] = True"
| "keys_from off (k # ks) = (unat (koffset k) = off \<and> key_ok k \<and> keys_from (off + room k) ks)"

abbreviation total_room :: "key_info list \<Rightarrow> nat" where
  "total_room ks \<equiv> sum_list (map room ks)"

definition group_ok :: "anys_group \<Rightarrow> bool" where
  "group_ok g \<longleftrightarrow> keys_from 0 (keys g) \<and> unat (storageLen g) = total_room (keys g) \<and> unat (keyCount g) = length (keys g)"

lemma pow2_unat: "e < 31 \<Longrightarrow> unat (2 ^ e :: u64) = 2 ^ e"
proof -
  assume "e < 31"
  then have "(2 :: nat) ^ e < 2 ^ 64" by (intro power_strict_increasing) auto
  then have "unat (of_nat (2 ^ e) :: u64) = 2 ^ e" by (rule unat_of_nat_u64)
  then show ?thesis by simp
qed

lemma std_align_ok:
  assumes e: "e < 31" and s: "0 < unat sz" "unat sz < 2 ^ 31" and b: "unat ptr + 2 ^ e < 2 ^ 64"
  shows "\<exists>q r. std_align (2 ^ e) sz ptr (2 ^ e + sz - 1) = Some (q, r) \<and> 2 ^ e dvd unat q \<and> unat ptr \<le> unat q \<and> unat q \<le> unat ptr + 2 ^ e - 1"
proof -
  let ?a = "2 ^ e :: u64"
  define q where "q = (ptr - 1 + ?a) AND (- ?a)"
  have "- ?a = NOT (2 ^ e - 1)" by (simp add: not_eq_complement)
  then have "unat q = unat (ptr - 1 + ?a) div 2 ^ e * 2 ^ e" using alignDown_pow2 [of e "ptr - 1 + ?a"] e by (simp add: q_def)
  moreover have "ptr - 1 + ?a = of_nat (unat ptr + 2 ^ e - 1)" by (subst of_nat_diff) (simp_all add: Suc_le_eq)
  then have "unat (ptr - 1 + ?a) = unat ptr + 2 ^ e - 1" using b by (simp only: unat_of_nat_u64)
  ultimately have q: "unat q = (unat ptr + 2 ^ e - 1) div 2 ^ e * 2 ^ e" by simp
  have le: "unat ptr \<le> unat q" "unat q \<le> unat ptr + 2 ^ e - 1" "2 ^ e dvd unat q"
  proof -
    show "unat ptr \<le> unat q" unfolding q align_up_nat [of "2 ^ e" "unat ptr", OF zero_less_power [OF zero_less_numeral]]
      using dividend_less_div_times [of "2 ^ e" "unat ptr"] by (auto simp: less_imp_le)
    show "unat q \<le> unat ptr + 2 ^ e - 1" unfolding q by (rule div_times_less_eq_dividend)
    show "2 ^ e dvd unat q" unfolding q by simp
  qed
  have d: "unat (q - ptr) = unat q - unat ptr" using le(1) by (simp add: unat_sub word_le_nat_alt)
  have p31: "(2 :: nat) ^ e \<le> 2 ^ 30" using e by (intro power_increasing) auto
  have "unat (sz + (q - ptr)) = unat sz + (unat q - unat ptr)"
  proof -
    have "sz + (q - ptr) = of_nat (unat sz + unat (q - ptr))" by simp
    moreover have "unat sz + unat (q - ptr) < 2 ^ 64" using d le(2) s(2) p31 by simp
    ultimately show ?thesis unfolding d [symmetric] by (simp only: unat_of_nat_u64)
  qed
  moreover have "unat (?a + sz - 1) = 2 ^ e + unat sz - 1"
  proof -
    have "?a + sz - 1 = of_nat (2 ^ e + unat sz - 1)" using s(1) by (subst of_nat_diff) (simp_all add: Suc_le_eq)
    moreover have "2 ^ e + unat sz - 1 < (2 :: nat) ^ 64" using s(2) p31 by simp
    ultimately show ?thesis by (simp only: unat_of_nat_u64)
  qed
  moreover have "0 < (2 :: nat) ^ e" by simp
  ultimately have "unat (sz + (q - ptr)) \<le> unat (?a + sz - 1)" using le(1,2) by linarith
  then have "\<not> ?a + sz - 1 < sz + (q - ptr)" by (simp add: word_less_nat_alt)
  then show ?thesis using le by (simp add: std_align_def q_def [symmetric] Let_def)
qed

lemma unat_add_u64: "unat (a :: u64) + unat b < 2 ^ 64 \<Longrightarrow> unat (a + b) = unat a + unat b"
  using unat_of_nat_u64 [of "unat a + unat b"] by simp

text \<open>The place of a key: aligned and inside its room.\<close>

definition place_ok :: "u64 \<Rightarrow> key_info \<Rightarrow> u64 \<Rightarrow> bool" where
  "place_ok st k x \<longleftrightarrow> unat (kalign k) dvd unat (st + x) \<and> unat st + unat (koffset k) \<le> unat (st + x) \<and>
     unat (st + x) + unat (ksize k) \<le> unat st + unat (koffset k) + room k"

lemma anys_offset_ok:
  assumes "key_ok k" and b: "unat st + unat (koffset k) + room k < 2 ^ 64"
  shows "\<exists>x. anys_offset st k = Some x \<and> place_ok st k x"
proof -
  obtain e where e: "e < 31" "kalign k = 2 ^ e" and s: "0 < unat (ksize k)" "unat (ksize k) < 2 ^ 31" using assms(1) by (auto simp: key_ok_def)
  note pa = pow2_unat [OF e(1)]
  have p: "unat (st + koffset k) = unat st + unat (koffset k)" using b by (intro unat_add_u64) simp
  have "unat (st + koffset k) + 2 ^ e < 2 ^ 64" using b s pa e(2) p by simp
  from std_align_ok [OF e(1) s this] obtain q r where q: "std_align (2 ^ e) (ksize k) (st + koffset k) (2 ^ e + ksize k - 1) = Some (q, r)"
    "2 ^ e dvd unat q" "unat (st + koffset k) \<le> unat q" "unat q \<le> unat (st + koffset k) + 2 ^ e - 1" by blast
  have "anys_offset st k = Some (koffset k + (q - (st + koffset k)))" using q(1) e(2) by (simp add: anys_offset_def Let_def)
  moreover have "st + (koffset k + (q - (st + koffset k))) = q" by simp
  moreover have "unat q + unat (ksize k) \<le> unat st + unat (koffset k) + room k"
  proof -
    have "0 < (2 :: nat) ^ e" by simp
    then show ?thesis using q(4) s(1) unfolding p e(2) pa by linarith
  qed
  ultimately show ?thesis using q(2,3) p e(2) pa by (simp add: place_ok_def)
qed

lemma anys_offsets_ok:
  "keys_from off ks \<Longrightarrow> unat st + off + total_room ks < 2 ^ 64 \<Longrightarrow>
   \<exists>os. anys_offsets st ks = Some os \<and> length os = length ks \<and> (\<forall>i<length ks. place_ok st (ks ! i) (os ! i))"
proof (induction ks arbitrary: off)
  case (Cons k ks)
  have "key_ok k" "unat (koffset k) = off" "unat st + unat (koffset k) + room k < 2 ^ 64" using Cons.prems by simp_all
  then obtain x where x: "anys_offset st k = Some x" "place_ok st k x" using anys_offset_ok by blast
  obtain os where "anys_offsets st ks = Some os" "length os = length ks" "\<forall>i<length ks. place_ok st (ks ! i) (os ! i)"
    using Cons.IH [of "off + room k"] Cons.prems by (auto simp: add.assoc)
  then show ?case using x by (intro exI [of _ "x # os"]) (auto simp: less_Suc_eq_0_disj)
qed simp

lemma keys_from_nth:
  "keys_from off ks \<Longrightarrow> i < length ks \<Longrightarrow> unat (koffset (ks ! i)) + room (ks ! i) \<le> off + total_room ks \<and> off \<le> unat (koffset (ks ! i))"
proof (induction ks arbitrary: off i)
  case (Cons k ks)
  show ?case
  proof (cases i)
    case (Suc j)
    then show ?thesis using Cons.IH [of "off + room k" j] Cons.prems by (simp add: add.assoc)
  qed (use Cons.prems in simp)
qed simp

lemma keys_from_less:
  "keys_from off ks \<Longrightarrow> i < j \<Longrightarrow> j < length ks \<Longrightarrow> unat (koffset (ks ! i)) + room (ks ! i) \<le> unat (koffset (ks ! j))"
proof (induction ks arbitrary: off i j)
  case (Cons k ks)
  obtain j' where j: "j = Suc j'" using Cons.prems by (cases j) auto
  show ?case
  proof (cases i)
    case 0
    then show ?thesis using keys_from_nth [of "off + room k" ks j'] Cons.prems j by simp
  next
    case (Suc i')
    then show ?thesis using Cons.IH [of "off + room k" i' j'] Cons.prems j by simp
  qed
qed simp

text \<open>The address of the object of key \<open>i\<close>.\<close>

definition obj_place :: "anys \<Rightarrow> nat \<Rightarrow> u64" where
  "obj_place a i = storage a + offsets a ! i"

definition malloc_fits :: "u64 \<Rightarrow> anys_group \<Rightarrow> bool" where
  "malloc_fits base g \<longleftrightarrow> base \<noteq> 0 \<and> unat base + 8 * (length (keys g) + 1) + total_room (keys g) < 2 ^ 64"

text \<open>The facts about one instance that the properties share.\<close>

definition all_placed :: "u64 \<Rightarrow> anys_group \<Rightarrow> anys \<Rightarrow> bool" where
  "all_placed base g a \<longleftrightarrow>
     (\<forall>i<length (keys g). anys_get a (of_nat i) = Got (obj_place a i) \<and> unat (kalign (keys g ! i)) dvd unat (obj_place a i) \<and>
       unat base + 8 * (length (keys g) + 1) \<le> unat (obj_place a i) \<and>
       unat (obj_place a i) + unat (ksize (keys g ! i)) \<le> unat base + 8 * (length (keys g) + 1) + total_room (keys g)) \<and>
     (\<forall>i j. i < j \<and> j < length (keys g) \<longrightarrow> unat (obj_place a i) + unat (ksize (keys g ! i)) \<le> unat (obj_place a j)) \<and>
     (\<forall>i. length (keys g) \<le> unat i \<longrightarrow> anys_get a i = Get_overflow)"

lemma anys_placed:
  assumes g: "group_ok g" and n: "keyCount g \<noteq> 0" and "malloc_fits base g"
  shows "\<exists>a. Anys_new base g = (Some a, g\<lparr>initGuard := True\<rparr>) \<and> all_placed base g a"
proof -
  have base: "base \<noteq> 0" and fits: "unat base + 8 * (length (keys g) + 1) + total_room (keys g) < 2 ^ 64"
    using assms(3) by (simp_all add: malloc_fits_def)
  define st where "st = base + 8 * (keyCount g + 1)"
  have c: "unat (keyCount g) = length (keys g)" and kf: "keys_from 0 (keys g)" using g by (simp_all add: group_ok_def)
  have "st = of_nat (unat base + 8 * (length (keys g) + 1))" by (simp add: st_def c [symmetric])
  then have st: "unat st = unat base + 8 * (length (keys g) + 1)" using fits by (simp only: unat_of_nat_u64)
  then obtain os where os: "anys_offsets st (keys g) = Some os" "length os = length (keys g)" "\<forall>i<length (keys g). place_ok st (keys g ! i) (os ! i)"
    using anys_offsets_ok [OF kf, of st] fits by auto
  define a where "a = \<lparr>hold = base, held = keyCount g, offsets = os, storage = st\<rparr>"
  have new: "Anys_new base g = (Some a, g\<lparr>initGuard := True\<rparr>)" using n os(1) unfolding Anys_new_def Let_def st_def [symmetric] by (simp add: a_def)
  have pl: "place_ok st (keys g ! i) (os ! i)" "obj_place a i = st + os ! i" if "i < length (keys g)" for i
    using os(3) that by (simp_all add: obj_place_def a_def)
  have len: "length (keys g) < 2 ^ 64" using fits by simp
  have get: "anys_get a (of_nat i) = Got (obj_place a i)" if "i < length (keys g)" for i
  proof -
    have "unat (of_nat i :: u64) = i" using that len by (intro unat_of_nat_u64) simp
    then show ?thesis using that c base by (simp add: anys_get_def a_def obj_place_def word_le_nat_alt)
  qed
  have inside: "unat (kalign (keys g ! i)) dvd unat (obj_place a i) \<and> unat st \<le> unat (obj_place a i) \<and>
      unat (obj_place a i) + unat (ksize (keys g ! i)) \<le> unat st + total_room (keys g)" if "i < length (keys g)" for i
    using pl [OF that] keys_from_nth [OF kf that] by (auto simp: place_ok_def)
  have apart: "unat (obj_place a i) + unat (ksize (keys g ! i)) \<le> unat (obj_place a j)" if "i < j" "j < length (keys g)" for i j
    using pl [of i] pl [of j] keys_from_less [OF kf that] that by (auto simp: place_ok_def)
  have over: "anys_get a i = Get_overflow" if "length (keys g) \<le> unat i" for i
    using that c base by (simp add: anys_get_def a_def word_le_nat_alt)
  show ?thesis using new get inside apart over unfolding all_placed_def st by blast
qed

text \<open>C16: when the block that \<open>malloc\<close> returns does not wrap around, the constructor succeeds, and every registered type has a place
  of its size that is aligned as the type asks, lies in the block behind the table of offsets and overlaps no other; \<open>get\<close> returns
  exactly these places and throws for every other index.\<close>

theorem anys_layout:
  assumes "group_ok g" and "keyCount g \<noteq> 0" and "malloc_fits base g"
  shows "\<exists>a. Anys_new base g = (Some a, g\<lparr>initGuard := True\<rparr>) \<and>
    (\<forall>i<length (keys g). anys_get a (of_nat i) = Got (obj_place a i) \<and> unat (kalign (keys g ! i)) dvd unat (obj_place a i) \<and>
       unat base + 8 * (length (keys g) + 1) \<le> unat (obj_place a i) \<and>
       unat (obj_place a i) + unat (ksize (keys g ! i)) \<le> unat base + 8 * (length (keys g) + 1) + total_room (keys g)) \<and>
    (\<forall>i j. i < j \<and> j < length (keys g) \<longrightarrow> unat (obj_place a i) + unat (ksize (keys g ! i)) \<le> unat (obj_place a j)) \<and>
    (\<forall>i. length (keys g) \<le> unat i \<longrightarrow> anys_get a i = Get_overflow)"
  using anys_placed [OF assms] unfolding all_placed_def .

text \<open>Registration keeps the layout and numbers the types; it is refused once an instance exists.\<close>

lemma keys_from_append: "keys_from off (ks @ [k]) \<longleftrightarrow> keys_from off ks \<and> unat (koffset k) = off + total_room ks \<and> key_ok k"
  by (induction ks arbitrary: off) (auto simp: add.assoc)

lemma anys_Register_ok:
  assumes g: "group_ok g" "\<not> initGuard g" and k: "e < 31" "0 < unat sz" "unat sz < 2 ^ 31"
    and room: "total_room (keys g) + 2 ^ 32 < 2 ^ 64" "length (keys g) + 1 < 2 ^ 64"
  shows "\<exists>g' k. anys_Register (2 ^ e) sz ct dt g = Some (of_nat (length (keys g)), g') \<and> group_ok g' \<and> \<not> initGuard g' \<and>
    keys g' = keys g @ [k] \<and> ksize k = sz \<and> kalign k = 2 ^ e \<and> constructor k = ct \<and> destructor k = dt"
proof -
  define k where "k = \<lparr>kalign = 2 ^ e, ksize = sz, koffset = storageLen g, constructor = ct, destructor = dt\<rparr>"
  define g' where "g' = g\<lparr>keys := keys g @ [k], storageLen := storageLen g + (2 ^ e + sz - 1), keyCount := keyCount g + 1\<rparr>"
  have p31: "(2 :: nat) ^ e \<le> 2 ^ 30" and p0: "0 < (2 :: nat) ^ e" using power_increasing [of e 30 "2 :: nat"] k(1) by simp_all
  have "2 ^ e + sz - 1 = of_nat (2 ^ e + unat sz - 1)" using k(2) by (subst of_nat_diff) (simp_all add: Suc_le_eq)
  moreover have "2 ^ e + unat sz - 1 < (2 :: nat) ^ 64" using k(3) p31 by simp
  ultimately have r: "unat (2 ^ e + sz - 1) = 2 ^ e + unat sz - 1" by (simp only: unat_of_nat_u64)
  have l: "unat (storageLen g) = total_room (keys g)" using g(1) by (simp add: group_ok_def)
  have "unat (storageLen g + (2 ^ e + sz - 1)) = total_room (keys g) + (2 ^ e + unat sz - 1)"
    unfolding l [symmetric] r [symmetric] by (rule unat_add_u64) (use l r k(3) p31 room(1) in simp)
  moreover have "unat (keyCount g + 1) = length (keys g) + 1" using g(1) room(2) by (simp add: group_ok_def unat_Suc_u64)
  moreover have "key_ok k" using k(1-3) by (auto simp: key_ok_def k_def)
  moreover have "room k = 2 ^ e + unat sz - 1" "unat (koffset k) = total_room (keys g)" using pow2_unat [OF k(1)] by (simp_all add: k_def l)
  ultimately have "group_ok g'" using g(1) by (simp add: group_ok_def g'_def keys_from_append del: One_nat_def)
  moreover have "anys_Register (2 ^ e) sz ct dt g = Some (of_nat (length (keys g)), g')"
    using g(2) by (simp add: anys_Register_def g'_def k_def)
  ultimately show ?thesis using g(2) by (intro exI [of _ g'] exI [of _ k]) (simp add: g'_def k_def)
qed

lemma anys_Register_late: "anys_Register al sz ct dt (snd (Anys_new base g)) = None"
  by (simp add: anys_Register_def Anys_new_def Let_def)

text \<open>Without any registered type \<open>get\<close> follows the null pointer instead of throwing.\<close>

lemma anys_get_empty: "fst (Anys_new base anys_group_init) = Some a \<Longrightarrow> anys_get a i = Null_followed"
  by (auto simp: Anys_new_def anys_group_init_def anys_get_def)

text \<open>An accessor that was never initialised throws.\<close>

lemma TaskRef_unset: "hold a \<noteq> 0 \<Longrightarrow> TaskRef (-1) a = Get_overflow"
  by (simp add: TaskRef_def anys_get_def)

subsection \<open>Objects\<close>

datatype life = Construct u64 | Destruct u64

definition anys_Init :: "anys_group \<Rightarrow> anys \<Rightarrow> life list" where
  "anys_Init g a = (if keyCount g = 0 then []
     else map (\<lambda>i. Construct (obj_place a i)) (filter (\<lambda>i. constructor (keys g ! i)) [0..<length (keys g)]))"

definition anys_Deinit :: "anys_group \<Rightarrow> anys \<Rightarrow> life list" where
  "anys_Deinit g a = (if keyCount g = 0 then []
     else map (\<lambda>i. Destruct (obj_place a i)) (filter (\<lambda>i. destructor (keys g ! i)) [0..<length (keys g)]))"

definition anys_Reset :: "anys_group \<Rightarrow> anys \<Rightarrow> life list" where
  "anys_Reset g a = anys_Deinit g a @ anys_Init g a"

text \<open>From the constructor to the destructor, with some calls of \<open>Reset\<close> between them.\<close>

definition anys_life :: "anys_group \<Rightarrow> anys \<Rightarrow> nat \<Rightarrow> life list" where
  "anys_life g a resets = anys_Init g a @ concat (replicate resets (anys_Reset g a)) @ anys_Deinit g a"

text \<open>The objects alive after the events; \<open>None\<close> when one is constructed over a live one or destroyed twice.\<close>

fun replay :: "u64 set \<Rightarrow> life list \<Rightarrow> u64 set option" where
  "replay A [] = Some A"
| "replay A (Construct p # es) = (if p \<in> A then None else replay (insert p A) es)"
| "replay A (Destruct p # es) = (if p \<in> A then replay (A - {p}) es else None)"

lemma replay_append: "replay A (es @ fs) = Option.bind (replay A es) (\<lambda>B. replay B fs)"
  by (induction A es rule: replay.induct) auto

lemma replay_constructs: "distinct ps \<Longrightarrow> set ps \<inter> A = {} \<Longrightarrow> replay A (map Construct ps) = Some (A \<union> set ps)"
  by (induction ps arbitrary: A) auto

lemma replay_destructs: "distinct ps \<Longrightarrow> set ps \<subseteq> A \<Longrightarrow> replay A (map Destruct ps) = Some (A - set ps)"
proof (induction ps arbitrary: A)
  case (Cons p ps)
  then have "set ps \<subseteq> A - {p}" by auto
  then show ?case using Cons by (auto intro: arg_cong)
qed simp

lemma replay_resets: "replay A es = Some A \<Longrightarrow> replay A (concat (replicate n es)) = Some A"
  by (induction n) (simp_all add: replay_append)

lemma places_distinct:
  assumes "group_ok g" and "all_placed base g a"
  shows "inj_on (obj_place a) {..<length (keys g)}"
proof (rule inj_onI)
  fix i j
  assume ij: "i \<in> {..<length (keys g)}" "j \<in> {..<length (keys g)}" "obj_place a i = obj_place a j"
  have pos: "0 < unat (ksize (keys g ! m))" if "m < length (keys g)" for m
  proof -
    have "key_ok (ks ! m)" if "keys_from off ks" "m < length ks" for off ks
      using that by (induction off ks arbitrary: m rule: keys_from.induct) (auto simp: nth_Cons split: nat.splits)
    then show ?thesis using assms(1) that by (auto simp: group_ok_def key_ok_def)
  qed
  have "\<not> i' < j'" if "i' < length (keys g)" "j' < length (keys g)" "obj_place a i' = obj_place a j'" for i' j'
    using assms(2) that pos [of i'] unfolding all_placed_def by fastforce
  from this [of i j] this [of j i] show "i = j" using ij by simp
qed

text \<open>C17: over the life of an instance, with any number of resets, no object is constructed twice or destroyed before its construction,
  and none is left, if every type has a constructor exactly when it has a destructor.\<close>

theorem anys_lifecycle:
  assumes "group_ok g" and "keyCount g \<noteq> 0" and "malloc_fits base g" and both: "\<forall>k \<in> set (keys g). constructor k = destructor k"
  shows "\<exists>a. fst (Anys_new base g) = Some a \<and> replay {} (anys_life g a resets) = Some {} \<and>
    replay {} (anys_Init g a) = Some (obj_place a ` {i. i < length (keys g) \<and> constructor (keys g ! i)})"
proof -
  obtain a where a: "fst (Anys_new base g) = Some a" "all_placed base g a" using anys_placed [OF assms(1-3)] by auto
  define ps where "ps = map (obj_place a) (filter (\<lambda>i. constructor (keys g ! i)) [0..<length (keys g)])"
  have "inj_on (obj_place a) (set (filter (\<lambda>i. constructor (keys g ! i)) [0..<length (keys g)]))"
    using places_distinct [OF assms(1) a(2)] by (rule inj_on_subset) auto
  then have d: "distinct ps" by (simp add: ps_def distinct_map)
  have i: "anys_Init g a = map Construct ps" using assms(2) by (simp add: anys_Init_def ps_def)
  have "filter (\<lambda>i. destructor (keys g ! i)) [0..<length (keys g)] = filter (\<lambda>i. constructor (keys g ! i)) [0..<length (keys g)]"
    by (rule filter_cong) (use both in auto)
  then have f: "anys_Deinit g a = map Destruct ps" using assms(2) by (simp add: anys_Deinit_def ps_def)
  have up: "replay {} (anys_Init g a) = Some (set ps)" using replay_constructs [OF d, of "{}"] by (simp add: i)
  have down: "replay (set ps) (anys_Deinit g a) = Some {}" using replay_destructs [OF d, of "set ps"] by (simp add: f)
  have "replay (set ps) (anys_Reset g a) = Some (set ps)" using up down by (simp add: anys_Reset_def replay_append)
  then have "replay {} (anys_life g a resets) = Some {}" using up down by (simp add: anys_life_def replay_append replay_resets)
  moreover have "set ps = obj_place a ` {i. i < length (keys g) \<and> constructor (keys g ! i)}" by (auto simp: ps_def)
  ultimately show ?thesis using a(1) up by auto
qed

subsection \<open>Coroutine-local variables\<close>

text \<open>A type-erased value is empty or a type identifier with a value.\<close>

type_synonym any_val = "(nat \<times> nat) option"

definition any_empty :: "any_val \<Rightarrow> bool" where "any_empty x \<longleftrightarrow> x = None"

definition any_emplace :: "nat \<Rightarrow> nat \<Rightarrow> any_val \<Rightarrow> any_val" where "any_emplace ty v x = Some (ty, v)"

definition any_swap :: "any_val \<times> any_val \<Rightarrow> any_val \<times> any_val" where "any_swap xy = (snd xy, fst xy)"

definition any_clear :: "any_val \<Rightarrow> any_val" where "any_clear x = snd (any_swap (None, x))"

text \<open>Assignment makes a copy and swaps it in; moving swaps and clears the source.\<close>

definition any_assign :: "any_val \<Rightarrow> any_val \<Rightarrow> any_val" where "any_assign lhs rhs = snd (any_swap (rhs, lhs))"

definition any_move :: "any_val \<Rightarrow> any_val \<Rightarrow> any_val \<times> any_val" where
  "any_move lhs rhs = (let (rhs', lhs') = any_swap (rhs, lhs) in (lhs', any_clear rhs'))"

text \<open>\<open>any_cast\<close> on a pointer; the forms on a reference throw when it is null.\<close>

definition any_cast :: "nat \<Rightarrow> any_val \<Rightarrow> nat option" where
  "any_cast ty x = (case x of None \<Rightarrow> None | Some (t, v) \<Rightarrow> if t = ty then Some v else None)"

type_synonym cls_map = "nat \<Rightarrow> any_val option"

text \<open>\<open>map_[loc]\<close> creates an empty value.\<close>

definition CLSMap_Get :: "nat \<Rightarrow> cls_map \<Rightarrow> any_val \<times> cls_map" where
  "CLSMap_Get loc m = (case m loc of None \<Rightarrow> (None, m(loc \<mapsto> None)) | Some x \<Rightarrow> (x, m))"

text \<open>The maps of the tasks and, for \<open>None\<close>, of the thread. \<open>GetSpecific\<close> returns the value, \<open>None\<close> for \<open>bad_any_cast\<close>; \<open>init\<close> is what the
  arguments construct.\<close>

type_synonym cls_state = "nat option \<Rightarrow> cls_map"

definition GetSpecific :: "nat \<Rightarrow> nat option \<Rightarrow> nat \<Rightarrow> nat \<Rightarrow> cls_state \<Rightarrow> nat option \<times> cls_state" where
  "GetSpecific ty tk loc init s =
     (let (x, m) = CLSMap_Get loc (s tk)
      in if any_empty x then (Some init, s(tk := m(loc \<mapsto> any_emplace ty init x)))
         else (any_cast ty x, s(tk := m)))"

text \<open>Writing through the reference.\<close>

definition CLSRef_write :: "nat \<Rightarrow> nat option \<Rightarrow> nat \<Rightarrow> nat \<Rightarrow> cls_state \<Rightarrow> nat option \<times> cls_state" where
  "CLSRef_write ty tk loc v s =
     (let (x, s') = GetSpecific ty tk loc 0 s
      in (x, case x of None \<Rightarrow> s' | Some _ \<Rightarrow> s'(tk := (s' tk)(loc \<mapsto> Some (ty, v)))))"

lemmas any_defs = any_empty_def any_emplace_def any_swap_def any_clear_def any_assign_def any_move_def any_cast_def

lemma any_value_semantics:
  "any_assign x y = y" "any_move x y = (y, None)" "any_clear x = None" "any_cast ty (any_emplace ty v x) = Some v"
  "any_cast ty (any_emplace ty' v x) = None \<longleftrightarrow> ty \<noteq> ty'"
  by (simp_all add: any_defs Let_def)

text \<open>A variable of a task keeps what was written to it, whatever other tasks and other variables do; the first access initialises it.\<close>

lemma cls_first: "s tk loc = None \<Longrightarrow> fst (GetSpecific ty tk loc init s) = Some init"
  by (simp add: GetSpecific_def CLSMap_Get_def any_defs)

lemma cls_kept: "fst (CLSRef_write ty tk loc v s) \<noteq> None \<Longrightarrow> fst (GetSpecific ty tk loc init (snd (CLSRef_write ty tk loc v s))) = Some v"
  by (auto simp: GetSpecific_def CLSRef_write_def CLSMap_Get_def any_defs Let_def split: option.splits if_splits prod.splits)

lemma cls_apart:
  "(tk', loc') \<noteq> (tk, loc) \<Longrightarrow> snd (CLSRef_write ty tk loc v s) tk' loc' = s tk' loc'"
  by (auto simp: GetSpecific_def CLSRef_write_def CLSMap_Get_def any_defs Let_def split: option.splits if_splits prod.splits)

text \<open>Two registered types, in a block at an odd address.\<close>

definition two_types :: anys_group where
  "two_types = \<lparr>keys = [\<lparr>kalign = 4, ksize = 4, koffset = 0, constructor = True, destructor = True\<rparr>,
      \<lparr>kalign = 8, ksize = 24, koffset = 7, constructor = True, destructor = True\<rparr>], storageLen = 38, keyCount = 2, initGuard = False\<rparr>"

lemma two_types_registered:
  "Option.bind (anys_Register 4 4 True True anys_group_init) (\<lambda>(i, g). anys_Register 8 24 True True g) = Some (1, two_types)"
  by (simp add: anys_Register_def anys_group_init_def two_types_def Let_def)

lemma two_types_ok: "group_ok two_types" "keyCount two_types \<noteq> 0" "malloc_fits 1001 two_types"
proof -
  have "\<exists>e<31. (4 :: u64) = 2 ^ e" "\<exists>e<31. (8 :: u64) = 2 ^ e" by (rule exI [of _ 2], simp) (rule exI [of _ 3], simp)
  then show "group_ok two_types" by (simp add: group_ok_def two_types_def key_ok_def)
qed (simp_all add: two_types_def malloc_fits_def)

lemma anys_layout_witness:
  "\<exists>a. Anys_new 1001 two_types = (Some a, two_types\<lparr>initGuard := True\<rparr>) \<and> 4 dvd unat (obj_place a 0) \<and> 8 dvd unat (obj_place a 1) \<and>
     unat (obj_place a 0) + 4 \<le> unat (obj_place a 1) \<and> anys_get a 2 = Get_overflow"
proof -
  have k: "length (keys two_types) = 2" "unat (kalign (keys two_types ! 0)) = 4" "unat (kalign (keys two_types ! 1)) = 8"
    "unat (ksize (keys two_types ! 0)) = 4" "unat (2 :: u64) = 2" by (simp_all add: two_types_def)
  obtain a where new: "Anys_new 1001 two_types = (Some a, two_types\<lparr>initGuard := True\<rparr>)"
    and p: "\<forall>i<2. unat (kalign (keys two_types ! i)) dvd unat (obj_place a i)"
    and o: "\<forall>i j. i < j \<and> j < 2 \<longrightarrow> unat (obj_place a i) + unat (ksize (keys two_types ! i)) \<le> unat (obj_place a j)"
    and v: "\<forall>i. 2 \<le> unat i \<longrightarrow> anys_get a i = Get_overflow"
    using anys_layout [OF two_types_ok] unfolding k(1) by blast
  have "4 dvd unat (obj_place a 0)" using p [rule_format, of 0] by (simp add: k)
  moreover have "8 dvd unat (obj_place a 1)" using p [rule_format, of 1] by (simp add: k(3) del: One_nat_def)
  moreover have "unat (obj_place a 0) + 4 \<le> unat (obj_place a 1)" using o [rule_format, of 0 1] by (simp add: k(4) del: One_nat_def)
  moreover have "anys_get a 2 = Get_overflow" using v [rule_format, of 2] by (simp only: k(5))
  ultimately show ?thesis using new by blast
qed

lemma anys_lifecycle_witness:
  "\<exists>a. fst (Anys_new 1001 two_types) = Some a \<and> replay {} (anys_life two_types a 2) = Some {}"
proof -
  have "\<forall>k \<in> set (keys two_types). constructor k = destructor k" by (simp add: two_types_def)
  from anys_lifecycle [OF two_types_ok this, of 2] show ?thesis by blast
qed

end
