(* ===== verification/Spin_Locks.thy ===== *)
theory Spin_Locks
  imports Co_Prelude
begin

text \<open>
  The spinning locks of the runtime, \<open>LFLock\<close> and \<open>LFLock2\<close> of \<open>src/common/inc/SpinLock.h\<close> and \<open>SpinMutex\<close> of
  \<open>include/util/locks.h\<close>, and the pointer of \<open>include/util/lazy_coptr.h\<close> whose object is made on first use. A lock is a word with two
  atomic operations; what any number of threads may do with it is one step relation, and mutual exclusion is proved once, from the
  interface that the three locks implement.
\<close>

subsection \<open>The locks\<close>

text \<open>\<open>test_and_set\<close> and \<open>clear\<close> of the flag.\<close>

definition LFLock_try_lock :: "bool \<Rightarrow> bool \<times> bool" where
  "LFLock_try_lock flag = (\<not> flag, True)"

definition LFLock_unlock :: "bool \<Rightarrow> bool option" where
  "LFLock_unlock flag = Some False"

text \<open>\<open>exchange\<close>; \<open>None\<close> is the exception of \<open>unlock\<close>.\<close>

definition LFLock2_try_lock :: "bool \<Rightarrow> bool \<times> bool" where
  "LFLock2_try_lock state = (let (old, new) = (state, True) in (\<not> old, new))"

definition LFLock2_unlock :: "bool \<Rightarrow> bool option" where
  "LFLock2_unlock state = (if \<not> state then None else Some False)"

definition LFLock2_is_lock :: "bool \<Rightarrow> bool" where
  "LFLock2_is_lock state = state"

text \<open>\<open>compare_exchange_strong(old, 1)\<close> with \<open>old = 0\<close>; a failed round of \<open>Acquire\<close> sets \<open>old\<close> back.\<close>

definition SpinMutex_Try :: "32 word \<Rightarrow> bool \<times> 32 word" where
  "SpinMutex_Try lock = (if lock = 0 then (True, 1) else (False, lock))"

definition SpinMutex_Release :: "32 word \<Rightarrow> 32 word option" where
  "SpinMutex_Release lock = Some 0"

text \<open>\<open>BooleanFakeLock\<close> and \<open>FakeLock\<close>, for one thread; \<open>None\<close> is a failed assertion.\<close>

definition BooleanFakeLock_lock :: "bool \<Rightarrow> bool" where
  "BooleanFakeLock_lock locked = (if \<not> locked then True else locked)"

definition BooleanFakeLock_try_lock :: "bool \<Rightarrow> bool \<times> bool" where
  "BooleanFakeLock_try_lock locked = (\<not> locked, if \<not> locked then True else locked)"

definition BooleanFakeLock_unlock :: "bool \<Rightarrow> bool option" where
  "BooleanFakeLock_unlock locked = guarded locked (Some False)"

definition FakeLock_try_lock :: "unit \<Rightarrow> bool \<times> unit" where
  "FakeLock_try_lock u = (True, u)"

subsection \<open>Threads that use a lock\<close>

datatype lock_pc = LK_out | LK_spin | LK_in

record 'w lock_world =
  lword :: 'w
  lpcs :: "lock_pc list"
  thrown :: bool

definition lock_world_new :: "'w \<Rightarrow> nat \<Rightarrow> 'w lock_world" where
  "lock_world_new w n = \<lparr>lword = w, lpcs = replicate n LK_out, thrown = False\<rparr>"

abbreviation lk_at :: "nat \<Rightarrow> lock_pc \<Rightarrow> 'w lock_world \<Rightarrow> bool" where
  "lk_at t x s \<equiv> t < length (lpcs s) \<and> lpcs s ! t = x"

abbreviation lk_to :: "nat \<Rightarrow> lock_pc \<Rightarrow> 'w lock_world \<Rightarrow> 'w lock_world" where
  "lk_to t x s \<equiv> s\<lparr>lpcs := (lpcs s)[t := x]\<rparr>"

text \<open>\<open>lock\<close> tries until it succeeds, \<open>try_lock\<close> tries once.\<close>

inductive lock_step :: "('w \<Rightarrow> bool \<times> 'w) \<Rightarrow> ('w \<Rightarrow> 'w option) \<Rightarrow> 'w lock_world \<Rightarrow> 'w lock_world \<Rightarrow> bool" for acq rls where
  lk_lock: "lk_at t LK_out s \<Longrightarrow> lock_step acq rls s (lk_to t LK_spin s)"
| lk_spin: "lk_at t LK_spin s \<Longrightarrow> acq (lword s) = (ok, w) \<Longrightarrow> lock_step acq rls s (lk_to t (if ok then LK_in else LK_spin) (s\<lparr>lword := w\<rparr>))"
| lk_try: "lk_at t LK_out s \<Longrightarrow> acq (lword s) = (ok, w) \<Longrightarrow> lock_step acq rls s (lk_to t (if ok then LK_in else LK_out) (s\<lparr>lword := w\<rparr>))"
| lk_unlock: "lk_at t LK_in s \<Longrightarrow> rls (lword s) = Some w \<Longrightarrow> lock_step acq rls s (lk_to t LK_out (s\<lparr>lword := w\<rparr>))"
| lk_throw: "lk_at t LK_in s \<Longrightarrow> rls (lword s) = None \<Longrightarrow> lock_step acq rls s (s\<lparr>thrown := True\<rparr>)"

fun holds :: "lock_pc \<Rightarrow> nat" where
  "holds LK_in = 1" | "holds _ = 0"

abbreviation holders :: "'w lock_world \<Rightarrow> nat" where
  "holders s \<equiv> sum_list (map holds (lpcs s))"

text \<open>What a lock word promises: a free word is taken, a taken word stays taken, and the release of a taken word frees it.\<close>

locale lock_word =
  fixes acq :: "'w \<Rightarrow> bool \<times> 'w"
    and rls :: "'w \<Rightarrow> 'w option"
    and taken :: "'w \<Rightarrow> bool"
  assumes acq_free: "\<not> taken w \<Longrightarrow> fst (acq w) \<and> taken (snd (acq w))"
    and acq_taken: "taken w \<Longrightarrow> \<not> fst (acq w) \<and> taken (snd (acq w))"
    and rls_taken: "taken w \<Longrightarrow> \<exists>w'. rls w = Some w' \<and> \<not> taken w'"
begin

lemma moved: "lk_at t x s \<Longrightarrow> sum_list (map holds ((lpcs s)[t := y])) + holds x = holders s + holds y"
  using sum_list_moved [of t "lpcs s" holds y] by simp

lemma step_inv: "lock_step acq rls s s' \<Longrightarrow> holders s = of_bool (taken (lword s)) \<and> \<not> thrown s \<Longrightarrow>
  holders s' = of_bool (taken (lword s')) \<and> \<not> thrown s'"
proof (induction rule: lock_step.induct)
  case (lk_lock t s)
  then show ?case using moved [of t s LK_out LK_spin] by simp
next
  case (lk_spin t s ok w)
  then show ?case using moved [of t s LK_spin LK_in] moved [of t s LK_spin LK_spin] acq_free [of "lword s"] acq_taken [of "lword s"]
    by (cases "taken (lword s)") auto
next
  case (lk_try t s ok w)
  then show ?case using moved [of t s LK_out LK_in] moved [of t s LK_out LK_out] acq_free [of "lword s"] acq_taken [of "lword s"]
    by (cases "taken (lword s)") auto
next
  case (lk_unlock t s w)
  have m: "sum_list (map holds ((lpcs s)[t := LK_out])) + 1 = holders s" using moved [of t s LK_in LK_out] lk_unlock by simp
  then have "taken (lword s)" using lk_unlock.prems by (cases "taken (lword s)") auto
  then show ?case using lk_unlock m rls_taken [of "lword s"] by auto
next
  case (lk_throw t s)
  have "sum_list (map holds ((lpcs s)[t := LK_out])) + 1 = holders s" using moved [of t s LK_in LK_out] lk_throw by simp
  then have "taken (lword s)" using lk_throw.prems by (cases "taken (lword s)") auto
  then show ?case using lk_throw rls_taken [of "lword s"] by auto
qed

lemma reach_inv: "(lock_step acq rls)\<^sup>*\<^sup>* (lock_world_new w n) s \<Longrightarrow> \<not> taken w \<Longrightarrow> holders s = of_bool (taken (lword s)) \<and> \<not> thrown s"
proof (induction rule: rtranclp_induct)
  case base
  then show ?case by (simp add: lock_world_new_def map_replicate sum_list_replicate)
next
  case (step y z)
  then show ?case using step_inv by blast
qed

lemma mutual_exclusion:
  assumes "(lock_step acq rls)\<^sup>*\<^sup>* (lock_world_new w n) s" and "\<not> taken w"
  shows "(lk_at t LK_in s \<longrightarrow> lk_at u LK_in s \<longrightarrow> t = u) \<and> \<not> thrown s"
proof -
  have i: "holders s = of_bool (taken (lword s))" "\<not> thrown s" using reach_inv [OF assms] by simp_all
  have "t = u" if a: "lk_at t LK_in s" "lk_at u LK_in s"
  proof (rule ccontr)
    assume "t \<noteq> u"
    then have "lk_at u LK_in (lk_to t LK_out s)" using a by simp
    from moved [OF this, of LK_out] moved [OF a(1), of LK_out] have "2 \<le> holders s" by simp
    then show False using i(1) by (cases "taken (lword s)") simp_all
  qed
  then show ?thesis using i(2) by blast
qed

lemma free_can_be_taken: "holders s = 0 \<Longrightarrow> holders s = of_bool (taken (lword s)) \<Longrightarrow> fst (acq (lword s))"
  using acq_free [of "lword s"] by (cases "taken (lword s)") simp_all

end

interpretation lf: lock_word LFLock_try_lock LFLock_unlock "\<lambda>b. b"
  by unfold_locales (auto simp: LFLock_try_lock_def LFLock_unlock_def intro: exI [of _ False])

interpretation lf2: lock_word LFLock2_try_lock LFLock2_unlock "\<lambda>b. b"
  by unfold_locales (auto simp: LFLock2_try_lock_def LFLock2_unlock_def intro: exI [of _ False])

interpretation spin: lock_word SpinMutex_Try SpinMutex_Release "\<lambda>w. w \<noteq> 0"
  by unfold_locales (simp_all add: SpinMutex_Try_def SpinMutex_Release_def)

text \<open>C18: in every run of any number of threads on an \<open>LFLock\<close>, an \<open>LFLock2\<close> or a \<open>SpinMutex\<close>, at most one is between \<open>lock\<close> and
  \<open>unlock\<close>; the \<open>unlock\<close> of \<open>LFLock2\<close> does not throw; and while nobody holds the lock the next attempt succeeds.\<close>

theorem spin_locks_exclusive:
  "((lock_step LFLock_try_lock LFLock_unlock)\<^sup>*\<^sup>* (lock_world_new False n) s1 \<longrightarrow>
      (lk_at t LK_in s1 \<longrightarrow> lk_at u LK_in s1 \<longrightarrow> t = u) \<and> (holders s1 = 0 \<longrightarrow> fst (LFLock_try_lock (lword s1)))) \<and>
   ((lock_step LFLock2_try_lock LFLock2_unlock)\<^sup>*\<^sup>* (lock_world_new False n) s2 \<longrightarrow>
      (lk_at t LK_in s2 \<longrightarrow> lk_at u LK_in s2 \<longrightarrow> t = u) \<and> \<not> thrown s2 \<and> (holders s2 = 0 \<longrightarrow> fst (LFLock2_try_lock (lword s2)))) \<and>
   ((lock_step SpinMutex_Try SpinMutex_Release)\<^sup>*\<^sup>* (lock_world_new 0 n) s3 \<longrightarrow>
      (lk_at t LK_in s3 \<longrightarrow> lk_at u LK_in s3 \<longrightarrow> t = u) \<and> (holders s3 = 0 \<longrightarrow> fst (SpinMutex_Try (lword s3))))"
  using lf.mutual_exclusion [of False n s1 t u] lf2.mutual_exclusion [of False n s2 t u] spin.mutual_exclusion [of 0 n s3 t u]
    lf.reach_inv [of False n s1] lf2.reach_inv [of False n s2] spin.reach_inv [of 0 n s3]
    lf.free_can_be_taken [of s1] lf2.free_can_be_taken [of s2] spin.free_can_be_taken [of s3]
  by (intro conjI impI) auto

lemma spin_locks_exclusive_witness:
  "(lock_step LFLock2_try_lock LFLock2_unlock)\<^sup>*\<^sup>* (lock_world_new False 2) (lk_to 0 LK_in (lock_world_new True 2)) \<and>
   \<not> thrown (lk_to 0 LK_in (lock_world_new True 2)) \<and> fst (SpinMutex_Try 0)"
proof -
  have "lock_step LFLock2_try_lock LFLock2_unlock (lock_world_new False 2) (lk_to 0 (if True then LK_in else LK_out) ((lock_world_new False 2)\<lparr>lword := True\<rparr>))"
    by (rule lk_try) (simp_all add: lock_world_new_def LFLock2_try_lock_def)
  moreover have "lk_to 0 (if True then LK_in else LK_out) ((lock_world_new False 2)\<lparr>lword := True\<rparr>) = lk_to 0 LK_in (lock_world_new True 2)"
    by (simp add: lock_world_new_def)
  ultimately have r: "(lock_step LFLock2_try_lock LFLock2_unlock)\<^sup>*\<^sup>* (lock_world_new False 2) (lk_to 0 LK_in (lock_world_new True 2))"
    by (metis r_into_rtranclp)
  have h: "holders (lock_world_new (0 :: 32 word) 2) = 0" by (simp add: lock_world_new_def)
  show ?thesis using r h spin_locks_exclusive [of 2 "lock_world_new False 2" 0 0 "lk_to 0 LK_in (lock_world_new True 2)" "lock_world_new 0 2"]
    by (simp add: lock_world_new_def)
qed

subsection \<open>Making an object on first use\<close>

text \<open>\<open>make(block)\<close> of \<open>lazy_coptr\<close>. \<open>func\<close> is there until the object has been made; the constructor returns an address or null. The
  kernel mutex has an owner.\<close>

datatype lazy_pc =
    Z_idle | Z_make bool | Z_acquire bool | Z_check bool | Z_call bool | Z_store bool "nat option" | Z_clear bool | Z_release bool | Z_ret bool

record lazy_coptr =
  lobj :: "nat option"
  lfunc :: bool
  lowner :: "nat option"
  zpcs :: "lazy_pc list"
  calls :: nat                     \<comment> \<open>how often the constructor ran\<close>
  lmade :: "nat option option"     \<comment> \<open>what it returned\<close>

definition lazy_new :: "nat \<Rightarrow> lazy_coptr" where
  "lazy_new n = \<lparr>lobj = None, lfunc = True, lowner = None, zpcs = replicate n Z_idle, calls = 0, lmade = None\<rparr>"

abbreviation z_at :: "nat \<Rightarrow> lazy_pc \<Rightarrow> lazy_coptr \<Rightarrow> bool" where
  "z_at t x s \<equiv> t < length (zpcs s) \<and> zpcs s ! t = x"

abbreviation z_to :: "nat \<Rightarrow> lazy_pc \<Rightarrow> lazy_coptr \<Rightarrow> lazy_coptr" where
  "z_to t x s \<equiv> s\<lparr>zpcs := (zpcs s)[t := x]\<rparr>"

definition lazy_created :: "lazy_coptr \<Rightarrow> bool" where
  "lazy_created s \<longleftrightarrow> \<not> lfunc s"

inductive lazy_step :: "lazy_coptr \<Rightarrow> lazy_coptr \<Rightarrow> bool" where
  z_enter: "z_at t Z_idle s \<Longrightarrow> lazy_step s (z_to t (Z_make b) s)"
| z_make: "z_at t (Z_make b) s \<Longrightarrow> lazy_step s (z_to t (if lazy_created s then Z_ret b else Z_acquire b) s)"
| z_acquire: "z_at t (Z_acquire b) s \<Longrightarrow> lowner s = None \<Longrightarrow> lazy_step s (z_to t (Z_check b) (s\<lparr>lowner := Some t\<rparr>))"
| z_busy: "z_at t (Z_acquire False) s \<Longrightarrow> lowner s \<noteq> None \<Longrightarrow> lazy_step s (z_to t (Z_ret False) s)"
| z_check: "z_at t (Z_check b) s \<Longrightarrow> lazy_step s (z_to t (if lfunc s then Z_call b else Z_release b) s)"
| z_call: "z_at t (Z_call b) s \<Longrightarrow> lazy_step s (z_to t (Z_store b r) (s\<lparr>calls := calls s + 1, lmade := Some r\<rparr>))"
| z_store: "z_at t (Z_store b r) s \<Longrightarrow> lazy_step s (z_to t (Z_clear b) (s\<lparr>lobj := r\<rparr>))"
| z_clear: "z_at t (Z_clear b) s \<Longrightarrow> lazy_step s (z_to t (Z_release b) (s\<lparr>lfunc := False\<rparr>))"
| z_release: "z_at t (Z_release b) s \<Longrightarrow> lazy_step s (z_to t (Z_ret b) (s\<lparr>lowner := None\<rparr>))"
| z_return: "z_at t (Z_ret b) s \<Longrightarrow> lazy_step s (z_to t Z_idle s)"

fun z_inside :: "lazy_pc \<Rightarrow> bool" where
  "z_inside (Z_check b) = True" | "z_inside (Z_call b) = True" | "z_inside (Z_store b r) = True" | "z_inside (Z_clear b) = True"
| "z_inside (Z_release b) = True" | "z_inside _ = False"

fun z_pc_ok :: "lazy_coptr \<Rightarrow> lazy_pc \<Rightarrow> bool" where
  "z_pc_ok s (Z_call b) = (lfunc s \<and> calls s = 0)"
| "z_pc_ok s (Z_store b r) = (lfunc s \<and> calls s = 1 \<and> lmade s = Some r)"
| "z_pc_ok s (Z_clear b) = (lfunc s \<and> calls s = 1 \<and> lmade s = Some (lobj s))"
| "z_pc_ok s (Z_release b) = (\<not> lfunc s)"
| "z_pc_ok s (Z_ret b) = (b \<longrightarrow> \<not> lfunc s)"
| "z_pc_ok s _ = True"

fun z_storing :: "lazy_pc \<Rightarrow> bool" where
  "z_storing (Z_store b r) = True" | "z_storing (Z_clear b) = True" | "z_storing _ = False"

definition lazy_inv :: "lazy_coptr \<Rightarrow> bool" where
  "lazy_inv s \<longleftrightarrow> (\<forall>t<length (zpcs s). z_inside (zpcs s ! t) \<longleftrightarrow> lowner s = Some t) \<and> (\<forall>t<length (zpcs s). z_pc_ok s (zpcs s ! t)) \<and>
     (\<not> lfunc s \<longrightarrow> calls s = 1 \<and> lmade s = Some (lobj s)) \<and> (lfunc s \<longrightarrow> (\<forall>t<length (zpcs s). \<not> z_storing (zpcs s ! t)) \<longrightarrow> calls s = 0)"

lemma lazy_alone: "lazy_inv s \<Longrightarrow> z_at t x s \<Longrightarrow> z_inside x \<Longrightarrow> u < length (zpcs s) \<Longrightarrow> u \<noteq> t \<Longrightarrow> \<not> z_inside (zpcs s ! u)"
  unfolding lazy_inv_def by (metis option.inject)

lemma lazy_outside: "z_pc_ok s x \<Longrightarrow> \<not> z_inside x \<Longrightarrow> (\<not> lfunc s \<longrightarrow> \<not> lfunc s') \<Longrightarrow> z_pc_ok s' x"
  by (cases x) auto

text \<open>A step of thread \<open>t\<close> inside the lock: what the others know stays true if \<open>func\<close> is never set again.\<close>

lemma lazy_move:
  assumes i: "lazy_inv s" and t: "z_at t x s" and l: "zpcs s' = (zpcs s)[t := y]" and m: "\<not> lfunc s \<longrightarrow> \<not> lfunc s'"
    and o: "z_inside x \<or> calls s' = calls s \<and> lmade s' = lmade s \<and> lobj s' = lobj s \<and> lfunc s' = lfunc s"
    and w: "lowner s' = (if z_inside y then Some t else if z_inside x then None else lowner s)" and nw: "z_inside y \<longrightarrow> z_inside x \<or> lowner s = None"
    and y: "z_pc_ok s' y" and mk: "\<not> lfunc s' \<longrightarrow> calls s' = 1 \<and> lmade s' = Some (lobj s')"
    and fn: "lfunc s' \<longrightarrow> \<not> z_storing y \<longrightarrow> (\<forall>u<length (zpcs s). u \<noteq> t \<longrightarrow> \<not> z_storing (zpcs s ! u)) \<longrightarrow> calls s' = 0"
  shows "lazy_inv s'"
proof -
  have own: "\<forall>u<length (zpcs s). z_inside (zpcs s ! u) \<longleftrightarrow> lowner s = Some u" and pc: "\<forall>u<length (zpcs s). z_pc_ok s (zpcs s ! u)"
    using i by (simp_all add: lazy_inv_def)
  have xo: "z_inside x \<longleftrightarrow> lowner s = Some t" using own t by auto
  have own': "z_inside (zpcs s' ! u) \<longleftrightarrow> lowner s' = Some u" if "u < length (zpcs s)" for u
    using own that w nw xo t by (cases "u = t") (auto simp: l)
  have pc': "z_pc_ok s' (zpcs s' ! u)" if u: "u < length (zpcs s)" for u
  proof (cases "u = t")
    case True
    then show ?thesis using y t by (simp add: l)
  next
    case False
    show ?thesis
    proof (cases "z_inside x")
      case True
      then have "\<not> z_inside (zpcs s ! u)" using own u xo False by auto
      then show ?thesis using lazy_outside [of s "zpcs s ! u" s'] pc u m False by (simp add: l)
    next
      case False
      then have e: "calls s' = calls s" "lmade s' = lmade s" "lobj s' = lobj s" "lfunc s' = lfunc s" using o by auto
      have "z_pc_ok s (zpcs s ! u)" using pc u by simp
      then have "z_pc_ok s' (zpcs s ! u)" by (cases "zpcs s ! u") (simp_all add: e)
      then show ?thesis using \<open>u \<noteq> t\<close> by (simp add: l)
    qed
  qed
  have "lfunc s' \<longrightarrow> (\<forall>u<length (zpcs s'). \<not> z_storing (zpcs s' ! u)) \<longrightarrow> calls s' = 0"
  proof (intro impI)
    assume f: "lfunc s'" and a: "\<forall>u<length (zpcs s'). \<not> z_storing (zpcs s' ! u)"
    have "\<not> z_storing y" using a [rule_format, of t] t by (simp add: l)
    moreover have "\<not> z_storing (zpcs s ! u)" if "u < length (zpcs s)" "u \<noteq> t" for u using a [rule_format, of u] that by (simp add: l)
    ultimately show "calls s' = 0" using fn f by blast
  qed
  then show ?thesis using own' pc' mk unfolding lazy_inv_def by (simp add: l)
qed

lemma storing_inside: "z_storing x \<Longrightarrow> z_inside x"
  by (cases x) simp_all

lemma lazy_counts:
  assumes i: "lazy_inv s" and t: "z_at t x s" and f: "lfunc s" and a: "\<forall>u<length (zpcs s). u \<noteq> t \<longrightarrow> \<not> z_storing (zpcs s ! u)" and "\<not> z_storing x"
  shows "calls s = 0"
proof -
  have "\<forall>u<length (zpcs s). \<not> z_storing (zpcs s ! u)" using a t assms(5) by metis
  then show ?thesis using i f by (simp add: lazy_inv_def)
qed

lemma lazy_step_inv: "lazy_step s s' \<Longrightarrow> lazy_inv s \<Longrightarrow> lazy_inv s'"
proof (induction rule: lazy_step.induct)
  case (z_enter t s b)
  show ?case by (rule lazy_move [OF z_enter(2,1)]) (use z_enter lazy_counts [OF z_enter(2,1)] in \<open>auto simp: lazy_inv_def\<close>)
next
  case (z_make t b s)
  show ?case by (rule lazy_move [OF z_make(2,1)]) (use z_make lazy_counts [OF z_make(2,1)] in \<open>auto simp: lazy_inv_def lazy_created_def split: if_splits\<close>)
next
  case (z_acquire t b s)
  show ?case by (rule lazy_move [OF z_acquire(3,1)]) (use z_acquire lazy_counts [OF z_acquire(3,1)] in \<open>auto simp: lazy_inv_def\<close>)
next
  case (z_busy t s)
  show ?case by (rule lazy_move [OF z_busy(3,1)]) (use z_busy lazy_counts [OF z_busy(3,1)] in \<open>auto simp: lazy_inv_def\<close>)
next
  case (z_check t b s)
  have alone: "\<forall>u<length (zpcs s). u \<noteq> t \<longrightarrow> \<not> z_storing (zpcs s ! u)"
    using lazy_alone [OF z_check(2,1)] storing_inside by auto
  then have "lfunc s \<longrightarrow> calls s = 0" using lazy_counts [OF z_check(2,1)] by auto
  then show ?case by (intro lazy_move [OF z_check(2,1)]) (use z_check in \<open>auto simp: lazy_inv_def\<close>)
next
  case (z_call t b s r)
  have "z_pc_ok s (Z_call b)" using z_call by (auto simp: lazy_inv_def)
  then show ?case by (intro lazy_move [OF z_call(2,1)]) (use z_call in \<open>auto simp: lazy_inv_def\<close>)
next
  case (z_store t b r s)
  have "z_pc_ok s (Z_store b r)" using z_store by (auto simp: lazy_inv_def)
  then show ?case by (intro lazy_move [OF z_store(2,1)]) (use z_store in \<open>auto simp: lazy_inv_def\<close>)
next
  case (z_clear t b s)
  have "z_pc_ok s (Z_clear b)" using z_clear by (auto simp: lazy_inv_def)
  then show ?case by (intro lazy_move [OF z_clear(2,1)]) (use z_clear in \<open>auto simp: lazy_inv_def\<close>)
next
  case (z_release t b s)
  have "z_pc_ok s (Z_release b)" using z_release by (auto simp: lazy_inv_def)
  then show ?case by (intro lazy_move [OF z_release(2,1)]) (use z_release in \<open>auto simp: lazy_inv_def\<close>)
next
  case (z_return t b s)
  show ?case by (rule lazy_move [OF z_return(2,1)]) (use z_return lazy_counts [OF z_return(2,1)] in \<open>auto simp: lazy_inv_def\<close>)
qed

lemma lazy_inv_new: "lazy_inv (lazy_new n)"
  by (simp add: lazy_inv_def lazy_new_def)



end
