(* ===== verification/Os_Event.thy ===== *)
theory Os_Event
  imports Co_Prelude
begin

text \<open>
  The events of \<open>src/core/util/lnx/os_linux.cpp\<close> (\<open>CreateOsEvent\<close>, \<open>WaitForOsEvent\<close>, \<open>SetOsEvent\<close>, \<open>ResetOsEvent\<close>), which \<open>KernelEvent\<close> of
  \<open>include/util/locks.h\<close> wraps: a flag under a pthread mutex with a condition variable. Threads run concurrently; a step is a call of
  the pthread library or the code between two of them. The mutex has an owner and blocks whoever locks it while it is held, its
  owner included, as a mutex with default attributes does; a wait on the condition may end by a signal, by the deadline or spuriously.
\<close>

subsection \<open>The deadline\<close>

text \<open>\<open>ts\<close> of \<open>WaitForOsEvent\<close> from the time of day in seconds and microseconds, as seconds and nanoseconds.\<close>

definition os_deadline :: "nat \<Rightarrow> nat \<Rightarrow> u32 \<Rightarrow> nat \<times> nat" where
  "os_deadline tv_sec tv_usec milli =
     (let sec = tv_sec + unat (milli div 1000);
          nsec = tv_usec * 1000 + unat (milli mod 1000) * 1000000
      in if nsec > 1000000000 then (sec + 1, nsec - 1000000000) else (sec, nsec))"

text \<open>What \<open>pthread_cond_timedwait\<close> accepts.\<close>

definition timespec_ok :: "nat \<times> nat \<Rightarrow> bool" where
  "timespec_ok ts \<longleftrightarrow> snd ts < 1000000000"

text \<open>The deadline is the time of the call plus the timeout, to the nanosecond, without overflow for any timeout; its nanoseconds are
  in range except when the fractions add up to exactly one second, for which the wait fails at once instead of waiting.\<close>

lemma os_deadline_exact:
  assumes "tv_usec < 1000000"
  shows "fst (os_deadline s tv_usec ms) * 1000000000 + snd (os_deadline s tv_usec ms) = s * 1000000000 + tv_usec * 1000 + unat ms * 1000000 \<and>
    snd (os_deadline s tv_usec ms) \<le> 1000000000 \<and>
    (timespec_ok (os_deadline s tv_usec ms) \<longleftrightarrow> tv_usec * 1000 + unat ms mod 1000 * 1000000 \<noteq> 1000000000)"
proof -
  have d: "unat (ms div 1000) = unat ms div 1000" "unat (ms mod 1000) = unat ms mod 1000" by (simp_all add: unat_div unat_mod)
  have "unat ms mod 1000 < 1000" by simp
  moreover have "unat ms = unat ms div 1000 * 1000 + unat ms mod 1000" by simp
  ultimately obtain q m where q: "unat ms div 1000 = q" "unat ms mod 1000 = m" "m < 1000" "unat ms = q * 1000 + m" by metis
  then show ?thesis using assms by (auto simp: os_deadline_def Let_def d timespec_ok_def)
qed

subsection \<open>The calls\<close>

text \<open>Where a thread stands; \<open>ms\<close> is the timeout, the result is 0, 1 (busy or not set), 0x14003 (deadline) or 22 (EINVAL).\<close>

datatype os_pc =
    O_idle
  | O_enter u32 | O_lock u32 | O_test u32 | O_blocked u32 | O_relock u32 nat | O_unlock u32 nat | O_ret u32 nat
  | O_set_lock | O_set | O_set_unlock | O_signal
  | O_reset_lock | O_reset | O_reset_unlock

record os_event =
  omutex :: "nat option"
  ostate :: bool
  oauto :: bool               \<comment> \<open>\<open>auto_reset\<close>\<close>
  opcs :: "os_pc list"

definition CreateOsEvent :: "bool \<Rightarrow> bool \<Rightarrow> nat \<Rightarrow> os_event" where
  "CreateOsEvent auto_reset init_state n = \<lparr>omutex = None, ostate = init_state, oauto = auto_reset, opcs = replicate n O_idle\<rparr>"

abbreviation os_at :: "nat \<Rightarrow> os_pc \<Rightarrow> os_event \<Rightarrow> bool" where
  "os_at t x e \<equiv> t < length (opcs e) \<and> opcs e ! t = x"

definition os_to :: "nat \<Rightarrow> os_pc \<Rightarrow> os_event \<Rightarrow> os_event" where
  "os_to t x e = e\<lparr>opcs := (opcs e)[t := x]\<rparr>"

text \<open>A timeout of zero starts with \<open>pthread_mutex_trylock\<close>, and goes on to \<open>pthread_mutex_lock\<close> when that has succeeded.\<close>

definition OsWait_enter :: "nat \<Rightarrow> u32 \<Rightarrow> os_event \<Rightarrow> os_event" where
  "OsWait_enter t ms e =
     (if ms = 0 then (if omutex e \<noteq> None then os_to t (O_ret ms 1) e else os_to t (O_lock ms) (e\<lparr>omutex := Some t\<rparr>))
      else os_to t (O_lock ms) e)"

definition OsWait_test :: "nat \<Rightarrow> u32 \<Rightarrow> nat \<Rightarrow> nat \<Rightarrow> os_event \<Rightarrow> os_event" where
  "OsWait_test t ms tv_sec tv_usec e =
     (if \<not> ostate e
      then if ms = 0 then os_to t (O_unlock ms 1) e
           else if timespec_ok (os_deadline tv_sec tv_usec ms) then os_to t (O_blocked ms) (e\<lparr>omutex := None\<rparr>)
           else os_to t (O_unlock ms 22) e
      else os_to t (O_unlock ms 0) (if oauto e then e\<lparr>ostate := False\<rparr> else e))"

text \<open>Back from \<open>pthread_cond_timedwait\<close>, with the mutex: 110 is mapped to 0x14003.\<close>

definition OsWait_relock :: "nat \<Rightarrow> u32 \<Rightarrow> nat \<Rightarrow> os_event \<Rightarrow> os_event" where
  "OsWait_relock t ms ret e =
     (let e1 = (if ret = 0 \<and> oauto e then e\<lparr>ostate := False\<rparr> else e)
      in os_to t (O_unlock ms (if ret = 110 then 0x14003 else ret)) (e1\<lparr>omutex := Some t\<rparr>))"

inductive os_step :: "os_event \<Rightarrow> os_event \<Rightarrow> bool" where
  o_wait: "os_at t O_idle e \<Longrightarrow> os_step e (os_to t (O_enter ms) e)"
| o_enter: "os_at t (O_enter ms) e \<Longrightarrow> os_step e (OsWait_enter t ms e)"
| o_lock: "os_at t (O_lock ms) e \<Longrightarrow> omutex e = None \<Longrightarrow> os_step e (os_to t (O_test ms) (e\<lparr>omutex := Some t\<rparr>))"
| o_test: "os_at t (O_test ms) e \<Longrightarrow> tv_usec < 1000000 \<Longrightarrow> os_step e (OsWait_test t ms tv_sec tv_usec e)"
| o_timeout: "os_at t (O_blocked ms) e \<Longrightarrow> os_step e (os_to t (O_relock ms 110) e)"
| o_spurious: "os_at t (O_blocked ms) e \<Longrightarrow> os_step e (os_to t (O_relock ms 0) e)"
| o_relock: "os_at t (O_relock ms ret) e \<Longrightarrow> omutex e = None \<Longrightarrow> os_step e (OsWait_relock t ms ret e)"
| o_unlock: "os_at t (O_unlock ms ret) e \<Longrightarrow> os_step e (os_to t (O_ret ms ret) (e\<lparr>omutex := None\<rparr>))"
| o_ret: "os_at t (O_ret ms ret) e \<Longrightarrow> os_step e (os_to t O_idle e)"
| o_set: "os_at t O_idle e \<Longrightarrow> os_step e (os_to t O_set_lock e)"
| o_set_lock: "os_at t O_set_lock e \<Longrightarrow> omutex e = None \<Longrightarrow> os_step e (os_to t O_set (e\<lparr>omutex := Some t\<rparr>))"
| o_set_state: "os_at t O_set e \<Longrightarrow> os_step e (os_to t O_set_unlock (e\<lparr>ostate := True\<rparr>))"
| o_set_unlock: "os_at t O_set_unlock e \<Longrightarrow> os_step e (os_to t O_signal (e\<lparr>omutex := None\<rparr>))"
| o_signal: "os_at t O_signal e \<Longrightarrow> os_at u (O_blocked ms) e \<Longrightarrow> os_step e (os_to t O_idle (os_to u (O_relock ms 0) e))"
| o_signal_none: "os_at t O_signal e \<Longrightarrow> (\<forall>u ms. \<not> os_at u (O_blocked ms) e) \<Longrightarrow> os_step e (os_to t O_idle e)"
| o_reset: "os_at t O_idle e \<Longrightarrow> os_step e (os_to t O_reset_lock e)"
| o_reset_lock: "os_at t O_reset_lock e \<Longrightarrow> omutex e = None \<Longrightarrow> os_step e (os_to t O_reset (e\<lparr>omutex := Some t\<rparr>))"
| o_reset_state: "os_at t O_reset e \<Longrightarrow> os_step e (os_to t O_reset_unlock (e\<lparr>ostate := False\<rparr>))"
| o_reset_unlock: "os_at t O_reset_unlock e \<Longrightarrow> os_step e (os_to t O_idle (e\<lparr>omutex := None\<rparr>))"

subsection \<open>The mutex\<close>

text \<open>Who holds the mutex; a caller with timeout zero holds it already when it locks it.\<close>

fun os_inside :: "os_pc \<Rightarrow> bool" where
  "os_inside (O_lock ms) = (ms = 0)" | "os_inside (O_test ms) = True" | "os_inside (O_unlock ms r) = True" | "os_inside O_set = True"
| "os_inside O_set_unlock = True" | "os_inside O_reset = True" | "os_inside O_reset_unlock = True" | "os_inside _ = False"

fun os_pc_ok :: "os_pc \<Rightarrow> bool" where
  "os_pc_ok (O_test ms) = (ms \<noteq> 0)" | "os_pc_ok (O_blocked ms) = (ms \<noteq> 0)" | "os_pc_ok (O_relock ms r) = (ms \<noteq> 0 \<and> r \<in> {0, 110})"
| "os_pc_ok (O_unlock ms r) = (ms \<noteq> 0 \<and> r \<in> {0, 22, 0x14003})" | "os_pc_ok (O_ret ms r) = (if ms = 0 then r = 1 else r \<in> {0, 22, 0x14003})" | "os_pc_ok _ = True"

definition os_inv :: "os_event \<Rightarrow> bool" where
  "os_inv e \<longleftrightarrow> (\<forall>t<length (opcs e). os_inside (opcs e ! t) \<longleftrightarrow> omutex e = Some t) \<and> (\<forall>t<length (opcs e). os_pc_ok (opcs e ! t))"

lemma os_to_sel [simp]:
  "omutex (os_to t x e) = omutex e" "ostate (os_to t x e) = ostate e" "oauto (os_to t x e) = oauto e" "opcs (os_to t x e) = (opcs e)[t := x]"
  by (simp_all add: os_to_def)

lemma os_move:
  assumes "os_inv e" and "os_at t x e" and "opcs e' = (opcs e)[t := y]" and "os_pc_ok y"
    and "omutex e' = (if os_inside y then Some t else if os_inside x then None else omutex e)" and "os_inside y \<longrightarrow> os_inside x \<or> omutex e = None"
  shows "os_inv e'"
proof -
  have own: "\<forall>u<length (opcs e). os_inside (opcs e ! u) \<longleftrightarrow> omutex e = Some u" and pc: "\<forall>u<length (opcs e). os_pc_ok (opcs e ! u)"
    using assms(1) by (simp_all add: os_inv_def)
  have xo: "os_inside x \<longleftrightarrow> omutex e = Some t" using own assms(2) by auto
  have "os_inside (opcs e' ! u) \<longleftrightarrow> omutex e' = Some u" if "u < length (opcs e)" for u
    using own that assms(2,5,6) xo by (cases "u = t") (auto simp: assms(3))
  moreover have "os_pc_ok (opcs e' ! u)" if "u < length (opcs e)" for u
    using pc that assms(2,4) by (cases "u = t") (auto simp: assms(3))
  ultimately show ?thesis by (simp add: os_inv_def assms(3))
qed

lemma os_known: "os_inv e \<Longrightarrow> os_at t x e \<Longrightarrow> os_pc_ok x \<and> (os_inside x \<longleftrightarrow> omutex e = Some t)"
  by (auto simp: os_inv_def)

lemma os_step_inv: "os_step e e' \<Longrightarrow> os_inv e \<Longrightarrow> os_inv e'"
proof (induction rule: os_step.induct)
  case (o_wait t e ms)
  show ?case by (rule os_move [OF o_wait(2,1)]) auto
next
  case (o_enter t ms e)
  then show ?case by (cases "ms = 0"; cases "omutex e") (auto simp: OsWait_enter_def intro: os_move [OF _ o_enter(1)])
next
  case (o_lock t ms e)
  show ?case by (rule os_move [OF o_lock(3,1)]) (use os_known [OF o_lock(3,1)] o_lock(2) in auto)
next
  case (o_test t ms e tv_usec tv_sec)
  show ?case using os_known [OF o_test(3,1)] by (auto simp: OsWait_test_def intro!: os_move [OF o_test(3,1)])
next
  case (o_timeout t ms e)
  show ?case by (rule os_move [OF o_timeout(2,1)]) (use os_known [OF o_timeout(2,1)] in auto)
next
  case (o_spurious t ms e)
  show ?case by (rule os_move [OF o_spurious(2,1)]) (use os_known [OF o_spurious(2,1)] in auto)
next
  case (o_relock t ms ret e)
  show ?case by (rule os_move [where y = "O_unlock ms (if ret = 110 then 0x14003 else ret)", OF o_relock(3,1)]) (use os_known [OF o_relock(3,1)] o_relock(2) in \<open>auto simp: OsWait_relock_def Let_def\<close>)
next
  case (o_unlock t ms ret e)
  show ?case by (rule os_move [OF o_unlock(2,1)]) (use os_known [OF o_unlock(2,1)] in auto)
next
  case (o_ret t ms ret e)
  show ?case by (rule os_move [OF o_ret(2,1)]) auto
next
  case (o_set t e)
  show ?case by (rule os_move [OF o_set(2,1)]) auto
next
  case (o_set_lock t e)
  show ?case by (rule os_move [OF o_set_lock(3,1)]) (use o_set_lock(2) in auto)
next
  case (o_set_state t e)
  show ?case by (rule os_move [OF o_set_state(2,1)]) (use os_known [OF o_set_state(2,1)] in auto)
next
  case (o_set_unlock t e)
  show ?case by (rule os_move [OF o_set_unlock(2,1)]) auto
next
  case (o_signal t e u ms)
  have "os_inv (os_to u (O_relock ms 0) e)" by (rule os_move [OF o_signal(3,2)]) (use os_known [OF o_signal(3,2)] in auto)
  moreover have "os_at t O_signal (os_to u (O_relock ms 0) e)" using o_signal by (auto simp: nth_list_update)
  ultimately show ?case by (rule os_move) auto
next
  case (o_signal_none t e)
  show ?case by (rule os_move [OF o_signal_none(3,1)]) auto
next
  case (o_reset t e)
  show ?case by (rule os_move [OF o_reset(2,1)]) auto
next
  case (o_reset_lock t e)
  show ?case by (rule os_move [OF o_reset_lock(3,1)]) (use o_reset_lock(2) in auto)
next
  case (o_reset_state t e)
  show ?case by (rule os_move [OF o_reset_state(2,1)]) (use os_known [OF o_reset_state(2,1)] in auto)
next
  case (o_reset_unlock t e)
  show ?case by (rule os_move [OF o_reset_unlock(2,1)]) auto
qed

lemma os_reach_inv: "os_step\<^sup>*\<^sup>* (CreateOsEvent a i n) e \<Longrightarrow> os_inv e"
proof (induction rule: rtranclp_induct)
  case base
  then show ?case by (simp add: os_inv_def CreateOsEvent_def)
next
  case (step y z)
  then show ?case using os_step_inv by blast
qed

text \<open>A caller with timeout zero that got the mutex never gets past its second lock.\<close>

lemma os_poll_stuck_step: "os_step e e' \<Longrightarrow> os_inv e \<Longrightarrow> os_at t (O_lock 0) e \<Longrightarrow> os_at t (O_lock 0) e'"
proof -
  assume s: "os_step e e'" and i: "os_inv e" and t: "os_at t (O_lock 0) e"
  have m: "omutex e = Some t" using os_known [OF i t] by simp
  from s show ?thesis
    by (cases rule: os_step.cases) (use t m in \<open>auto simp: nth_list_update OsWait_enter_def OsWait_test_def OsWait_relock_def Let_def split: if_splits\<close>)
qed

text \<open>C20: a wait with timeout zero never reports a set event: in every run such a call returns 1, when the mutex is held, or else has locked
  the mutex, waits for it a second time and stays there for ever with the mutex held. Every other call returns 0, the timeout or
  \<open>EINVAL\<close>, and one thread at a time is inside.\<close>

theorem os_poll_never_set:
  assumes "os_step\<^sup>*\<^sup>* (CreateOsEvent a i n) e"
  shows "(os_at t (O_ret 0 r) e \<longrightarrow> r = 1) \<and> (os_at t (O_ret ms r) e \<longrightarrow> ms \<noteq> 0 \<longrightarrow> r \<in> {0, 22, 0x14003}) \<and>
    (os_at t (O_lock 0) e \<longrightarrow> (\<forall>e'. os_step\<^sup>*\<^sup>* e e' \<longrightarrow> os_at t (O_lock 0) e' \<and> omutex e' = Some t)) \<and>
    (\<forall>u. t < n \<longrightarrow> u < n \<longrightarrow> os_inside (opcs e ! t) \<longrightarrow> os_inside (opcs e ! u) \<longrightarrow> t = u)"
proof -
  have i: "os_inv e" by (rule os_reach_inv [OF assms])
  have len: "length (opcs e) = n" using assms
  proof (induction rule: rtranclp_induct)
    case (step y z)
    from step(2) have "length (opcs z) = length (opcs y)" by (cases rule: os_step.cases) (simp_all add: OsWait_enter_def OsWait_test_def OsWait_relock_def Let_def)
    then show ?case using step.IH by simp
  qed (simp add: CreateOsEvent_def)
  have stuck: "os_at t (O_lock 0) e' \<and> omutex e' = Some t" if "os_at t (O_lock 0) e" "os_step\<^sup>*\<^sup>* e e'" for e'
  proof -
    have "os_inv e' \<and> os_at t (O_lock 0) e'" using that(2,1)
    proof (induction rule: rtranclp_induct)
      case base
      then show ?case using i by simp
    next
      case (step y z)
      then show ?case using os_step_inv [OF step(2)] os_poll_stuck_step [OF step(2)] by blast
    qed
    then show ?thesis using os_known [of e' t "O_lock 0"] by simp
  qed
  have own: "omutex e = Some v" if "v < n" "os_inside (opcs e ! v)" for v using i len that by (simp add: os_inv_def)
  have alone: "t = u" if "t < n" "u < n" "os_inside (opcs e ! t)" "os_inside (opcs e ! u)" for u
    using own [OF that(1,3)] own [OF that(2,4)] by simp
  have "os_at t (O_ret 0 r) e \<longrightarrow> r = 1" using os_known [OF i, of t "O_ret 0 r"] by auto
  moreover have "os_at t (O_ret ms r) e \<longrightarrow> ms \<noteq> 0 \<longrightarrow> r \<in> {0, 22, 0x14003}"
  proof (intro impI)
    assume a: "os_at t (O_ret ms r) e" and m: "ms \<noteq> 0"
    have "os_pc_ok (O_ret ms r)" using os_known [OF i a] by (rule conjunct1)
    then show "r \<in> {0, 22, 0x14003}" using m by simp
  qed
  ultimately show ?thesis using stuck alone by blast
qed

lemma os_poll_never_set_witness:
  "\<exists>e. os_step\<^sup>*\<^sup>* (CreateOsEvent True True 1) e \<and> ostate e \<and> (\<forall>e'. os_step\<^sup>*\<^sup>* e e' \<longrightarrow> os_at 0 (O_lock 0) e' \<and> omutex e' = Some 0)"
proof -
  let ?s = "\<lambda>m p. \<lparr>omutex = m, ostate = True, oauto = True, opcs = [p]\<rparr>"
  note go = rtranclp.rtrancl_into_rtrancl [of os_step "CreateOsEvent True True 1"]
  have "os_step\<^sup>*\<^sup>* (CreateOsEvent True True 1) (?s None O_idle)" by (simp add: CreateOsEvent_def)
  from go [OF this o_wait [where t = 0 and ms = 0]] have "os_step\<^sup>*\<^sup>* (CreateOsEvent True True 1) (?s None (O_enter 0))" by (simp add: os_to_def)
  from go [OF this o_enter [where t = 0 and ms = 0]] have r: "os_step\<^sup>*\<^sup>* (CreateOsEvent True True 1) (?s (Some 0) (O_lock 0))"
    by (simp add: os_to_def OsWait_enter_def)
  show ?thesis using os_poll_never_set [OF r, of 0 1 1] r by (intro exI [of _ "?s (Some 0) (O_lock 0)"]) simp
qed

text \<open>The state is not tested again after the wait: a call returns 0 although the event was never set.\<close>

lemma os_spurious_success:
  "\<exists>e. os_step\<^sup>*\<^sup>* (CreateOsEvent True False 1) e \<and> os_at 0 (O_ret 5 0) e \<and> \<not> ostate e"
proof -
  let ?s = "\<lambda>m p. \<lparr>omutex = m, ostate = False, oauto = True, opcs = [p]\<rparr>"
  note go = rtranclp.rtrancl_into_rtrancl [of os_step "CreateOsEvent True False 1"]
  have "os_step\<^sup>*\<^sup>* (CreateOsEvent True False 1) (?s None O_idle)" by (simp add: CreateOsEvent_def)
  from go [OF this o_wait [where t = 0 and ms = 5]] have "os_step\<^sup>*\<^sup>* (CreateOsEvent True False 1) (?s None (O_enter 5))" by (simp add: os_to_def)
  from go [OF this o_enter [where t = 0 and ms = 5]] have "os_step\<^sup>*\<^sup>* (CreateOsEvent True False 1) (?s None (O_lock 5))"
    by (simp add: os_to_def OsWait_enter_def)
  from go [OF this o_lock [where t = 0 and ms = 5]] have "os_step\<^sup>*\<^sup>* (CreateOsEvent True False 1) (?s (Some 0) (O_test 5))" by (simp add: os_to_def)
  from go [OF this o_test [where t = 0 and ms = 5 and tv_sec = 0 and tv_usec = 0]]
  have "os_step\<^sup>*\<^sup>* (CreateOsEvent True False 1) (?s None (O_blocked 5))" by (simp add: os_to_def OsWait_test_def timespec_ok_def os_deadline_def)
  from go [OF this o_spurious [where t = 0 and ms = 5]] have "os_step\<^sup>*\<^sup>* (CreateOsEvent True False 1) (?s None (O_relock 5 0))" by (simp add: os_to_def)
  from go [OF this o_relock [where t = 0 and ms = 5 and ret = 0]] have "os_step\<^sup>*\<^sup>* (CreateOsEvent True False 1) (?s (Some 0) (O_unlock 5 0))"
    by (simp add: os_to_def OsWait_relock_def)
  from go [OF this o_unlock [where t = 0 and ms = 5 and ret = 0]] have "os_step\<^sup>*\<^sup>* (CreateOsEvent True False 1) (?s None (O_ret 5 0))"
    by (simp add: os_to_def)
  then show ?thesis by (intro exI [of _ "?s None (O_ret 5 0)"]) simp
qed

end
