(* ===== verification/Shared_Memory.thy ===== *)
theory Shared_Memory
  imports Int_Math Object_Pool
begin

text \<open>
  Objects in memory shared with the device (\<open>include/Shared.h\<close>): \<open>PageAllocator\<close>, the handle \<open>Shared\<close> that owns one object, and \<open>SharedArray\<close>,
  with the \<open>ScopeGuard\<close> (\<open>include/util/utils.h\<close>) that undoes an allocation when a constructor throws. The functions \<open>allocate_\<close> and \<open>free_\<close>
  are set by the runtime: the answer of \<open>allocate_\<close> is an argument of the model. Memory is a map from the blocks that are allocated to
  their size and the offsets where an object has been constructed and not destroyed; freeing a block counts the objects left in it.
  Whether a constructor throws is an argument.
\<close>

subsection \<open>Scope guards\<close>

record 'f scope_guard =
  release_fn :: 'f
  guard_dismissed :: bool

definition ScopeGuard_new :: "'f \<Rightarrow> 'f scope_guard" where
  "ScopeGuard_new release = \<lparr>release_fn = release, guard_dismissed = False\<rparr>"

definition ScopeGuard_Dismiss :: "'f scope_guard \<Rightarrow> 'f scope_guard" where
  "ScopeGuard_Dismiss g = g\<lparr>guard_dismissed := True\<rparr>"

text \<open>The destructor, for a guard whose function acts on a state.\<close>

definition ScopeGuard_end :: "('s \<Rightarrow> 's option) scope_guard \<Rightarrow> 's \<Rightarrow> 's option" where
  "ScopeGuard_end g s = (if \<not> guard_dismissed g then release_fn g s else Some s)"

lemma guard_runs_unless_dismissed [simp]:
  "ScopeGuard_end (ScopeGuard_new f) s = f s" "ScopeGuard_end (ScopeGuard_Dismiss g) s = Some s"
  by (simp_all add: ScopeGuard_end_def ScopeGuard_new_def ScopeGuard_Dismiss_def)

subsection \<open>Memory\<close>

record shared_mem =
  sblocks :: "addr \<Rightarrow> (nat \<times> nat set) option"
  sleaked :: nat

definition shared_mem_new :: shared_mem where
  "shared_mem_new = \<lparr>sblocks = (\<lambda>p. None), sleaked = 0\<rparr>"

definition mem_allocate :: "addr \<Rightarrow> nat \<Rightarrow> shared_mem \<Rightarrow> shared_mem" where
  "mem_allocate p n m = m\<lparr>sblocks := (sblocks m)(p := Some (n, {}))\<rparr>"

text \<open>Placement new of an object of \<open>sz\<close> bytes inside a block: outside the block, or over a live object, is undefined.\<close>

definition mem_construct :: "addr \<Rightarrow> nat \<Rightarrow> nat \<Rightarrow> shared_mem \<Rightarrow> shared_mem option" where
  "mem_construct p off sz m = (case sblocks m p of
      None \<Rightarrow> None
    | Some (n, objs) \<Rightarrow> guarded (off + sz \<le> n \<and> off \<notin> objs) (Some (m\<lparr>sblocks := (sblocks m)(p := Some (n, insert off objs))\<rparr>)))"

definition mem_destroy :: "addr \<Rightarrow> nat \<Rightarrow> shared_mem \<Rightarrow> shared_mem option" where
  "mem_destroy p off m = (case sblocks m p of
      None \<Rightarrow> None
    | Some (n, objs) \<Rightarrow> guarded (off \<in> objs) (Some (m\<lparr>sblocks := (sblocks m)(p := Some (n, objs - {off}))\<rparr>)))"

definition mem_free :: "addr \<Rightarrow> shared_mem \<Rightarrow> shared_mem option" where
  "mem_free p m = (case sblocks m p of
      None \<Rightarrow> None
    | Some (n, objs) \<Rightarrow> Some (m\<lparr>sblocks := (sblocks m)(p := None), sleaked := sleaked m + card objs\<rparr>))"

subsection \<open>The page allocator\<close>

datatype shared_error = No_Memory | Ctor_Threw

definition PageAllocator_alloc :: "u64 \<Rightarrow> ptr \<times> bool \<Rightarrow> shared_mem \<Rightarrow> ((shared_error + addr) \<times> shared_mem) option" where
  "PageAllocator_alloc sizeof_T q m = (case alignUp sizeof_T 4096 of
      None \<Rightarrow> None
    | Some bytes \<Rightarrow> (case fst q of
        None \<Rightarrow> Some (Inl No_Memory, m)
      | Some p \<Rightarrow>
          (let throwGuard = ScopeGuard_new (mem_free p); m1 = mem_allocate p (unat bytes) m
           in if snd q then map_option (\<lambda>m'. (Inl Ctor_Threw, m')) (ScopeGuard_end throwGuard m1)
              else (case mem_construct p 0 (unat sizeof_T) m1 of
                  None \<Rightarrow> None
                | Some m2 \<Rightarrow> map_option (\<lambda>m'. (Inr p, m')) (ScopeGuard_end (ScopeGuard_Dismiss throwGuard) m2)))))"

definition PageAllocator_free :: "ptr \<Rightarrow> shared_mem \<Rightarrow> shared_mem option" where
  "PageAllocator_free ptr m = (case ptr of
      None \<Rightarrow> Some m
    | Some p \<Rightarrow> (case mem_destroy p 0 m of None \<Rightarrow> None | Some m1 \<Rightarrow> mem_free p m1))"

subsection \<open>Handles\<close>

text \<open>\<open>hptr\<close> is the member \<open>shared_object_\<close> of each handle's storage, which keeps its value while no handle lives there.\<close>

record 's handles =
  hmem :: 's
  hptr :: "nat \<Rightarrow> ptr"
  hlive :: "nat set"

definition handles_start :: "'s \<Rightarrow> (nat \<Rightarrow> ptr) \<Rightarrow> 's handles" where
  "handles_start m residue = \<lparr>hmem = m, hptr = residue, hlive = {}\<rparr>"

definition Shared_new :: "('q \<Rightarrow> 's \<Rightarrow> (('e + addr) \<times> 's) option) \<Rightarrow> nat \<Rightarrow> 'q \<Rightarrow> 's handles \<Rightarrow> 's handles option" where
  "Shared_new alloc h q st = (case alloc q (hmem st) of
      None \<Rightarrow> None
    | Some (Inl e, m) \<Rightarrow> Some (st\<lparr>hmem := m\<rparr>)
    | Some (Inr p, m) \<Rightarrow> Some (st\<lparr>hmem := m, hptr := (hptr st)(h := Some p), hlive := insert h (hlive st)\<rparr>))"

text \<open>The body of the destructor, which the moves call too; it leaves the member as it is.\<close>

definition Shared_dtor :: "(ptr \<Rightarrow> 's \<Rightarrow> 's option) \<Rightarrow> nat \<Rightarrow> 's handles \<Rightarrow> 's handles option" where
  "Shared_dtor free h st = map_option (\<lambda>m. st\<lparr>hmem := m\<rparr>) (free (hptr st h) (hmem st))"

definition take_object :: "nat \<Rightarrow> nat \<Rightarrow> 's handles \<Rightarrow> 's handles" where
  "take_object h rhs st = (let st1 = st\<lparr>hptr := (hptr st)(h := hptr st rhs)\<rparr> in st1\<lparr>hptr := (hptr st1)(rhs := None)\<rparr>)"

definition Shared_move_new :: "(ptr \<Rightarrow> 's \<Rightarrow> 's option) \<Rightarrow> nat \<Rightarrow> nat \<Rightarrow> 's handles \<Rightarrow> 's handles option" where
  "Shared_move_new free h rhs st =
     map_option (\<lambda>st1. (take_object h rhs st1)\<lparr>hlive := insert h (hlive st)\<rparr>) (Shared_dtor free h st)"

definition Shared_move_assign :: "(ptr \<Rightarrow> 's \<Rightarrow> 's option) \<Rightarrow> nat \<Rightarrow> nat \<Rightarrow> 's handles \<Rightarrow> 's handles option" where
  "Shared_move_assign free h rhs st = map_option (take_object h rhs) (Shared_dtor free h st)"

definition Shared_delete :: "(ptr \<Rightarrow> 's \<Rightarrow> 's option) \<Rightarrow> nat \<Rightarrow> 's handles \<Rightarrow> 's handles option" where
  "Shared_delete free h st = map_option (\<lambda>st1. st1\<lparr>hlive := hlive st - {h}\<rparr>) (Shared_dtor free h st)"

datatype 'q handle_act = H_new nat 'q | H_move_new nat nat | H_move_assign nat nat | H_delete nat

fun handle_do :: "('q \<Rightarrow> 's \<Rightarrow> (('e + addr) \<times> 's) option) \<Rightarrow> (ptr \<Rightarrow> 's \<Rightarrow> 's option) \<Rightarrow> 'q handle_act \<Rightarrow> 's handles \<Rightarrow> 's handles option" where
  "handle_do alloc free (H_new h q) st = Shared_new alloc h q st"
| "handle_do alloc free (H_move_new h rhs) st = Shared_move_new free h rhs st"
| "handle_do alloc free (H_move_assign h rhs) st = Shared_move_assign free h rhs st"
| "handle_do alloc free (H_delete h) st = Shared_delete free h st"

text \<open>What a program may do: handles are made where none lives and used where one lives, the answers of the allocator are legitimate, and
  (which the language does not promise) storage a handle is moved into holds a null pointer.\<close>

fun handle_may :: "('q \<Rightarrow> 's \<Rightarrow> bool) \<Rightarrow> 'q handle_act \<Rightarrow> 's handles \<Rightarrow> bool" where
  "handle_may legit (H_new h q) st \<longleftrightarrow> h \<notin> hlive st \<and> legit q (hmem st)"
| "handle_may legit (H_move_new h rhs) st \<longleftrightarrow> h \<notin> hlive st \<and> rhs \<in> hlive st \<and> hptr st h = None"
| "handle_may legit (H_move_assign h rhs) st \<longleftrightarrow> h \<in> hlive st \<and> rhs \<in> hlive st"
| "handle_may legit (H_delete h) st \<longleftrightarrow> h \<in> hlive st"

inductive handle_step for alloc free legit where
  act: "handle_may legit a st \<Longrightarrow> handle_do alloc free a st = Some st' \<Longrightarrow> handle_step alloc free legit st st'"

definition held_objects :: "'s handles \<Rightarrow> addr set" where
  "held_objects st = {p. \<exists>h \<in> hlive st. hptr st h = Some p}"

definition owners_apart :: "'s handles \<Rightarrow> bool" where
  "owners_apart st \<longleftrightarrow> (\<forall>h \<in> hlive st. \<forall>g \<in> hlive st. \<forall>p. hptr st h = Some p \<and> hptr st g = Some p \<longrightarrow> h = g)"

lemma owned_take:
  assumes "h \<in> hlive st" and "g \<in> hlive st" and "owners_apart st"
  shows "held_objects (take_object h g (st\<lparr>hmem := m\<rparr>)) = held_objects st - set_option (hptr st h)"
proof (intro set_eqI iffI)
  fix p assume "p \<in> held_objects (take_object h g (st\<lparr>hmem := m\<rparr>))"
  then obtain k where k: "k \<in> hlive st" "k \<noteq> g" "(if k = h then hptr st g else hptr st k) = Some p"
    by (auto simp: held_objects_def take_object_def Let_def split: if_splits)
  then show "p \<in> held_objects st - set_option (hptr st h)" using assms
    by (cases "k = h") (auto simp: held_objects_def owners_apart_def)
next
  fix p assume "p \<in> held_objects st - set_option (hptr st h)"
  then obtain k where k: "k \<in> hlive st" "hptr st k = Some p" "k \<noteq> h" by (auto simp: held_objects_def)
  then show "p \<in> held_objects (take_object h g (st\<lparr>hmem := m\<rparr>))" using assms
    by (cases "k = g") (auto simp: held_objects_def take_object_def Let_def intro: bexI [of _ h] bexI [of _ k])
qed

subsection \<open>What a handle needs of its allocator\<close>

locale shared_allocator =
  fixes alloc :: "'q \<Rightarrow> 's \<Rightarrow> (('e + addr) \<times> 's) option"
    and free :: "ptr \<Rightarrow> 's \<Rightarrow> 's option"
    and legit :: "'q \<Rightarrow> 's \<Rightarrow> bool"
    and inv :: "'s \<Rightarrow> bool"
    and live :: "'s \<Rightarrow> addr set"
  assumes alloc_returns: "inv s \<Longrightarrow> legit q s \<Longrightarrow> alloc q s \<noteq> None"
    and alloc_failed: "inv s \<Longrightarrow> legit q s \<Longrightarrow> alloc q s = Some (Inl e, s') \<Longrightarrow> inv s' \<and> live s' = live s"
    and alloc_made: "inv s \<Longrightarrow> legit q s \<Longrightarrow> alloc q s = Some (Inr p, s') \<Longrightarrow> inv s' \<and> p \<notin> live s \<and> live s' = insert p (live s)"
    and free_null: "free None s = Some s"
    and free_live: "inv s \<Longrightarrow> p \<in> live s \<Longrightarrow> \<exists>s'. free (Some p) s = Some s' \<and> inv s' \<and> live s' = live s - {p}"
begin

definition ok :: "'s handles \<Rightarrow> bool" where
  "ok st \<longleftrightarrow> inv (hmem st) \<and> live (hmem st) = held_objects st \<and> owners_apart st"

lemma dtor_live:
  assumes "ok st" and "h \<in> hlive st"
  shows "\<exists>m. Shared_dtor free h st = Some (st\<lparr>hmem := m\<rparr>) \<and> inv m \<and> live m = held_objects st - set_option (hptr st h)"
proof (cases "hptr st h")
  case None
  then show ?thesis using assms by (intro exI [of _ "hmem st"]) (simp add: Shared_dtor_def free_null ok_def)
next
  case (Some p)
  then have "p \<in> live (hmem st)" using assms by (auto simp: ok_def held_objects_def)
  then show ?thesis using free_live [of "hmem st" p] Some assms(1) by (auto simp: Shared_dtor_def ok_def)
qed

lemma handle_new_ok:
  assumes "ok st" and "h \<notin> hlive st" and "legit q (hmem st)"
  shows "\<exists>st'. Shared_new alloc h q st = Some st' \<and> ok st'"
proof -
  obtain r m where a: "alloc q (hmem st) = Some (r, m)" using alloc_returns assms by (fastforce simp: ok_def)
  show ?thesis
  proof (cases r)
    case (Inl e)
    then show ?thesis using a alloc_failed [of "hmem st" q e m] assms by (simp add: Shared_new_def ok_def held_objects_def owners_apart_def)
  next
    case (Inr p)
    then have p: "inv m" "p \<notin> held_objects st" "live m = insert p (held_objects st)" using a alloc_made [of "hmem st" q p m] assms by (auto simp: ok_def)
    let ?st = "st\<lparr>hmem := m, hptr := (hptr st)(h := Some p), hlive := insert h (hlive st)\<rparr>"
    have "held_objects ?st = insert p (held_objects st)" using assms(2) by (auto simp: held_objects_def)
    moreover have "owners_apart ?st" using assms p(2) by (auto simp: owners_apart_def held_objects_def ok_def)
    ultimately show ?thesis using a Inr p by (simp add: Shared_new_def ok_def)
  qed
qed

lemma delete_ok:
  assumes "ok st" and "h \<in> hlive st"
  shows "\<exists>st'. Shared_delete free h st = Some st' \<and> ok st'"
proof -
  obtain m where m: "Shared_dtor free h st = Some (st\<lparr>hmem := m\<rparr>)" "inv m" "live m = held_objects st - set_option (hptr st h)"
    using dtor_live [OF assms] by blast
  have "held_objects (st\<lparr>hmem := m, hlive := hlive st - {h}\<rparr>) = held_objects st - set_option (hptr st h)"
    using assms by (auto simp: held_objects_def owners_apart_def ok_def)
  moreover have "owners_apart (st\<lparr>hmem := m, hlive := hlive st - {h}\<rparr>)" using assms by (simp add: owners_apart_def ok_def)
  ultimately show ?thesis using m by (simp add: Shared_delete_def ok_def)
qed

lemma move_assign_ok:
  assumes "ok st" and "h \<in> hlive st" and "g \<in> hlive st"
  shows "\<exists>st'. Shared_move_assign free h g st = Some st' \<and> ok st'"
proof -
  obtain m where m: "Shared_dtor free h st = Some (st\<lparr>hmem := m\<rparr>)" "inv m" "live m = held_objects st - set_option (hptr st h)"
    using dtor_live [OF assms(1,2)] by blast
  let ?st = "take_object h g (st\<lparr>hmem := m\<rparr>)"
  have "held_objects ?st = held_objects st - set_option (hptr st h)" using assms by (intro owned_take) (simp_all add: ok_def)
  moreover have "owners_apart ?st" using assms unfolding ok_def owners_apart_def take_object_def by (auto split: if_splits)
  ultimately show ?thesis using m by (simp add: Shared_move_assign_def ok_def take_object_def)
qed

lemma move_new_ok:
  assumes "ok st" and "h \<notin> hlive st" and "g \<in> hlive st" and "hptr st h = None"
  shows "\<exists>st'. Shared_move_new free h g st = Some st' \<and> ok st'"
proof -
  let ?st = "(take_object h g st)\<lparr>hlive := insert h (hlive st)\<rparr>"
  have "held_objects ?st = held_objects st" using assms by (auto simp: held_objects_def take_object_def split: if_splits)
  moreover have "owners_apart ?st" using assms unfolding ok_def owners_apart_def take_object_def by (auto split: if_splits)
  ultimately show ?thesis using assms by (simp add: Shared_move_new_def Shared_dtor_def free_null ok_def take_object_def)
qed

lemma handle_act_ok: "ok st \<Longrightarrow> handle_may legit a st \<Longrightarrow> \<exists>st'. handle_do alloc free a st = Some st' \<and> ok st'"
  by (cases a) (simp_all add: handle_new_ok delete_ok move_assign_ok move_new_ok)

lemma start_ok: "inv m \<Longrightarrow> live m = {} \<Longrightarrow> ok (handles_start m residue)"
  by (simp add: ok_def handles_start_def held_objects_def owners_apart_def)

lemma run_ok: "(handle_step alloc free legit)\<^sup>*\<^sup>* st st' \<Longrightarrow> ok st \<Longrightarrow> ok st'"
proof (induction rule: rtranclp_induct)
  case (step y z)
  from step.hyps(2) obtain a where "handle_may legit a y" "handle_do alloc free a y = Some z" by (auto elim: handle_step.cases)
  then show ?case using handle_act_ok [of y a] step.IH [OF step.prems] by auto
qed

lemma run_owned:
  assumes "(handle_step alloc free legit)\<^sup>*\<^sup>* (handles_start m residue) st" and "inv m" and "live m = {}"
  shows "live (hmem st) = held_objects st \<and> owners_apart st \<and> (\<forall>a. handle_may legit a st \<longrightarrow> handle_do alloc free a st \<noteq> None) \<and> inv (hmem st)"
proof -
  have o: "ok st" using run_ok [OF assms(1)] start_ok [OF assms(2,3)] by blast
  then show ?thesis using handle_act_ok [OF o] unfolding ok_def by blast
qed

end

subsection \<open>Handles over pages\<close>

text \<open>What \<open>allocate_\<close> promises: it returns null or a block that is not in use.\<close>

definition page_fresh :: "ptr \<times> bool \<Rightarrow> shared_mem \<Rightarrow> bool" where
  "page_fresh q m = (case fst q of None \<Rightarrow> True | Some p \<Rightarrow> sblocks m p = None)"

definition page_inv :: "u64 \<Rightarrow> shared_mem \<Rightarrow> bool" where
  "page_inv sz m \<longleftrightarrow> unat sz + 4096 \<le> 2 ^ 64 \<and> sleaked m = 0 \<and> (\<forall>p n objs. sblocks m p = Some (n, objs) \<longrightarrow> objs = {0})"

lemma page_bytes:
  assumes "unat (sz :: u64) + 4096 \<le> 2 ^ 64"
  shows "\<exists>b. alignUp sz 4096 = Some b \<and> unat sz \<le> unat b"
proof -
  have p: "(2 :: u64) ^ 12 = 4096" "(2 :: nat) ^ 12 = 4096" by simp_all
  define n where "n = (if 4096 dvd unat sz then unat sz else (unat sz div 4096 + 1) * 4096)"
  have a: "alignUp sz 4096 = Some (of_nat n)" using align_correct [of sz 12] assms unfolding p n_def by simp
  have le: "unat sz \<le> n" by (auto simp: n_def dividend_less_div_times less_imp_le)
  have "n < 2 ^ 64"
  proof (cases "4096 dvd unat sz")
    case False
    then have "unat sz div 4096 * 4096 \<noteq> unat sz" by (metis dvd_triv_right)
    moreover have "unat sz div 4096 * 4096 \<le> unat sz" by (rule div_times_less_eq_dividend)
    ultimately show ?thesis using False assms unfolding n_def by (simp only: if_False add_mult_distrib)
  qed (use assms in \<open>simp add: n_def\<close>)
  then show ?thesis using a le by (auto simp: unat_of_nat take_bit_eq_mod)
qed

lemma page_alloc_cases:
  assumes "page_inv sz m" and "page_fresh q m"
  shows "(\<exists>e. PageAllocator_alloc sz q m = Some (Inl e, m)) \<or>
    (\<exists>p n. fst q = Some p \<and> sblocks m p = None \<and>
       PageAllocator_alloc sz q m = Some (Inr p, m\<lparr>sblocks := (sblocks m)(p := Some (n, {0}))\<rparr>))"
proof -
  obtain b where b: "alignUp sz 4096 = Some b" "unat sz \<le> unat b" using page_bytes [of sz] assms(1) unfolding page_inv_def by blast
  show ?thesis
  proof (cases "fst q")
    case None
    then show ?thesis using b by (simp add: PageAllocator_alloc_def)
  next
    case (Some p)
    then have "sblocks m p = None" using assms(2) by (simp add: page_fresh_def)
    then show ?thesis using Some b
      by (cases "snd q") (auto simp: PageAllocator_alloc_def Let_def mem_allocate_def mem_free_def mem_construct_def fun_upd_idem)
  qed
qed

interpretation pages: shared_allocator "PageAllocator_alloc sz" PageAllocator_free page_fresh "page_inv sz" "\<lambda>m. dom (sblocks m)" for sz
proof unfold_locales
  fix q and m :: shared_mem
  assume i: "page_inv sz m" and f: "page_fresh q m"
  note c = page_alloc_cases [OF i f]
  show "PageAllocator_alloc sz q m \<noteq> None" using c by auto
  show "PageAllocator_alloc sz q m = Some (Inl e, m') \<Longrightarrow> page_inv sz m' \<and> dom (sblocks m') = dom (sblocks m)" for e m'
    using c i by auto
  show "page_inv sz m' \<and> p \<notin> dom (sblocks m) \<and> dom (sblocks m') = insert p (dom (sblocks m))"
    if made: "PageAllocator_alloc sz q m = Some (Inr p, m')" for p m'
  proof -
    obtain n where n: "sblocks m p = None" "m' = m\<lparr>sblocks := (sblocks m)(p := Some (n, {0}))\<rparr>" using c made by auto
    have "objs = {0}" if "sblocks m' k = Some (l, objs)" for k l objs
      using that i n by (cases "k = p") (auto simp: page_inv_def)
    then show ?thesis using n i by (auto simp: page_inv_def)
  qed
next
  show "PageAllocator_free None m = Some m" for m by (simp add: PageAllocator_free_def)
next
  fix m p
  assume i: "page_inv sz m" and "p \<in> dom (sblocks m)"
  then obtain n where n: "sblocks m p = Some (n, {0})" by (auto simp: page_inv_def)
  then have "PageAllocator_free (Some p) m = Some (m\<lparr>sblocks := (sblocks m)(p := None)\<rparr>)"
    by (simp add: PageAllocator_free_def mem_destroy_def mem_free_def)
  then show "\<exists>m'. PageAllocator_free (Some p) m = Some m' \<and> page_inv sz m' \<and> dom (sblocks m') = dom (sblocks m) - {p}"
    using i by (auto simp: page_inv_def)
qed

subsection \<open>Handles over a pool\<close>

text \<open>\<open>Shared<SharedSignal, SharedSignalPool>\<close> of \<open>LocalSignal\<close>: the pool with the objects it has handed out.\<close>

definition pooled_alloc :: "nat \<Rightarrow> ptr \<times> ptr \<Rightarrow> addr list \<times> pool \<Rightarrow> ((pool_error + addr) \<times> addr list \<times> pool) option" where
  "pooled_alloc sz q s = (case pool_alloc sz (fst q) (snd q) (snd s) of
      Inl e \<Rightarrow> Some (Inl e, s)
    | Inr (a, p) \<Rightarrow> Some (Inr a, (a # fst s, p)))"

definition pooled_free :: "nat \<Rightarrow> ptr \<Rightarrow> addr list \<times> pool \<Rightarrow> (addr list \<times> pool) option" where
  "pooled_free sz x s = (case pool_free sz x (snd s) of
      Inl e \<Rightarrow> None
    | Inr p \<Rightarrow> Some (case x of None \<Rightarrow> fst s | Some a \<Rightarrow> remove1 a (fst s), p))"

definition pooled_fresh :: "nat \<Rightarrow> ptr \<times> ptr \<Rightarrow> addr list \<times> pool \<Rightarrow> bool" where
  "pooled_fresh sz q s \<longleftrightarrow> fresh_block sz (snd s) (block_size (snd s)) (fst q) \<and> fresh_block sz (snd s) (minblock sz) (snd q)"

definition pooled_inv :: "nat \<Rightarrow> addr list \<times> pool \<Rightarrow> bool" where
  "pooled_inv sz s \<longleftrightarrow> 0 < sz \<and> sz \<le> 4096 \<and> pool_inv sz s"

interpretation pooled: shared_allocator "pooled_alloc sz" "pooled_free sz" "pooled_fresh sz" "pooled_inv sz" "\<lambda>s. set (fst s)" for sz
proof unfold_locales
  fix q s
  assume i: "pooled_inv sz s" and f: "pooled_fresh sz q s"
  obtain out p where s: "s = (out, p)" by (cases s)
  show "pooled_alloc sz q s \<noteq> None" by (auto simp: pooled_alloc_def split: sum.splits)
  show "pooled_alloc sz q s = Some (Inl e, s') \<Longrightarrow> pooled_inv sz s' \<and> set (fst s') = set (fst s)" for e s'
    using i by (auto simp: pooled_alloc_def split: sum.splits)
  show "pooled_inv sz s' \<and> a \<notin> set (fst s) \<and> set (fst s') = insert a (set (fst s))"
    if "pooled_alloc sz q s = Some (Inr a, s')" for a s'
  proof -
    obtain p' where p': "pool_alloc sz (fst q) (snd q) p = Inr (a, p')" "s' = (a # out, p')"
      using \<open>pooled_alloc sz q s = Some (Inr a, s')\<close> by (auto simp: pooled_alloc_def s split: sum.splits)
    then have "pool_step sz (out, p) (a # out, p')" using f by (intro pool_step.alloc) (auto simp: pooled_fresh_def s)
    then have "pool_inv sz (a # out, p')" using pool_step_inv i by (auto simp: pooled_inv_def s)
    then show ?thesis using i p' pool_inv_distinct [of sz "a # out" p'] by (simp add: pooled_inv_def s)
  qed
next
  show "pooled_free sz None s = Some s" for s by (simp add: pooled_free_def pool_free_def)
next
  fix s a
  assume i: "pooled_inv sz s" and a: "a \<in> set (fst s)"
  obtain out p where s: "s = (out, p)" by (cases s)
  have z: "0 < sz" "sz \<le> 4096" "pool_inv sz (out, p)" using i by (auto simp: pooled_inv_def s)
  have b: "pool_free sz (Some a) p = Inr (p\<lparr>free_list := free_list p @ [a]\<rparr>)"
    using pool_inv_belongs [OF z(1,3)] a by (simp add: pool_free_def s)
  have "distinct out" using pool_inv_distinct [OF z(1,3)] by simp
  moreover have "pool_inv sz (remove1 a out, p\<lparr>free_list := free_list p @ [a]\<rparr>)"
    using pool_step_inv [OF pool_step.free [OF _ b] z(3,1,2)] a by (simp add: s)
  ultimately show "\<exists>s'. pooled_free sz (Some a) s = Some s' \<and> pooled_inv sz s' \<and> set (fst s') = set (fst s) - {a}"
    using b z by (simp add: pooled_free_def s pooled_inv_def)
qed

text \<open>Moving into storage that holds any pointer but null runs the destructor on it: the object of some other handle is destroyed, or the
  pointer is dangling and the destructor itself is undefined.\<close>

lemma page_free_cases: "PageAllocator_free (Some p) m = Some m' \<Longrightarrow> sblocks m p \<noteq> None \<and> sblocks m' = (sblocks m)(p := None)"
  by (auto simp: PageAllocator_free_def mem_destroy_def mem_free_def split: option.splits if_splits)

lemma page_free_unknown: "sblocks m p = None \<Longrightarrow> PageAllocator_free (Some p) m = None"
  by (simp add: PageAllocator_free_def mem_destroy_def)

lemma move_new_residue:
  assumes "dom (sblocks (hmem st)) = held_objects st" and "h \<notin> hlive st" and "hptr st h = Some p"
    and "Shared_move_new PageAllocator_free h g st = Some st'" and "g \<in> hlive st"
  shows "\<exists>k \<in> hlive st'. Shared_delete PageAllocator_free k st' = None"
proof -
  obtain m where m: "PageAllocator_free (Some p) (hmem st) = Some m"
    and st': "st' = (take_object h g (st\<lparr>hmem := m\<rparr>))\<lparr>hlive := insert h (hlive st)\<rparr>"
    using assms(3,4) by (auto simp: Shared_move_new_def Shared_dtor_def)
  note f = page_free_cases [OF m]
  then obtain k where k: "k \<in> hlive st" "hptr st k = Some p" using assms(1) by (auto simp: held_objects_def)
  let ?k = "if k = g then h else k"
  have kh: "k \<noteq> h" "h \<noteq> g" using k(1) assms(2,5) by auto
  have "hptr st' ?k = Some p" using k(2) kh by (cases "k = g") (simp_all add: st' take_object_def Let_def)
  moreover have "?k \<in> hlive st'" using k(1) kh by (simp add: st' take_object_def Let_def)
  moreover have "sblocks (hmem st') p = None" using f by (simp add: st' take_object_def Let_def)
  ultimately show ?thesis using page_free_unknown by (intro bexI [of _ ?k]) (simp_all add: Shared_delete_def Shared_dtor_def)
qed


lemma page_64: "alignUp 64 4096 = Some 4096"
  by (simp add: alignUp_def alignDown_def isPowerOf2_def)


subsection \<open>Arrays\<close>

text \<open>The loop of the constructor from element \<open>i\<close>, whose own constructor throws at element \<open>thr\<close>: where it stopped.\<close>

function array_ctors :: "addr \<Rightarrow> nat \<Rightarrow> nat \<Rightarrow> nat option \<Rightarrow> nat \<Rightarrow> shared_mem \<Rightarrow> (nat \<times> shared_mem) option" where
  "array_ctors p sz len thr i m =
     (if i < len \<and> thr \<noteq> Some i
      then (case mem_construct p (i * sz) sz m of None \<Rightarrow> None | Some m1 \<Rightarrow> array_ctors p sz len thr (Suc i) m1)
      else Some (i, m))"
  by auto
termination by (relation "measure (\<lambda>(p, sz, len, thr, i, m). len - i)") auto

text \<open>\<open>for (; t < bound; t++) shared_object_[t].~T()\<close>\<close>

function array_dtors :: "addr \<Rightarrow> nat \<Rightarrow> nat \<Rightarrow> nat \<Rightarrow> shared_mem \<Rightarrow> shared_mem option" where
  "array_dtors p sz bound t m =
     (if t < bound then (case mem_destroy p (t * sz) m of None \<Rightarrow> None | Some m1 \<Rightarrow> array_dtors p sz bound (Suc t) m1) else Some m)"
  by auto
termination by (relation "measure (\<lambda>(p, sz, bound, t, m). bound - t)") auto

declare array_ctors.simps [simp del] array_dtors.simps [simp del]

definition array_release :: "addr \<Rightarrow> nat \<Rightarrow> nat \<Rightarrow> shared_mem \<Rightarrow> shared_mem option" where
  "array_release p sz bound m = (case array_dtors p sz bound 0 m of None \<Rightarrow> None | Some m1 \<Rightarrow> mem_free p m1)"

definition SharedArray_new :: "u64 \<Rightarrow> u64 \<Rightarrow> ptr \<times> nat option \<Rightarrow> shared_mem \<Rightarrow> ((shared_error + addr) \<times> shared_mem) option" where
  "SharedArray_new sizeof_T len q m = (case fst q of
      None \<Rightarrow> Some (Inl No_Memory, m)
    | Some p \<Rightarrow> (case array_ctors p (unat sizeof_T) (unat len) (snd q) 0 (mem_allocate p (unat (sizeof_T * len)) m) of
        None \<Rightarrow> None
      | Some (i, m1) \<Rightarrow>
          (let loopGuard = ScopeGuard_new (array_release p (unat sizeof_T) (unat (of_nat i - 1 :: u64)))
           in if i < unat len then map_option (\<lambda>m'. (Inl Ctor_Threw, m')) (ScopeGuard_end loopGuard m1)
              else map_option (\<lambda>m'. (Inr p, m')) (ScopeGuard_end (ScopeGuard_Dismiss loopGuard) m1))))"

definition SharedArray_dtor :: "u64 \<Rightarrow> u64 \<Rightarrow> ptr \<Rightarrow> shared_mem \<Rightarrow> shared_mem option" where
  "SharedArray_dtor sizeof_T len ptr m = (case ptr of None \<Rightarrow> Some m | Some p \<Rightarrow> array_release p (unat sizeof_T) (unat len) m)"

definition SharedArray_at :: "u64 \<Rightarrow> u64 \<Rightarrow> addr \<Rightarrow> u64 \<Rightarrow> addr option" where
  "SharedArray_at sizeof_T len p index = guarded (index < len) (Some (p + unat index * unat sizeof_T))"

definition elements :: "nat \<Rightarrow> nat set \<Rightarrow> nat set" where
  "elements sz js = (\<lambda>j. j * sz) ` js"

lemma elements_mem [simp]: "0 < sz \<Longrightarrow> i * sz \<in> elements sz js \<longleftrightarrow> i \<in> js"
  by (auto simp: elements_def)

lemma elements_simps [simp]: "elements sz {} = {}" "elements sz {j} = {j * sz}"
  by (simp_all add: elements_def)

lemma elements_Suc: "insert (i * sz) (elements sz {..<i}) = elements sz {..<Suc i}"
  by (simp add: elements_def lessThan_Suc)

lemma array_ctors_stop:
  assumes "i \<le> e" and "e \<le> len" and "\<forall>j. i \<le> j \<and> j < e \<longrightarrow> thr \<noteq> Some j" and "e = len \<or> thr = Some e"
    and "0 < sz" and "e * sz \<le> n" and "sblocks m p = Some (n, elements sz {..<i})"
  shows "array_ctors p sz len thr i m = Some (e, m\<lparr>sblocks := (sblocks m)(p := Some (n, elements sz {..<e}))\<rparr>)"
  using assms
proof (induction "e - i" arbitrary: i m)
  case 0
  then show ?case by (auto simp: array_ctors.simps [of p sz len thr i] fun_upd_idem)
next
  case (Suc d)
  have "Suc i * sz \<le> e * sz" using Suc.hyps(2) by (intro mult_le_mono1) simp
  then have b: "i * sz + sz \<le> n" using Suc.prems(6) by simp
  have l: "i < len" "thr \<noteq> Some i" using Suc.hyps(2) Suc.prems(2,3) by auto
  have "array_ctors p sz len thr i m =
      array_ctors p sz len thr (Suc i) (m\<lparr>sblocks := (sblocks m)(p := Some (n, elements sz {..<Suc i}))\<rparr>)"
    using Suc.prems l b by (simp add: array_ctors.simps [of p sz len thr i] mem_construct_def elements_Suc)
  also have "\<dots> = Some (e, m\<lparr>sblocks := (sblocks m)(p := Some (n, elements sz {..<e}))\<rparr>)"
    using Suc.hyps(2) Suc.prems by (subst Suc.hyps(1)) auto
  finally show ?case .
qed

lemma array_ctors_outside:
  assumes "n < len * sz" and "i * sz \<le> n" and "sblocks m p = Some (n, elements sz {..<i})"
  shows "array_ctors p sz len None i m = None"
  using assms
proof (induction "len - i" arbitrary: i m)
  case 0
  have "len \<le> i" using 0 by simp
  then have "len * sz \<le> i * sz" by (rule mult_le_mono1)
  then show ?case using 0 by linarith
next
  case (Suc d)
  then show ?case
    by (auto simp: array_ctors.simps [of p sz len None i] mem_construct_def elements_Suc add.commute
        intro!: Suc.hyps(1) split: option.splits if_splits)
qed

lemma array_dtors_exact:
  assumes "0 < sz" and "sblocks m p = Some (n, elements sz js)" and "{t..<bound} \<subseteq> js"
  shows "array_dtors p sz bound t m = Some (m\<lparr>sblocks := (sblocks m)(p := Some (n, elements sz (js - {t..<bound})))\<rparr>)"
  using assms
proof (induction "bound - t" arbitrary: t m js)
  case 0
  then show ?case by (simp add: array_dtors.simps [of p sz bound t] fun_upd_idem)
next
  case (Suc d)
  have t: "t < bound" "t \<in> js" using Suc by auto
  have e: "elements sz js - {t * sz} = elements sz (js - {t})" using Suc.prems(1) by (auto simp: elements_def)
  have i: "js - {t} - {Suc t..<bound} = js - {t..<bound}" using t by auto
  have "array_dtors p sz bound t m = array_dtors p sz bound (Suc t) (m\<lparr>sblocks := (sblocks m)(p := Some (n, elements sz (js - {t})))\<rparr>)"
    using Suc.prems t by (simp add: array_dtors.simps [of p sz bound t] mem_destroy_def e)
  also have "\<dots> = Some (m\<lparr>sblocks := (sblocks m)(p := Some (n, elements sz (js - {t..<bound})))\<rparr>)"
    using Suc.hyps(2) Suc.prems t by (subst Suc.hyps(1)) (auto simp: i)
  finally show ?case .
qed

text \<open>C22: the constructor of an array of objects. Without overflow of the size it makes exactly the given elements, which the destructor takes away
  again, leaving memory as it was. When the constructor of element \<open>k\<close> throws, the block is freed but element \<open>k - 1\<close> is never destroyed,
  and for \<open>k = 0\<close> the guard destroys elements that were never made. When the size in bytes overflows, elements are written outside the block.\<close>

theorem shared_array_exact:
  assumes "sblocks m p = None" and "0 < sz"
  shows "(unat sz * unat len < 2 ^ 64 \<longrightarrow>
      (let m1 = m\<lparr>sblocks := (sblocks m)(p := Some (unat sz * unat len, elements (unat sz) {..<unat len}))\<rparr>
       in SharedArray_new sz len (Some p, None) m = Some (Inr p, m1) \<and> SharedArray_dtor sz len (Some p) m1 = Some m) \<and>
      (\<forall>k < unat len. SharedArray_new sz len (Some p, Some k) m = (if k = 0 then None else Some (Inl Ctor_Threw, m\<lparr>sleaked := sleaked m + 1\<rparr>)))) \<and>
    (2 ^ 64 \<le> unat sz * unat len \<longrightarrow> SharedArray_new sz len (Some p, None) m = None) \<and>
    SharedArray_new sz len (None, thr) m = Some (Inl No_Memory, m)"
proof -
  have z: "0 < unat sz" using assms(2) by (simp add: word_less_nat_alt)
  define a where "a = mem_allocate p (unat (sz * len)) m"
  have a: "sblocks a p = Some (unat (sz * len), elements (unat sz) {..<0})" by (simp add: a_def mem_allocate_def elements_def)
  have part: "SharedArray_new sz len (Some p, None) m = Some (Inr p, m\<lparr>sblocks := (sblocks m)(p := Some (n, elements (unat sz) {..<unat len}))\<rparr>)"
    if n: "n = unat sz * unat len" "n < 2 ^ 64" for n
  proof -
    have "unat (sz * len) = n" using n by (simp add: unat_word_ariths take_bit_eq_mod)
    then have "array_ctors p (unat sz) (unat len) None 0 a =
        Some (unat len, a\<lparr>sblocks := (sblocks a)(p := Some (n, elements (unat sz) {..<unat len}))\<rparr>)"
      using a n z by (intro array_ctors_stop) (simp_all add: mult.commute)
    then show ?thesis by (simp add: SharedArray_new_def a_def mem_allocate_def Let_def)
  qed
  have dtor: "SharedArray_dtor sz len (Some p) (m\<lparr>sblocks := (sblocks m)(p := Some (n, elements (unat sz) {..<unat len}))\<rparr>) = Some m" for n
  proof -
    have "elements (unat sz) ({..<unat len} - {0..<unat len}) = {}" by (auto simp: elements_def)
    then have "array_dtors p (unat sz) (unat len) 0 (m\<lparr>sblocks := (sblocks m)(p := Some (n, elements (unat sz) {..<unat len}))\<rparr>) =
        Some (m\<lparr>sblocks := (sblocks m)(p := Some (n, {}))\<rparr>)"
      by (subst array_dtors_exact [OF z, where js = "{..<unat len}" and n = n]) auto
    then show ?thesis using assms(1) by (simp add: SharedArray_dtor_def array_release_def mem_free_def fun_upd_idem)
  qed
  have threw: "SharedArray_new sz len (Some p, Some k) m = (if k = 0 then None else Some (Inl Ctor_Threw, m\<lparr>sleaked := sleaked m + 1\<rparr>))"
    if n: "unat sz * unat len < 2 ^ 64" and k: "k < unat len" for k
  proof -
    have s: "unat (sz * len) = unat len * unat sz" using n by (simp add: unat_word_ariths take_bit_eq_mod mult.commute)
    have ks: "k * unat sz \<le> unat len * unat sz" using k by (intro mult_le_mono1) simp
    define b where "b = a\<lparr>sblocks := (sblocks a)(p := Some (unat len * unat sz, elements (unat sz) {..<k}))\<rparr>"
    have c: "array_ctors p (unat sz) (unat len) (Some k) 0 a = Some (k, b)"
      unfolding b_def using a s k z ks by (intro array_ctors_stop) simp_all
    have bp: "sblocks b p = Some (unat len * unat sz, elements (unat sz) {..<k})" by (simp add: b_def)
    have k64: "k < 2 ^ 64" using k unsigned_less [where 'a = nat, of len] by simp
    show ?thesis
    proof (cases "k = 0")
      case True
      have "0 < unat (- 1 :: u64)" by (simp add: unsigned_minus_1_eq_mask mask_eq_exp_minus_1)
      then have "array_release p (unat sz) (unat (of_nat k - 1 :: u64)) b = None" using True bp
        by (simp add: array_release_def array_dtors.simps [of p _ _ 0] mem_destroy_def elements_def)
      then show ?thesis using c True k by (simp add: SharedArray_new_def a_def [symmetric] Let_def)
    next
      case False
      then have "of_nat k - 1 = (of_nat (k - 1) :: u64)" by (simp add: of_nat_diff)
      then have u: "unat (of_nat k - 1 :: u64) = k - 1" using k64 by (simp add: unat_of_nat take_bit_eq_mod)
      have e: "{..<k} - {0..<k - 1} = {k - 1}" using False by auto
      have "array_dtors p (unat sz) (k - 1) 0 b =
          Some (b\<lparr>sblocks := (sblocks b)(p := Some (unat len * unat sz, elements (unat sz) ({..<k} - {0..<k - 1})))\<rparr>)"
        by (rule array_dtors_exact [OF z bp]) auto
      then have "array_release p (unat sz) (k - 1) b = Some (m\<lparr>sleaked := sleaked m + 1\<rparr>)"
        using assms(1) unfolding e by (simp add: array_release_def mem_free_def b_def a_def mem_allocate_def fun_upd_idem)
      then show ?thesis using c False k u by (simp add: SharedArray_new_def a_def [symmetric] Let_def)
    qed
  qed
  have "SharedArray_new sz len (Some p, None) m = None" if "2 ^ 64 \<le> unat sz * unat len"
  proof -
    have "unat (sz * len) < unat len * unat sz" using that unsigned_less [where 'a = nat, of "sz * len"] by (simp add: mult.commute)
    then have "array_ctors p (unat sz) (unat len) None 0 a = None" using array_ctors_outside [of "unat (sz * len)"] a by simp
    then show ?thesis by (simp add: SharedArray_new_def a_def)
  qed
  then show ?thesis using part dtor threw by (simp add: Let_def SharedArray_new_def)
qed

theorem shared_array_exact_witness:
  "SharedArray_new 8 3 (Some 4096, Some 2) shared_mem_new = Some (Inl Ctor_Threw, \<lparr>sblocks = (\<lambda>p. None), sleaked = 1\<rparr>) \<and>
   SharedArray_new (2 ^ 63) 2 (Some 4096, None) shared_mem_new = None"
  using shared_array_exact [of shared_mem_new 4096 8 3] shared_array_exact [of shared_mem_new 4096 "2 ^ 63" 2]
  by (auto simp: shared_mem_new_def)

end
