(* ===== verification/Deferred_Calls.thy ===== *)
theory Deferred_Calls
  imports Co_Prelude "HOL-Library.Multiset"
begin

text \<open>
  Deferred calls (\<open>src/defer/Defer.h\<close>, \<open>src/defer/Defer.cpp\<close>): \<open>co_defer\<close> makes an object on the stack whose destructor calls a function unless
  the object has been dismissed, and \<open>co_last_defer()\<close> is the one made last. The model has the objects of one coroutine, or of a thread outside
  coroutines, the latest first, each with its address, its function and \<open>dismiss_\<close>; the variable behind \<open>GetLastDefer\<close> and the functions
  called so far. A reference to an object that no longer lives is undefined.
\<close>

record 'f defers =
  dstack :: "(addr \<times> 'f \<times> bool) list"
  dlast :: ptr
  dran :: "'f list"

definition defers_start :: "'f defers" where
  "defers_start = \<lparr>dstack = [], dlast = None, dran = []\<rparr>"

definition SetLastDefer :: "addr \<Rightarrow> 'f defers \<Rightarrow> 'f defers" where
  "SetLastDefer a s = s\<lparr>dlast := Some a\<rparr>"

definition ClearLastDefer :: "'f defers \<Rightarrow> 'f defers" where
  "ClearLastDefer s = s\<lparr>dlast := None\<rparr>"

text \<open>\<open>dismiss_ = true\<close> of the object at an address.\<close>

definition set_dismissed :: "addr \<Rightarrow> (addr \<times> 'f \<times> bool) list \<Rightarrow> (addr \<times> 'f \<times> bool) list" where
  "set_dismissed a = map (\<lambda>(c, f, d). (c, f, if c = a then True else d))"

definition defer_new :: "addr \<Rightarrow> 'f \<Rightarrow> 'f defers \<Rightarrow> 'f defers" where
  "defer_new a f s = SetLastDefer a (s\<lparr>dstack := (a, f, False) # dstack s\<rparr>)"

definition defer_move :: "addr \<Rightarrow> addr \<Rightarrow> 'f defers \<Rightarrow> 'f defers option" where
  "defer_move a other s = (case map_of (dstack s) other of
      None \<Rightarrow> None
    | Some (f, d) \<Rightarrow> Some (SetLastDefer a (s\<lparr>dstack := (a, f, d) # set_dismissed other (dstack s)\<rparr>)))"

definition defer_delete :: "addr \<Rightarrow> 'f defers \<Rightarrow> 'f defers option" where
  "defer_delete a s = (case map_of (dstack s) a of
      None \<Rightarrow> None
    | Some (f, d) \<Rightarrow>
        (let s1 = if dlast s = Some a then ClearLastDefer s else s;
             s2 = if \<not> d then s1\<lparr>dran := dran s1 @ [f]\<rparr> else s1
         in Some (s2\<lparr>dstack := filter (\<lambda>e. fst e \<noteq> a) (dstack s2)\<rparr>)))"

definition defer_dismiss :: "addr \<Rightarrow> 'f defers \<Rightarrow> (bool \<times> 'f defers) option" where
  "defer_dismiss a s = (case map_of (dstack s) a of
      None \<Rightarrow> None
    | Some (f, d) \<Rightarrow> Some (if \<not> d then (True, s\<lparr>dstack := set_dismissed a (dstack s)\<rparr>) else (False, s)))"

text \<open>\<open>co_last_defer().dismiss()\<close>; \<open>FakeDismisser\<close> stands for no object.\<close>

definition last_dismiss :: "'f defers \<Rightarrow> (bool \<times> 'f defers) option" where
  "last_dismiss s = (case dlast s of None \<Rightarrow> Some (False, s) | Some a \<Rightarrow> defer_dismiss a s)"

subsection \<open>Programs\<close>

text \<open>
  What scopes do with deferred calls: make one; return one from a function, so that it is moved to another address and the moved one is destroyed;
  dismiss the last one; leave the scope of the latest one. \<open>defer_run\<close> collects the functions that have been cancelled.
\<close>

datatype 'f defer_op = D_new addr 'f | D_return addr | D_dismiss | D_exit

fun defer_may :: "'f defer_op \<Rightarrow> 'f defers \<Rightarrow> bool" where
  "defer_may (D_new a f) s \<longleftrightarrow> a \<notin> fst ` set (dstack s)"
| "defer_may (D_return a) s \<longleftrightarrow> dstack s \<noteq> [] \<and> a \<notin> fst ` set (dstack s)"
| "defer_may D_dismiss s \<longleftrightarrow> True"
| "defer_may D_exit s \<longleftrightarrow> dstack s \<noteq> []"

definition latest_addr :: "'f defers \<Rightarrow> addr" where
  "latest_addr s = fst (hd (dstack s))"

fun defer_do :: "'f defer_op \<Rightarrow> 'f defers \<times> 'f list \<Rightarrow> ('f defers \<times> 'f list) option" where
  "defer_do (D_new a f) (s, cs) = Some (defer_new a f s, cs)"
| "defer_do (D_return a) (s, cs) = (case defer_move a (latest_addr s) s of
      None \<Rightarrow> None
    | Some s1 \<Rightarrow> map_option (\<lambda>s2. (s2, cs)) (defer_delete (latest_addr s) s1))"
| "defer_do D_dismiss (s, cs) = map_option (\<lambda>(b, s1). (s1, if b then cs @ [fst (the (map_of (dstack s) (the (dlast s))))] else cs)) (last_dismiss s)"
| "defer_do D_exit (s, cs) = map_option (\<lambda>s1. (s1, cs)) (defer_delete (latest_addr s) s)"

fun defer_run :: "'f defer_op list \<Rightarrow> 'f defers \<times> 'f list \<Rightarrow> ('f defers \<times> 'f list) option" where
  "defer_run [] c = Some c"
| "defer_run (op # ops) c = (if defer_may op (fst c) then (case defer_do op c of None \<Rightarrow> None | Some c1 \<Rightarrow> defer_run ops c1) else None)"

fun made :: "'f defer_op list \<Rightarrow> 'f list" where
  "made [] = []"
| "made (D_new a f # ops) = f # made ops"
| "made (op # ops) = made ops"

text \<open>The functions still to be called, the latest first.\<close>

definition due :: "'f defers \<Rightarrow> 'f list" where
  "due s = map (\<lambda>e. fst (snd e)) (filter (\<lambda>e. \<not> snd (snd e)) (dstack s))"

definition defers_ok :: "'f defers \<Rightarrow> bool" where
  "defers_ok s \<longleftrightarrow> distinct (map fst (dstack s)) \<and> (dlast s = None \<or> (dstack s \<noteq> [] \<and> dlast s = Some (latest_addr s)))"

lemma set_dismissed_simps [simp]:
  "set_dismissed a [] = []" "set_dismissed a ((c, f, d) # es) = (c, f, if c = a then True else d) # set_dismissed a es"
  "map fst (set_dismissed a es) = map fst es" "fst ` set (set_dismissed a es) = fst ` set es"
  by (induction es) (auto simp: set_dismissed_def)

lemma set_dismissed_other [simp]: "a \<notin> fst ` set es \<Longrightarrow> set_dismissed a es = es"
  by (induction es) auto

lemma filter_other [simp]: "a \<notin> fst ` set es \<Longrightarrow> filter (\<lambda>e. fst e \<noteq> a) es = es"
  by (induction es) auto

lemma exit_top:
  assumes "defers_ok s" and "dstack s = (a, f, d) # es"
  shows "defer_delete (latest_addr s) s = Some (s\<lparr>dstack := es, dlast := None, dran := dran s @ (if d then [] else [f])\<rparr>)"
  using assms by (auto simp: defer_delete_def defers_ok_def latest_addr_def Let_def ClearLastDefer_def)

lemma return_top:
  assumes "defers_ok s" and "dstack s = (b, f, d) # es" and "a \<notin> fst ` set (dstack s)"
  shows "defer_do (D_return a) (s, cs) = Some (s\<lparr>dstack := (a, f, d) # es, dlast := Some a\<rparr>, cs)"
  using assms by (auto simp: defer_move_def defer_delete_def defers_ok_def latest_addr_def Let_def SetLastDefer_def)

lemma dismiss_top:
  assumes "defers_ok s"
  shows "dlast s = None \<and> defer_do D_dismiss (s, cs) = Some (s, cs) \<or>
    (\<exists>a f d es. dstack s = (a, f, d) # es \<and> dlast s = Some a \<and>
      defer_do D_dismiss (s, cs) = Some (s\<lparr>dstack := (a, f, True) # es\<rparr>, if d then cs else cs @ [f]))"
proof (cases "dlast s")
  case None
  then show ?thesis by (simp add: last_dismiss_def)
next
  case (Some a)
  then obtain f d es where e: "dstack s = (a, f, d) # es" using assms
    by (cases "dstack s") (auto simp: defers_ok_def latest_addr_def)
  then have "a \<notin> fst ` set es" using assms by (simp add: defers_ok_def)
  then have "defer_do D_dismiss (s, cs) = Some (s\<lparr>dstack := (a, f, True) # es\<rparr>, if d then cs else cs @ [f])"
    using Some e by (cases d) (simp_all add: last_dismiss_def defer_dismiss_def)
  then show ?thesis using Some e by blast
qed

lemma defer_do_ok:
  assumes "defers_ok s" and "defer_may op s"
  shows "\<exists>s' cs'. defer_do op (s, cs) = Some (s', cs') \<and> defers_ok s' \<and>
    mset (dran s') + mset (due s') + mset cs' = mset (made [op]) + mset (dran s) + mset (due s) + mset cs"
proof (cases op)
  case (D_new a f)
  then show ?thesis using assms by (auto simp: defer_new_def SetLastDefer_def defers_ok_def due_def latest_addr_def)
next
  case (D_return a)
  then obtain b f d es where e: "dstack s = (b, f, d) # es" using assms(2) by (cases "dstack s") auto
  then show ?thesis using return_top [OF assms(1) e, of a cs] assms D_return
    by (auto simp: defers_ok_def due_def latest_addr_def)
next
  case D_dismiss
  from dismiss_top [OF assms(1), of cs] show ?thesis
  proof (elim disjE exE conjE)
    assume "defer_do D_dismiss (s, cs) = Some (s, cs)"
    then show ?thesis using assms(1) unfolding D_dismiss by (intro exI conjI) simp_all
  next
    fix a f d es
    assume "dstack s = (a, f, d) # es" "dlast s = Some a"
      and "defer_do D_dismiss (s, cs) = Some (s\<lparr>dstack := (a, f, True) # es\<rparr>, if d then cs else cs @ [f])"
    then show ?thesis using assms(1) unfolding D_dismiss
      by (intro exI conjI) (auto simp: defers_ok_def due_def latest_addr_def)
  qed
next
  case D_exit
  then obtain b f d es where e: "dstack s = (b, f, d) # es" using assms(2) by (cases "dstack s") auto
  then show ?thesis using exit_top [OF assms(1) e] assms(1) unfolding D_exit
    by (auto simp: defers_ok_def due_def)
qed

lemma made_Cons: "mset (made (op # ops)) = mset (made [op]) + mset (made ops)"
  by (cases op) simp_all

lemma defer_run_ok:
  "defer_run ops (s, cs) = Some (s', cs') \<Longrightarrow> defers_ok s \<Longrightarrow>
    defers_ok s' \<and> mset (dran s') + mset (due s') + mset cs' = mset (made ops) + mset (dran s) + mset (due s) + mset cs"
proof (induction ops arbitrary: s cs)
  case (Cons op ops)
  from Cons.prems(1) have may: "defer_may op s" by (simp split: if_splits)
  obtain t ds where t: "defer_do op (s, cs) = Some (t, ds)" "defers_ok t"
      "mset (dran t) + mset (due t) + mset ds = mset (made [op]) + mset (dran s) + mset (due s) + mset cs"
    using defer_do_ok [OF Cons.prems(2) may] by blast
  then have "defer_run ops (t, ds) = Some (s', cs')" using Cons.prems(1) may by simp
  note i = Cons.IH [OF this t(2)]
  show ?case using i t(3) made_Cons [of op ops] by (simp add: ac_simps)
qed simp

lemma leave_all:
  "defers_ok s \<Longrightarrow> \<exists>s'. defer_run (replicate (length (dstack s)) D_exit) (s, cs) = Some (s', cs) \<and> dstack s' = [] \<and> dran s' = dran s @ due s"
proof (induction "dstack s" arbitrary: s)
  case Nil
  then show ?case by (simp add: due_def)
next
  case (Cons e es)
  obtain a f d where e: "dstack s = (a, f, d) # es" using Cons.hyps(2) by (metis prod.exhaust)
  let ?s = "s\<lparr>dstack := es, dlast := None, dran := dran s @ (if d then [] else [f])\<rparr>"
  have "defers_ok ?s" using Cons.prems e by (simp add: defers_ok_def)
  then obtain s' where "defer_run (replicate (length es) D_exit) (?s, cs) = Some (s', cs)" "dstack s' = []" "dran s' = dran ?s @ due ?s"
    using Cons.hyps(1) [of ?s] by auto
  then show ?case using exit_top [OF Cons.prems e] e by (auto simp: due_def)
qed

text \<open>C23: in every program each deferred function is called once when its scope is left, unless it was cancelled, and when the scopes are left they are called
  latest first. \<open>co_last_defer\<close> never refers to an object that is gone: it is the latest live one or nothing. But it is nothing
  after any scope with a deferred call has been left, also when an outer one is still live: then \<open>dismiss\<close> returns false and cancels nothing.\<close>

theorem defers_called_once:
  assumes "defer_run ops (defers_start, []) = Some (s, cs)"
  shows "mset (made ops) = mset (dran s) + mset (due s) + mset cs \<and>
    (dlast s = None \<or> dstack s \<noteq> [] \<and> dlast s = Some (latest_addr s)) \<and>
    (\<forall>op. defer_may op s \<longrightarrow> defer_do op (s, cs) \<noteq> None) \<and>
    (\<exists>s'. defer_run (replicate (length (dstack s)) D_exit) (s, cs) = Some (s', cs) \<and> dstack s' = [] \<and> dran s' = dran s @ due s) \<and>
    (\<forall>s'. defer_delete (latest_addr s) s = Some s' \<longrightarrow> last_dismiss s' = Some (False, s'))"
proof -
  have "defers_ok (defers_start :: 'a defers)" by (simp add: defers_ok_def defers_start_def)
  from defer_run_ok [OF assms this] have ok: "defers_ok s" and m: "mset (made ops) = mset (dran s) + mset (due s) + mset cs"
    by (simp_all add: defers_start_def due_def)
  have "last_dismiss s' = Some (False, s')" if x: "defer_delete (latest_addr s) s = Some s'" for s'
  proof -
    obtain a f d es where e: "dstack s = (a, f, d) # es" using x by (cases "dstack s") (auto simp: defer_delete_def)
    show ?thesis using exit_top [OF ok e] x by (auto simp: last_dismiss_def)
  qed
  moreover have "\<forall>op. defer_may op s \<longrightarrow> defer_do op (s, cs) \<noteq> None" using defer_do_ok [OF ok] by blast
  ultimately show ?thesis using m ok leave_all [OF ok, of cs] by (simp add: defers_ok_def)
qed

text \<open>An outer call, an inner scope with a cancelled call, then an attempt to cancel the outer one.\<close>

theorem defers_called_once_witness:
  "\<exists>s'. defer_run (replicate 1 D_exit) (\<lparr>dstack = [(1, ''outer'', False)], dlast = None, dran = [''third'']\<rparr>, [''second'']) = Some (s', [''second'']) \<and>
    dran s' = [''third'', ''outer'']"
proof -
  have "defer_run [D_new 1 ''outer'', D_new 2 ''second'', D_dismiss, D_exit, D_new 2 ''third'', D_return 3, D_exit, D_dismiss] (defers_start, []) =
      Some (\<lparr>dstack = [(1, ''outer'', False)], dlast = None, dran = [''third'']\<rparr>, [''second''])"
    by (simp add: defers_start_def defer_new_def SetLastDefer_def ClearLastDefer_def last_dismiss_def defer_dismiss_def defer_delete_def defer_move_def
        latest_addr_def)
  from defers_called_once [OF this] show ?thesis by (auto simp: due_def)
qed

end
