(* ===== verification/Timer_Next.thy ===== *)
theory Timer_Next
  imports Co_Timer
begin

text \<open>
  \<open>Timer::NextTrigger\<close> (\<open>src/common/inc/Timer.h\<close>): the time until which a loop around \<open>RunOnce\<close> could sleep, at most \<open>max\<close> ahead. Nothing in
  the repository calls it. The clock is read when the bound is computed (\<open>now\<close>) and again when there is no reason to
  sleep (\<open>now2\<close>). A \<open>Point\<close> is the number with its bytes.
\<close>

definition set_byte :: "nat \<Rightarrow> nat \<Rightarrow> nat \<Rightarrow> nat" where
  "set_byte i b x = x - byte i x * 256 ^ i + b * 256 ^ i"

text \<open>\<open>p8[m] = 0\<close> for every \<open>m\<close> above \<open>i\<close>.\<close>

definition clear_above :: "nat \<Rightarrow> nat \<Rightarrow> nat" where
  "clear_above i x = x mod 256 ^ Suc i"

fun top_level :: "nat \<Rightarrow> nat \<Rightarrow> nat \<Rightarrow> nat" where
  "top_level 0 lst p = 0"
| "top_level (Suc i) lst p = (if byte i lst < byte i p then i else top_level i lst p)"

text \<open>The first slot of level \<open>i\<close> with elements, in the circle from the position of \<open>last\<close>, then on the next levels.\<close>

definition circle_slot :: "timer \<Rightarrow> nat \<Rightarrow> nat \<Rightarrow> nat option" where
  "circle_slot t lst i = map_option (\<lambda>k. (k + byte i lst) mod 256) (find (\<lambda>k. slots t i ((k + byte i lst) mod 256) \<noteq> []) [0..<256])"

fun lower_slot :: "timer \<Rightarrow> nat \<Rightarrow> nat list \<Rightarrow> (nat \<times> nat) option" where
  "lower_slot t lst [] = None"
| "lower_slot t lst (i # ls) = (case circle_slot t lst i of Some j \<Rightarrow> Some (i, j) | None \<Rightarrow> lower_slot t lst ls)"

text \<open>The points \<open>p\<close> and \<open>last\<close> at \<open>check_done\<close>.\<close>

definition next_points :: "timer \<Rightarrow> nat \<Rightarrow> nat \<Rightarrow> nat \<times> nat" where
  "next_points t lst p =
     (let top = top_level 8 lst p in
      case lower_slot t lst [0..<top] of
        Some (i, j) \<Rightarrow>
          (let p1 = clear_above i (set_byte i j p); last1 = clear_above i lst
           in (if j < byte i last1 then set_byte (i + 1) 1 p1 else p1, last1))
      | None \<Rightarrow> (case find (\<lambda>j. slots t top j \<noteq> []) [byte top lst..<byte top p] of
            Some j \<Rightarrow> (set_byte top j p, lst)
          | None \<Rightarrow> (p, lst)))"

definition NextTrigger :: "int \<Rightarrow> int \<Rightarrow> int \<Rightarrow> timer \<Rightarrow> int" where
  "NextTrigger mx now now2 t =
     (if mx = 0 \<or> completeSlot t \<noteq> [] then now2
      else let p = ticks (now + mx) t; lst = point t in
        if p \<le> lst then now2
        else let (p1, last1) = next_points t lst p
             in if last1 < p1 then int (p1 - last1) * precision t + lastTime t else now2)"

text \<open>It asks for no sleep while elements wait to be called, and it sleeps exactly until the bound when no element is on the levels it looks at.\<close>

lemma find_no_slot: "(\<forall>j < 256. slots t i j = []) \<Longrightarrow> circle_slot t lst i = None"
  by (simp add: circle_slot_def find_None_iff)

lemma lower_no_slot: "\<forall>i \<in> set ls. \<forall>j < 256. slots t i j = [] \<Longrightarrow> lower_slot t lst ls = None"
  by (induction ls) (simp_all add: find_no_slot)

lemma NextTrigger_idle:
  assumes "0 < precision t" and "\<forall>i < 8. \<forall>j < 256. slots t i j = []" and "completeSlot t = []" and "mx \<noteq> 0" and "point t < ticks (now + mx) t"
  shows "NextTrigger mx now now2 t = tbegin t + int (ticks (now + mx) t) * precision t"
proof -
  let ?top = "top_level 8 (point t) (ticks (now + mx) t)"
  have top: "top_level n x y \<le> n - 1" for n x y by (induction n) (auto simp: le_diff_conv split: if_splits)
  have "?top < 8" using top [of 8 "point t" "ticks (now + mx) t"] by simp
  then have l: "lower_slot t (point t) [0..<?top] = None" using assms(2) by (intro lower_no_slot) auto
  have "byte ?top p \<le> 256" for p by (simp add: byte_def less_imp_le)
  then have "find (\<lambda>j. slots t ?top j \<noteq> []) [byte ?top (point t)..<byte ?top (ticks (now + mx) t)] = None"
    using assms(2) \<open>?top < 8\<close> by (auto simp: find_None_iff intro: less_le_trans)
  then have n: "next_points t (point t) (ticks (now + mx) t) = (ticks (now + mx) t, point t)"
    using l by (simp add: next_points_def Let_def)
  show ?thesis using assms by (simp add: NextTrigger_def n Let_def lastTime_def of_nat_diff left_diff_distrib)
qed

lemma NextTrigger_ready: "completeSlot t \<noteq> [] \<Longrightarrow> NextTrigger mx now now2 t = now2"
  by (simp add: NextTrigger_def)

text \<open>Otherwise it may be wrong in both directions. An element 254 ticks ahead makes it return a time 254 ticks ahead when the bound was
  one tick; and for an element 256 ticks ahead it returns a time 511 ticks ahead, since the low bytes of the bound stay in the answer.\<close>

lemma byte_values: "byte 0 255 = 255" "byte (Suc 0) 255 = 0" "byte 0 256 = 0" "byte (Suc 0) 256 = 1"
  by (simp_all add: byte_def)

lemma NextTrigger_wrong:
  "(let t = waiting_at 0 253 50900000 ((Timer_new 0)\<lparr>point := 255\<rparr>)
    in StartTimer 7 50900000 ((Timer_new 0)\<lparr>point := 255\<rparr>) = (7, t) \<and> NextTrigger 100000 25500000 x t = 50900000) \<and>
   (let t = waiting_at 1 1 25600000 (Timer_new 0)
    in StartTimer 7 25600000 (Timer_new 0) = (7, t) \<and> NextTrigger (65791 * 100000) 0 x t = 51100000)"
proof -
  have e: "(8 :: nat) = Suc (Suc (Suc (Suc (Suc (Suc (Suc (Suc 0)))))))" by simp
  have f: "find_level 8 254 255 = (0, 253)" "find_level 8 256 0 = (1, 1)" "top_level 8 255 256 = Suc 0" "top_level 8 0 65791 = 2"
    unfolding e find_level.simps top_level.simps by (simp_all add: byte_def)
  let ?a = "waiting_at 0 253 50900000 ((Timer_new 0)\<lparr>point := 255\<rparr>)"
  let ?b = "waiting_at 1 1 25600000 (Timer_new 0)"
  have sa: "StartTimer 7 50900000 ((Timer_new 0)\<lparr>point := 255\<rparr>) = (7, ?a)"
    by (rule start_7) (simp_all add: Timer_new_def lastTime_def f)
  have sb: "StartTimer 7 25600000 (Timer_new 0) = (7, ?b)"
    by (rule start_7) (simp_all add: Timer_new_def lastTime_def f)
  have slot_a: "slots ?a k i = (if k = 0 \<and> i = 253 then [7] else [])" and slot_b: "slots ?b k i = (if k = 1 \<and> i = 1 then [7] else [])" for k i
    by (simp_all add: waiting_at_def set_slot_def Timer_new_def)
  have m: "(k + 255) mod 256 = 253 \<longleftrightarrow> k = 254" if "k < 256" for k :: nat
  proof (cases k)
    case (Suc j)
    then have "k + 255 = j + 256" by simp
    then have "(k + 255) mod 256 = j" using that Suc by (simp only: mod_add_self2) simp
    then show ?thesis using Suc by simp
  qed simp
  have "find (\<lambda>k. slots ?a 0 ((k + 255) mod 256) \<noteq> []) [0..<256] = Some 254"
    unfolding find_Some_iff slot_a by (intro exI [of _ 254]) (simp add: m)
  then have "circle_slot ?a 255 0 = Some 253" by (simp add: circle_slot_def byte_values)
  then have na: "next_points ?a 255 256 = (509, 255)"
    by (simp add: next_points_def f Let_def clear_above_def set_byte_def byte_def)
  have "circle_slot ?b 0 0 = None" unfolding circle_slot_def slot_b by (simp add: find_None_iff)
  moreover have "find (\<lambda>k. slots ?b 1 ((k + 0) mod 256) \<noteq> []) [0..<256] = Some 1"
    unfolding find_Some_iff slot_b by (intro exI [of _ 1]) simp
  then have "circle_slot ?b 0 1 = Some 1" by (simp add: circle_slot_def byte_def)
  ultimately have nb: "next_points ?b 0 65791 = (511, 0)"
    by (simp add: next_points_def f Let_def clear_above_def set_byte_def byte_def upt_rec)
  have "NextTrigger 100000 25500000 x ?a = 50900000"
    using na by (simp add: NextTrigger_def ticks_def lastTime_def waiting_at_def Timer_new_def set_slot_def)
  moreover have "NextTrigger (65791 * 100000) 0 x ?b = 51100000"
    using nb by (simp add: NextTrigger_def ticks_def lastTime_def waiting_at_def Timer_new_def set_slot_def)
  ultimately show ?thesis using sa sb by (simp add: Let_def)
qed

end
