(* ===== verification/Spec2Isabelle.thy ===== *)
theory Spec2Isabelle
  imports Ts_Queue Locked_Channel Signals Object_Pool Doorbell Task_Packets Processor_Runs Proc_Wait Scheduler Co_Timer Stream_Pool Event_Pool Heap_Runs Rw_Lock Conn_Pool Async_Pool Cas_Channel Task_Storage Spin_Locks Os_Event Shared_Memory Deferred_Calls Timer_Next
begin

text \<open>
  A model of the costream runtime: a coroutine scheduler with its synchronisation objects, and an HSA-like layer of
  signals, packet queues and events below it. The C++ sources are under \<open>src/\<close>; paths below are relative to it.

  \<^bold>\<open>The parts and how they interact.\<close> Coroutines are \<open>Task\<close>s. A \<open>Scheduler\<close> owns one \<open>Processor\<close> per thread; a processor runs the
  tasks of its run queue, suspends and wakes them, and is robbed by the dispatcher of the scheduler, which shares the
  tasks of blocked processors among the active ones. The queues are intrusive lists (\<open>TSQueue\<close>, \<open>SList\<close>) whose elements
  are reference counted. New tasks reach a processor through packets in a ring of a \<open>HardQueue\<close>, which is announced by a
  doorbell signal. Coroutines meet in channels, which are a ring buffer guarded by two condition variables; a condition variable
  keeps its waiters in a \<open>WaitQueue\<close>. \<open>Timer\<close> calls functions at a time, e.g. to end a timed wait. \<open>StreamPool\<close> creates signals and queues and
  waits for any of several signals; \<open>EventPool\<close> does so on its own thread and calls handlers.

  \<^bold>\<open>Conventions.\<close> A class is a record of the members the operations use, an operation a function on the record that is
  returned updated. A failed \<open>assert\<close>, a null dereference and other undefined behaviour is \<open>None\<close>; exceptions and error
  codes are values. Fixed-width integers are words where they can wrap. Addresses are natural numbers and stores are functions from
  addresses. Calls of the operating system, of the device and of the allocator are parameters. Concurrent code is a step relation
  whose steps are the atomic accesses, or the critical sections, of the source.

  \<^bold>\<open>Theories.\<close>
  \<^item> \<open>Co_Prelude\<close>: types and lemmas used everywhere. \<open>Fifo_Spec\<close>: the contract of a bounded queue as a locale, with the order of
    what comes out proved once and interpreted for the intrusive queue, the ring buffer and the channel.
  \<^item> \<open>Ref_Count\<close> (\<open>src/common/inc/LangSupport.h\<close>): \<open>RefObject\<close>, \<open>SharedRefObject\<close>, \<open>WeakPtr\<close>, \<open>IncursivePtr\<close>; an object is deleted once, when the last
    owner leaves, and a weak pointer locks exactly while the object lives.
  \<^item> \<open>Ts_Queue\<close> (\<open>src/common/inc/TsQueue.h\<close>): the doubly linked queue on a node store, \<open>SList\<close> cut and append, teardown; every operation
    refines the list operation it stands for.
  \<^item> \<open>Ring_Buffer\<close>, \<open>Wait_Queue\<close>, \<open>Cond_Var\<close>, \<open>Locked_Channel\<close> (\<open>include/co/sync/\<close>): the ring with its index arithmetic, the lazily
    compacted wait queue, the two-flag handshake between a waiter and a notifier in all interleavings, and the channel as a
    refinement of a bounded queue with blocked senders and receivers.
  \<^item> \<open>Atomic_Ops\<close>, \<open>Int_Math\<close> (\<open>include/util/\<close>): read-modify-write helpers and integer helpers at their width.
  \<^item> \<open>Signals\<close> (\<open>include/core/ISignal.h\<close>, \<open>src/core/*Signal.cpp\<close>): the two signal classes, waiting with fuel for the number of polls
    (enough fuel is shown to give a result), reference counts of signals.
  \<^item> \<open>Object_Pool\<close> (\<open>ISignal.h\<close>, \<open>ISignal.cpp\<close>, \<open>IQueue.cpp\<close>): the block-wise pools of signals and queues.
  \<^item> \<open>Aql_Queues\<close>, \<open>Doorbell\<close>, \<open>Task_Packets\<close> (\<open>include/HardQueue.h\<close>, \<open>src/core/HardQueue.cpp\<close>, \<open>src/core/SoftQueue.cpp\<close>, \<open>src/processor/Processor.cpp\<close>): indices and
    sizes of the packet rings, the legacy doorbell protocol, and tasks travelling through the ring.
  \<^item> \<open>Processor\<close>, \<open>Processor_Runs\<close>, \<open>Proc_Wait\<close> (\<open>src/processor\<close>, \<open>src/task\<close>): suspend, wakeup, garbage collection and stealing; runs of the
    processor and its clients; the handshake of an idle processor with one that adds a task.
  \<^item> \<open>Scheduler\<close> (\<open>src/scheduler\<close>): start, stop, the choice of a processor and one round of the dispatcher; a locale for whatever
    holds tasks is interpreted on the processor.
  \<^item> \<open>Co_Timer\<close> (\<open>src/common/inc/Timer.h\<close>): the eight-level timer wheel on 64-bit ticks; the sweep has fuel, one unit per slot.
  \<^item> \<open>Stream_Pool\<close>, \<open>Event_Pool\<close> (\<open>src/core/Stream.cpp\<close>, \<open>src/core/EventPool.cpp\<close>): the queue pool, waiting for any signal, the event loop
    against its callers.
  \<^item> \<open>Small_Heap\<close>, \<open>Heap_Runs\<close> (\<open>src/common/small_heap.cpp\<close>): the allocator on its map of linked nodes, as a refinement of first fit on a list of
    blocks; its runs, seen through the blocks in use. The walks have the number of nodes as fuel. The contract of an allocator is a locale,
    interpreted for both ends of the heap.
  \<^item> \<open>Rw_Lock\<close> (\<open>include/util/locks.h\<close>, \<open>src/core/util/locks.cpp\<close>): the reader-writer lock under any number of threads, with spurious wakeups.
    \<open>Spin_Locks\<close> (\<open>src/common/inc/SpinLock.h\<close>, \<open>include/util/locks.h\<close>, \<open>include/util/lazy_coptr.h\<close>): the locks on one word, as a locale that is interpreted for
    each of them, and the pointer that makes its object on first use. \<open>Os_Event\<close> (\<open>src/core/util/lnx/os_linux.cpp\<close>): events, step by step.
  \<^item> \<open>Cas_Channel\<close> (\<open>include/co/sync/cas_channel_impl.h\<close>): the lock-free channel, whose two counters share one word; one step per access.
  \<^item> \<open>Conn_Pool\<close> (\<open>src/pool/ConnectionPool.h\<close>) and \<open>Async_Pool\<close> (\<open>src/pool/AsyncCoroutinePool.cpp\<close>): the pools of connections and of coroutines: who
    holds what in every interleaving, the registration of callback points and the order of callbacks.
  \<^item> \<open>Task_Storage\<close> (\<open>src/common/inc/Anys.h\<close>, \<open>src/common/inc/any.h\<close>, \<open>src/task/Task.h\<close>, \<open>src/processor/CoLocalStorage.h\<close>): the block of typed objects
    that each task carries, values of any type, coroutine-local variables.
  \<^item> \<open>Shared_Memory\<close> (\<open>include/Shared.h\<close>, \<open>include/util/utils.h\<close>): handles and arrays of objects in device-visible memory and the scope guards; what a
    handle needs of its allocator is a locale, interpreted for pages and for the pools of \<open>Object_Pool\<close>.
  \<^item> \<open>Deferred_Calls\<close> (\<open>src/defer\<close>): the calls at the end of a scope. \<open>Timer_Next\<close> (\<open>src/common/inc/Timer.h\<close>): the time until the next timer.

  \<^bold>\<open>What the properties show.\<close> Safety and conservation come first: tasks, signals, queue elements and pool objects are neither lost
  nor duplicated in any run (or the property says exactly when they are, where the source has a defect); then functional
  exactness (FIFO order, oldest waiter first, timers called once and not early); then termination, bounds and
  error branches.

  \<^bold>\<open>Fuel and bounds.\<close> Fuel appears for polling loops (a signal wait, waiting for any signal, the timer sweep), for the walks of the
  small heap and for \<open>CallbackPoint::Run\<close>, where more than the number of pending callbacks is enough. The properties state
  how much is enough and that it gives a result. The teardown loops, the removal of dead event handlers and the loops over arrays have termination proofs.

  \<^bold>\<open>Not modelled.\<close> Context switching (\<open>fcontext\<close> assembly, \<open>Context\<close>), thread creation and, apart from the events, the wrappers of the operating
  system (\<open>os_linux.cpp\<close>, \<open>OsSupport\<close>), since they only call the system; the clock, a cycle counter scaled with floating-point numbers; memory
  regions, agents and the device, whose behaviour is not in the sources; \<open>co_mutex\<close> and \<open>co_rwmutex\<close>, of which the repository has only the
  declarations; \<open>Pipe\<close> and \<open>StreamProcessor\<close>, which do not compile and whose bodies are mostly disabled; calls with a deadline on the lock-free
  channel; callbacks that use their own channel while they run; the destructors of the pools of connections and of
  coroutines; debug output, listeners, command-line flags and the disused code under
  \<open>attic\<close>; macros, which have no behaviour of their own; tests and benchmarks.
\<close>

end
